(* ===== verification/Prelude.thy ===== *)
theory Prelude
  imports Main "HOL-Library.Word"
begin

text \<open>
  Shared vocabulary of the development: the fixed-width integers of
  \<^verbatim>\<open>include/core/types.hpp\<close>, signed 64-bit arithmetic with its undefined overflow,
  finite maps as key-sorted association lists (the model of \<^verbatim>\<open>std::map\<close>, and of the
  \<^verbatim>\<open>std::unordered_map\<close>s whose iteration order the code never uses), the collections of
  rewrite rules the component theories add to, and generic facts on lists and words.
\<close>

named_theorems om_simps \<open>rewrite rules for finite maps\<close>
named_theorems frame_simps \<open>which fields an operation leaves alone\<close>

section \<open>Machine integers\<close>

type_synonym quantity = "32 word"
type_synonym order_id = "64 word"
type_synonym seq_num = "64 word"
type_synonym timestamp = "64 word"
type_synonym price = int

text \<open>
  A price is a signed 64-bit integer. Comparisons are exact on \<^typ>\<open>int\<close>; arithmetic that
  leaves the 64-bit range is undefined behaviour in C++ and is \<^const>\<open>None\<close> here.
\<close>

definition s64_range :: "int \<Rightarrow> bool" where
  "s64_range x \<longleftrightarrow> - (2 ^ 63) \<le> x \<and> x < 2 ^ 63"

definition s64 :: "int \<Rightarrow> int option" where
  "s64 x = (if s64_range x then Some x else None)"

definition s64_mul :: "int \<Rightarrow> int \<Rightarrow> int option" where
  "s64_mul x y = s64 (x * y)"

definition s64_add :: "int \<Rightarrow> int \<Rightarrow> int option" where
  "s64_add x y = s64 (x + y)"

definition s64_sub :: "int \<Rightarrow> int \<Rightarrow> int option" where
  "s64_sub x y = s64 (x - y)"

text \<open>Signed division truncates towards zero.\<close>

definition trunc_div :: "int \<Rightarrow> int \<Rightarrow> int" where
  "trunc_div x y = sgn x * sgn y * (\<bar>x\<bar> div \<bar>y\<bar>)"

lemma trunc_div_mult_cancel: "y \<noteq> 0 \<Longrightarrow> trunc_div (x * y) y = x"
proof -
  assume "y \<noteq> 0"
  then have "sgn y * sgn y = 1" "\<bar>x * y\<bar> div \<bar>y\<bar> = \<bar>x\<bar>"
    by (simp_all add: abs_mult sgn_if)
  then have "trunc_div (x * y) y = sgn x * \<bar>x\<bar>"
    by (simp add: trunc_div_def sgn_mult mult.assoc)
  then show ?thesis by (simp add: mult_sgn_abs)
qed

lemma s64_eq_Some: "s64 x = Some y \<longleftrightarrow> s64_range x \<and> y = x"
  by (auto simp: s64_def)

section \<open>Finite maps as key-sorted association lists\<close>

type_synonym ('k, 'v) omap = "('k \<times> 'v) list"

definition om_sorted :: "('k::linorder, 'v) omap \<Rightarrow> bool" where
  "om_sorted m \<longleftrightarrow> sorted_wrt (<) (map fst m)"

fun om_put :: "'k::linorder \<Rightarrow> 'v \<Rightarrow> ('k, 'v) omap \<Rightarrow> ('k, 'v) omap" where
  "om_put k v [] = [(k, v)]"
| "om_put k v (e # m) =
     (if k < fst e then (k, v) # e # m
      else if fst e = k then (k, v) # m
      else e # om_put k v m)"

definition om_erase :: "'k \<Rightarrow> ('k, 'v) omap \<Rightarrow> ('k, 'v) omap" where
  "om_erase k m = filter (\<lambda>e. fst e \<noteq> k) m"

abbreviation om_keys :: "('k, 'v) omap \<Rightarrow> 'k set" where
  "om_keys m \<equiv> fst ` set m"

lemma map_of_om_put [om_simps, simp]: "map_of (om_put k v m) = (map_of m)(k \<mapsto> v)"
  by (induction m) (auto simp: fun_eq_iff)

lemma map_of_om_erase [om_simps, simp]: "map_of (om_erase k m) = (map_of m)(k := None)"
  by (induction m) (auto simp: om_erase_def fun_eq_iff)

lemma om_keys_put [om_simps, simp]: "om_keys (om_put k v m) = insert k (om_keys m)"
  by (induction m) auto

lemma om_keys_erase [om_simps, simp]: "om_keys (om_erase k m) = om_keys m - {k}"
  by (auto simp: om_erase_def)

lemma om_sorted_Nil [simp]: "om_sorted []"
  by (simp add: om_sorted_def)

lemma om_sorted_Cons: "om_sorted (e # m) \<longleftrightarrow> (\<forall>x \<in> om_keys m. fst e < x) \<and> om_sorted m"
  by (auto simp: om_sorted_def)

lemma om_sorted_append:
  "om_sorted (xs @ ys) \<longleftrightarrow> om_sorted xs \<and> om_sorted ys \<and> (\<forall>x \<in> om_keys xs. \<forall>y \<in> om_keys ys. x < y)"
  by (auto simp: om_sorted_def sorted_wrt_append)

lemma om_sorted_put [simp]: "om_sorted m \<Longrightarrow> om_sorted (om_put k v m)"
proof (induction m)
  case (Cons e m)
  then show ?case by (auto simp: om_sorted_Cons)
qed (simp add: om_sorted_def)

lemma om_sorted_erase [simp]: "om_sorted m \<Longrightarrow> om_sorted (om_erase k m)"
  by (induction m) (auto simp: om_sorted_Cons om_erase_def)

lemma om_distinct: "om_sorted m \<Longrightarrow> distinct (map fst m)"
  by (induction m) (auto simp: om_sorted_Cons)

lemma om_find_iff: "om_sorted m \<Longrightarrow> map_of m k = Some v \<longleftrightarrow> (k, v) \<in> set m"
  by (simp add: om_distinct)

text \<open>Where a key sits: the lists around it, for replacement and removal in place.\<close>

lemma om_put_append:
  "om_sorted (xs @ (k, w) # ys) \<Longrightarrow> om_put k v (xs @ (k, w) # ys) = xs @ (k, v) # ys"
  by (induction xs) (auto simp: om_sorted_Cons)

lemma om_erase_append:
  "om_sorted (xs @ (k, w) # ys) \<Longrightarrow> om_erase k (xs @ (k, w) # ys) = xs @ ys"
  by (auto simp: om_erase_def om_sorted_append om_sorted_Cons filter_id_conv intro!: arg_cong2 [of _ _ _ _ "(@)"])

lemma om_put_fresh:
  "k \<notin> om_keys m \<Longrightarrow> \<exists>xs ys. m = xs @ ys \<and> om_put k v m = xs @ (k, v) # ys"
proof (induction m)
  case (Cons e m)
  show ?case
  proof (cases "k < fst e")
    case True
    then show ?thesis by (intro exI [of _ "[]"] exI [of _ "e # m"]) simp
  next
    case False
    from Cons obtain xs ys where "m = xs @ ys" "om_put k v m = xs @ (k, v) # ys" by auto
    with False Cons.prems show ?thesis
      by (intro exI [of _ "e # xs"] exI [of _ ys]) auto
  qed
qed simp

lemma om_split_at:
  "map_of m k = Some v \<Longrightarrow> \<exists>xs ys. m = xs @ (k, v) # ys"
  by (auto dest: map_of_SomeD simp: in_set_conv_decomp)

lemma length_om_put_fresh: "k \<notin> om_keys m \<Longrightarrow> length (om_put k v m) = Suc (length m)"
  by (drule om_put_fresh [of k m v]) auto

lemma om_put_put: "om_put k v (om_put k w m) = om_put k v m"
  by (induction m) auto

lemma om_erase_put_fresh: "k \<notin> om_keys m \<Longrightarrow> om_erase k (om_put k v m) = m"
  by (induction m) (auto simp: om_erase_def filter_id_conv)

lemma om_put_last:
  "om_sorted m \<Longrightarrow> m \<noteq> [] \<Longrightarrow> fst (last m) < k \<Longrightarrow> om_put k v m = m @ [(k, v)]"
proof (induction m)
  case (Cons e m)
  then have "fst e < k"
    by (cases "m = []") (auto simp: om_sorted_Cons dest: less_trans [rotated])
  with Cons show ?case by (cases "m = []") (auto simp: om_sorted_Cons)
qed simp

lemma om_first_least: "om_sorted m \<Longrightarrow> k \<in> om_keys m \<Longrightarrow> fst (hd m) \<le> k"
  by (cases m) (auto simp: om_sorted_Cons)

lemma om_last_greatest:
  assumes "om_sorted m" "k \<in> om_keys m"
  shows "k \<le> fst (last m)"
proof -
  from assms(2) obtain xs e where "m = xs @ [e]" by (cases m rule: rev_cases) auto
  with assms show ?thesis by (auto simp: om_sorted_append)
qed

section \<open>The map interface\<close>

text \<open>
  What the components use of \<^verbatim>\<open>std::map\<close> and \<^verbatim>\<open>std::unordered_map\<close>: look-up, insertion or
  overwriting, erasure and \<^verbatim>\<open>size\<close>, on maps that keep the container's own invariant.
\<close>

locale finite_map =
  fixes find :: "'m \<Rightarrow> 'k \<Rightarrow> 'v option"
    and put :: "'k \<Rightarrow> 'v \<Rightarrow> 'm \<Rightarrow> 'm"
    and erase :: "'k \<Rightarrow> 'm \<Rightarrow> 'm"
    and size :: "'m \<Rightarrow> nat"
    and inv :: "'m \<Rightarrow> bool"
  assumes find_put: "find (put k v m) = (find m)(k \<mapsto> v)"
    and find_erase: "find (erase k m) = (find m)(k := None)"
    and inv_put: "inv m \<Longrightarrow> inv (put k v m)"
    and inv_erase: "inv m \<Longrightarrow> inv (erase k m)"
    and size_dom: "inv m \<Longrightarrow> size m = card (dom (find m))"
    and fin_dom: "finite (dom (find m))"
begin

lemma size_put_fresh: "inv m \<Longrightarrow> find m k = None \<Longrightarrow> size (put k v m) = Suc (size m)"
  by (simp add: size_dom inv_put find_put fin_dom domIff)

lemma size_put_old: "inv m \<Longrightarrow> find m k = Some w \<Longrightarrow> size (put k v m) = size m"
  by (simp add: size_dom inv_put find_put insert_absorb domI)

lemma size_erase_live: "inv m \<Longrightarrow> find m k = Some w \<Longrightarrow> Suc (size (erase k m)) = size m"
  using card_Suc_Diff1 [OF fin_dom, of k m] by (simp add: size_dom inv_erase find_erase domI)

lemma find_erase_put: "find m k = None \<Longrightarrow> find (erase k (put k v m)) = find m"
  by (simp add: find_put find_erase fun_upd_idem)

end

interpretation om: finite_map map_of om_put om_erase length "om_sorted :: ('k::linorder, 'v) omap \<Rightarrow> bool"
proof
  fix m :: "('k, 'v) omap"
  assume "om_sorted m"
  then have "card (fst ` set m) = length m"
    by (metis om_distinct distinct_card length_map list.set_map)
  then show "length m = card (dom (map_of m))" by (simp add: dom_map_of_conv_image_fst)
qed (auto simp: finite_dom_map_of)

section \<open>Words\<close>

lemma word_sub_self_less: "q \<le> a \<Longrightarrow> 0 < q \<Longrightarrow> a - q < (a :: 'w::len word)"
  by (simp add: word_less_nat_alt word_le_nat_alt unat_sub)

lemma unat_sub_le: "q \<le> a \<Longrightarrow> unat (a - q) = unat a - unat (q :: 'w::len word)"
  by (rule unat_sub)

lemma word_add_diff_shift: "(f :: 'w::len word) + (q - f) = q" "q - (f + a) = (q - f) - a"
  by simp_all

lemma unat_sum_list_words:
  "unat (sum_list (ws :: 'w::len word list)) = sum_list (map unat ws) mod 2 ^ LENGTH('w)"
  by (induction ws) (simp_all add: unat_word_ariths mod_add_right_eq)

lemma sum_list_words_le: "unat (sum_list (ws :: 'w::len word list)) \<le> sum_list (map unat ws)"
proof (induction ws)
  case (Cons w ws)
  have "unat (w + sum_list ws) \<le> unat w + unat (sum_list ws)"
    by (simp add: unat_word_ariths)
  with Cons show ?case by simp
qed simp

end
