(* ===== verification/Core_Types.thy ===== *)
theory Core_Types
  imports Prelude "HOL-Library.List_Lexorder"
begin

text \<open>
  \<^verbatim>\<open>include/core/types.hpp\<close>, \<^verbatim>\<open>include/core/order.hpp\<close> and
  \<^verbatim>\<open>include/core/trade.hpp\<close>: symbols, the enumerations, the sentinels, the order record with
  its fill arithmetic, and the messages the engine sends out. Padding members carry no meaning
  and are left out; every other member is a record field under a short prefix of its struct.
\<close>

section \<open>Symbols\<close>

text \<open>
  Eight bytes stored inline. \<^verbatim>\<open>operator==\<close> and \<^verbatim>\<open>operator<\<close> are \<^verbatim>\<open>memcmp\<close>: equality and
  lexicographic order of the unsigned bytes.
\<close>

datatype symbol = Symbol (sym_data: "8 word list")

definition SYMBOL_SIZE :: nat where
  "SYMBOL_SIZE = 8"

definition symbol_equal :: "symbol \<Rightarrow> symbol \<Rightarrow> bool" where
  "symbol_equal a b \<longleftrightarrow> sym_data a = sym_data b"

definition symbol_less :: "symbol \<Rightarrow> symbol \<Rightarrow> bool" where
  "symbol_less a b \<longleftrightarrow> sym_data a < sym_data b"

text \<open>The ordered maps keyed by symbols use the order; equality of symbols is \<^verbatim>\<open>operator==\<close>.\<close>

lemma symbol_equal_iff [simp]: "symbol_equal a b \<longleftrightarrow> a = b"
  by (cases a; cases b) (simp add: symbol_equal_def)

instantiation symbol :: linorder
begin

definition less_eq_symbol :: "symbol \<Rightarrow> symbol \<Rightarrow> bool" where
  "less_eq_symbol a b \<longleftrightarrow> symbol_less a b \<or> symbol_equal a b"

definition less_symbol :: "symbol \<Rightarrow> symbol \<Rightarrow> bool" where
  "less_symbol a b \<longleftrightarrow> symbol_less a b"

instance
  by standard (auto simp: less_eq_symbol_def less_symbol_def symbol_less_def symbol.expand not_less_iff_gr_or_eq)

end

text \<open>
  The constructor from a C string: copy until the terminating zero or until seven characters
  are in place, then pad with zeros. A C string is the list of its bytes up to the zero; the
  loop condition reads the next byte before it tests the length.
\<close>

fun copy_chars :: "8 word list \<Rightarrow> nat \<Rightarrow> 8 word list" where
  "copy_chars [] len = []"
| "copy_chars (c # cs) len =
     (if c \<noteq> 0 \<and> len < SYMBOL_SIZE - 1 then c # copy_chars cs (Suc len) else [])"

definition symbol_of_cstr :: "8 word list \<Rightarrow> symbol" where
  "symbol_of_cstr s =
     (let d = copy_chars s 0 in Symbol (d @ replicate (SYMBOL_SIZE - length d) 0))"

definition symbol_default :: symbol where
  "symbol_default = Symbol (replicate SYMBOL_SIZE 0)"

section \<open>Enumerations and sentinels\<close>

datatype side = Buy | Sell

datatype order_type = Limit | Market | ImmediateOrCancel | FillOrKill | PostOnly

datatype time_in_force = Day | GoodTillCancel | TifImmediateOrCancel | TifFillOrKill

datatype order_status = New | PartiallyFilled | Filled | Cancelled | Rejected

definition INVALID_PRICE :: price where
  "INVALID_PRICE = 2 ^ 63 - 1"

definition INVALID_ORDER_ID :: order_id where
  "INVALID_ORDER_ID = 0"

definition MAX_QUANTITY :: quantity where
  "MAX_QUANTITY = 2 ^ 32 - 1"

definition PRICE_SCALE :: price where
  "PRICE_SCALE = 10000"

abbreviation opposite :: "side \<Rightarrow> side" where
  "opposite s \<equiv> (case s of Buy \<Rightarrow> Sell | Sell \<Rightarrow> Buy)"

section \<open>Orders\<close>

record order =
  o_id :: order_id
  o_price :: price
  o_quantity :: quantity
  o_filled_qty :: quantity
  o_side :: side
  o_type :: order_type
  o_tif :: time_in_force
  o_status :: order_status
  o_symbol :: symbol
  o_timestamp :: timestamp

definition mk_order ::
  "order_id \<Rightarrow> symbol \<Rightarrow> side \<Rightarrow> price \<Rightarrow> quantity \<Rightarrow> order_type \<Rightarrow> time_in_force \<Rightarrow> order" where
  "mk_order i sm sd p q ty tif =
     \<lparr>o_id = i, o_price = p, o_quantity = q, o_filled_qty = 0, o_side = sd, o_type = ty,
      o_tif = tif, o_status = New, o_symbol = sm, o_timestamp = 0\<rparr>"

definition order_default :: order where
  "order_default =
     \<lparr>o_id = 0, o_price = 0, o_quantity = 0, o_filled_qty = 0, o_side = Buy, o_type = Limit,
      o_tif = Day, o_status = New, o_symbol = symbol_default, o_timestamp = 0\<rparr>"

definition remaining :: "order \<Rightarrow> quantity" where
  "remaining x = o_quantity x - o_filled_qty x"

definition is_filled :: "order \<Rightarrow> bool" where
  "is_filled x \<longleftrightarrow> o_quantity x \<le> o_filled_qty x"

definition is_active :: "order \<Rightarrow> bool" where
  "is_active x \<longleftrightarrow> o_status x = New \<or> o_status x = PartiallyFilled"

text \<open>\<^verbatim>\<open>Order::fill\<close> changes the order and returns the amount it took.\<close>

definition fill :: "quantity \<Rightarrow> order \<Rightarrow> quantity \<times> order" where
  "fill q x =
     (let actual = min q (remaining x);
          x1 = x\<lparr>o_filled_qty := o_filled_qty x + actual\<rparr>;
          x2 = (if is_filled x1 then x1\<lparr>o_status := Filled\<rparr>
                else if 0 < o_filled_qty x1 then x1\<lparr>o_status := PartiallyFilled\<rparr>
                else x1)
      in (actual, x2))"

definition cancel :: "order \<Rightarrow> order" where
  "cancel x = x\<lparr>o_status := Cancelled\<rparr>"

definition has_price_priority_over :: "order \<Rightarrow> order \<Rightarrow> bool" where
  "has_price_priority_over x y =
     (if o_side x = Buy then o_price y < o_price x else o_price x < o_price y)"

definition would_cross :: "order \<Rightarrow> price \<Rightarrow> bool" where
  "would_cross x p = (if o_side x = Buy then p \<le> o_price x else o_price x \<le> p)"

section \<open>Messages sent out\<close>

record trade =
  t_seq_num :: seq_num
  t_symbol :: symbol
  t_price :: price
  t_quantity :: quantity
  t_buy_order_id :: order_id
  t_sell_order_id :: order_id
  t_timestamp :: timestamp
  t_aggressor_side :: side

record price_level_update =
  u_price :: price
  u_quantity :: quantity
  u_order_count :: "32 word"

record bbo_update =
  bbo_symbol :: symbol
  bbo_bid_price :: price
  bbo_bid_qty :: quantity
  bbo_ask_price :: price
  bbo_ask_qty :: quantity
  bbo_timestamp :: timestamp

text \<open>
  The average price of a report is the result of a signed multiplication that may overflow, so
  it is an option: \<^const>\<open>None\<close> stands for a value the language does not define.
\<close>

record execution_report =
  er_order_id :: order_id
  er_exec_id :: order_id
  er_symbol :: symbol
  er_side :: side
  er_status :: order_status
  er_price :: price
  er_order_qty :: quantity
  er_filled_qty :: quantity
  er_leaves_qty :: quantity
  er_avg_price :: "price option"
  er_timestamp :: timestamp
  er_last_price :: "price option"
  er_last_qty :: quantity

datatype market_data_type = MdTrade | MdBestBidOffer | MdDepthUpdate | MdSnapshot

record cancel_request =
  cq_order_id :: order_id
  cq_symbol :: symbol

record replace_request =
  rq_order_id :: order_id
  rq_symbol :: symbol
  rq_new_price :: price
  rq_new_qty :: quantity

datatype reject_reason =
    RejNone | UnknownSymbol | InvalidPrice | InvalidQuantity | OrderNotFound | WouldCross
  | DuplicateOrderId | ExchangeClosed | RateLimitExceeded | InsufficientFunds

section \<open>Lemmas\<close>

subsection \<open>Symbols\<close>

lemma copy_chars_eq:
  "len \<le> 7 \<Longrightarrow> copy_chars s len = take (7 - len) (takeWhile (\<lambda>c. c \<noteq> 0) s)"
proof (induction s len rule: copy_chars.induct)
  case (2 c cs len)
  show ?case
  proof (cases "c \<noteq> 0 \<and> len < 7")
    case True
    then have "7 - len = Suc (7 - Suc len)" by arith
    with True 2 show ?thesis by (simp add: SYMBOL_SIZE_def)
  next
    case False
    with 2 show ?thesis by (auto simp: SYMBOL_SIZE_def)
  qed
qed simp

lemma symbol_of_cstr_eq:
  "symbol_of_cstr s =
     (let d = take 7 (takeWhile (\<lambda>c. c \<noteq> 0) s) in Symbol (d @ replicate (8 - length d) 0))"
  by (simp add: symbol_of_cstr_def copy_chars_eq SYMBOL_SIZE_def Let_def)

lemma takeWhile_padded: "0 \<notin> set xs \<Longrightarrow> takeWhile (\<lambda>c. c \<noteq> 0) (xs @ replicate m 0) = (xs :: 'a::zero list)"
  by (subst takeWhile_append2) (auto simp: takeWhile_eq_Nil_iff)

lemma pad_zeros_inject:
  "0 \<notin> set xs \<Longrightarrow> 0 \<notin> set ys \<Longrightarrow> xs @ replicate m 0 = ys @ replicate n 0 \<Longrightarrow> xs = (ys :: 'a::zero list)"
  by (metis takeWhile_padded)

lemma symbol_of_cstr_eq_iff:
  "symbol_of_cstr s = symbol_of_cstr t \<longleftrightarrow>
     take 7 (takeWhile (\<lambda>c. c \<noteq> 0) s) = take 7 (takeWhile (\<lambda>c. c \<noteq> 0) t)"
proof -
  have "0 \<notin> set (take 7 (takeWhile (\<lambda>c. c \<noteq> 0) u))" for u :: "8 word list"
    by (auto dest!: in_set_takeD set_takeWhileD)
  then show ?thesis
    unfolding symbol_of_cstr_eq Let_def by (metis pad_zeros_inject symbol.inject)
qed

lemma length_symbol_of_cstr: "length (sym_data (symbol_of_cstr s)) = SYMBOL_SIZE"
  by (simp add: symbol_of_cstr_eq Let_def SYMBOL_SIZE_def)

subsection \<open>Fill arithmetic\<close>

lemma fill_frame [frame_simps, simp]:
  "o_id (snd (fill q x)) = o_id x" "o_price (snd (fill q x)) = o_price x"
  "o_quantity (snd (fill q x)) = o_quantity x" "o_side (snd (fill q x)) = o_side x"
  "o_type (snd (fill q x)) = o_type x" "o_tif (snd (fill q x)) = o_tif x"
  "o_symbol (snd (fill q x)) = o_symbol x"
  by (simp_all add: fill_def Let_def)

lemma fill_filled [simp]:
  "o_filled_qty (snd (fill q x)) = o_filled_qty x + min q (remaining x)"
  "fst (fill q x) = min q (remaining x)"
  by (simp_all add: fill_def Let_def)

lemma remaining_fill: "q \<le> remaining x \<Longrightarrow> remaining (snd (fill q x)) = remaining x - q"
  by (simp add: remaining_def)

lemma not_filled_iff: "o_filled_qty x \<le> o_quantity x \<Longrightarrow> is_filled x \<longleftrightarrow> remaining x = 0"
  by (auto simp: is_filled_def remaining_def)

lemma unat_remaining:
  "o_filled_qty x \<le> o_quantity x \<Longrightarrow> unat (remaining x) = unat (o_quantity x) - unat (o_filled_qty x)"
  by (simp add: remaining_def unat_sub)

lemma fill_bounded:
  assumes "o_filled_qty x \<le> o_quantity x"
  shows "o_filled_qty (snd (fill q x)) \<le> o_quantity x"
    and "unat (o_filled_qty (snd (fill q x))) = unat (o_filled_qty x) + unat (fst (fill q x))"
proof -
  let ?a = "min q (remaining x)"
  have "unat ?a \<le> unat (o_quantity x) - unat (o_filled_qty x)"
    by (metis assms min.cobounded2 unat_remaining word_le_nat_alt)
  moreover have "unat (o_filled_qty x) \<le> unat (o_quantity x)" "unat (o_quantity x) < 2 ^ 32"
    using assms unsigned_less [of "o_quantity x", where ?'a = nat] by (simp_all add: word_le_nat_alt)
  ultimately have s: "unat (o_filled_qty x) + unat ?a < 2 ^ 32" "unat (o_filled_qty x) + unat ?a \<le> unat (o_quantity x)"
    by linarith+
  then have "unat (o_filled_qty x + ?a) = unat (o_filled_qty x) + unat ?a"
    by (subst unat_add_lem [THEN iffD1]) simp_all
  with s show "o_filled_qty (snd (fill q x)) \<le> o_quantity x"
    and "unat (o_filled_qty (snd (fill q x))) = unat (o_filled_qty x) + unat (fst (fill q x))"
    by (simp_all add: word_le_nat_alt)
qed

lemma is_filled_fill:
  assumes "o_filled_qty x \<le> o_quantity x" "q \<le> remaining x"
  shows "is_filled (snd (fill q x)) \<longleftrightarrow> q = remaining x"
  using assms fill_bounded(1) [OF assms(1), of q] remaining_fill [OF assms(2)]
  by (auto simp: not_filled_iff)

lemma fill_status:
  "o_status (snd (fill q x)) =
     (if is_filled (snd (fill q x)) then Filled
      else if 0 < o_filled_qty (snd (fill q x)) then PartiallyFilled else o_status x)"
  by (simp add: fill_def Let_def is_filled_def)

end
