(* ===== verification/Price_Level.thy ===== *)
theory Price_Level
  imports Core_Types
begin

text \<open>
  \<^verbatim>\<open>include/engine/price_level.hpp\<close> and \<^verbatim>\<open>src/engine/price_level.cpp\<close>: the FIFO queue of one
  price, an intrusive doubly-linked list of heap nodes with a hash index from order id to node.

  The model keeps the pointers. Every level owns its nodes, so the part of the heap it uses is a
  component of its state: \<open>pl_heap\<close> maps the addresses that are allocated now to nodes,
  \<open>pl_brk\<close> is the next address the allocator hands out. A dereference or a \<^verbatim>\<open>delete\<close> of an
  address that is not allocated is undefined behaviour; the model records it in the sticky flag
  \<open>pl_fault\<close>, and the invariant shows that the flag is never raised. Counts of heap nodes
  (\<^verbatim>\<open>size_t\<close>) are natural numbers.
\<close>

section \<open>State and heap primitives\<close>

type_synonym ptr = nat

record order_node =
  n_order_id :: order_id
  n_quantity :: quantity
  n_prev :: "ptr option"
  n_next :: "ptr option"

type_synonym node_heap = "ptr \<rightharpoonup> order_node"

record price_level =
  pl_price :: price
  pl_total_quantity :: quantity
  pl_order_count :: nat
  pl_head :: "ptr option"
  pl_tail :: "ptr option"
  pl_node_index :: "order_id \<rightharpoonup> ptr"
  pl_heap :: node_heap
  pl_brk :: ptr
  pl_fault :: bool

definition mk_node :: "order_id \<Rightarrow> quantity \<Rightarrow> order_node" where
  "mk_node i q = \<lparr>n_order_id = i, n_quantity = q, n_prev = None, n_next = None\<rparr>"

definition node_at :: "price_level \<Rightarrow> ptr \<Rightarrow> order_node" where
  "node_at L p = (case pl_heap L p of Some n \<Rightarrow> n | None \<Rightarrow> mk_node 0 0)"

definition touch :: "ptr \<Rightarrow> price_level \<Rightarrow> price_level" where
  "touch p L = L\<lparr>pl_fault := pl_fault L \<or> pl_heap L p = None\<rparr>"

definition write_node :: "ptr \<Rightarrow> (order_node \<Rightarrow> order_node) \<Rightarrow> price_level \<Rightarrow> price_level" where
  "write_node p f L =
     (case pl_heap L p of
        None \<Rightarrow> L\<lparr>pl_fault := True\<rparr>
      | Some n \<Rightarrow> L\<lparr>pl_heap := (pl_heap L)(p \<mapsto> f n)\<rparr>)"

definition delete_node :: "ptr \<Rightarrow> price_level \<Rightarrow> price_level" where
  "delete_node p L =
     (case pl_heap L p of
        None \<Rightarrow> L\<lparr>pl_fault := True\<rparr>
      | Some n \<Rightarrow> L\<lparr>pl_heap := (pl_heap L)(p := None)\<rparr>)"

definition new_node :: "order_id \<Rightarrow> quantity \<Rightarrow> price_level \<Rightarrow> ptr \<times> price_level" where
  "new_node i q L =
     (pl_brk L,
      L\<lparr>pl_heap := (pl_heap L)(pl_brk L \<mapsto> mk_node i q), pl_brk := Suc (pl_brk L)\<rparr>)"

section \<open>Operations\<close>

definition new_level :: "price \<Rightarrow> price_level" where
  "new_level p =
     \<lparr>pl_price = p, pl_total_quantity = 0, pl_order_count = 0, pl_head = None, pl_tail = None,
      pl_node_index = Map.empty, pl_heap = Map.empty, pl_brk = 0, pl_fault = False\<rparr>"

definition pl_empty :: "price_level \<Rightarrow> bool" where
  "pl_empty L \<longleftrightarrow> pl_order_count L = 0"

definition find_node :: "order_id \<Rightarrow> price_level \<Rightarrow> ptr option" where
  "find_node i L = pl_node_index L i"

definition unlink :: "ptr \<Rightarrow> price_level \<Rightarrow> price_level" where
  "unlink p L =
     (let L1 = touch p L; n = node_at L1 p;
          L2 = (case n_prev n of
                  Some q \<Rightarrow> write_node q (n_next_update (\<lambda>_. n_next n)) L1
                | None \<Rightarrow> L1\<lparr>pl_head := n_next n\<rparr>);
          m = node_at L2 p
      in (case n_next m of
            Some q \<Rightarrow> write_node q (n_prev_update (\<lambda>_. n_prev m)) L2
          | None \<Rightarrow> L2\<lparr>pl_tail := n_prev m\<rparr>))"

definition pl_add_order :: "order_id \<Rightarrow> quantity \<Rightarrow> price_level \<Rightarrow> price_level" where
  "pl_add_order i q L =
     (let (node, L1) = new_node i q L;
          L2 = L1\<lparr>pl_node_index := (pl_node_index L1)(i \<mapsto> node)\<rparr>;
          L3 = write_node node (n_prev_update (\<lambda>_. pl_tail L2)) L2;
          L4 = write_node node (n_next_update (\<lambda>_. None)) L3;
          L5 = (case pl_tail L4 of
                  Some t \<Rightarrow> write_node t (n_next_update (\<lambda>_. Some node)) L4
                | None \<Rightarrow> L4\<lparr>pl_head := Some node\<rparr>);
          L6 = L5\<lparr>pl_tail := Some node\<rparr>;
          L7 = L6\<lparr>pl_total_quantity := pl_total_quantity L6 + q\<rparr>
      in L7\<lparr>pl_order_count := pl_order_count L7 + 1\<rparr>)"

definition pl_remove_order :: "order_id \<Rightarrow> price_level \<Rightarrow> bool \<times> price_level" where
  "pl_remove_order i L =
     (case find_node i L of
        None \<Rightarrow> (False, L)
      | Some p \<Rightarrow>
         (let L1 = touch p L;
              L2 = L1\<lparr>pl_total_quantity := pl_total_quantity L1 - n_quantity (node_at L1 p)\<rparr>;
              L3 = L2\<lparr>pl_order_count := pl_order_count L2 - 1\<rparr>;
              L4 = unlink p L3;
              L5 = L4\<lparr>pl_node_index := (pl_node_index L4)(i := None)\<rparr>
          in (True, delete_node p L5)))"

definition pl_modify_quantity :: "order_id \<Rightarrow> quantity \<Rightarrow> price_level \<Rightarrow> bool \<times> price_level" where
  "pl_modify_quantity i q L =
     (case find_node i L of
        None \<Rightarrow> (False, L)
      | Some p \<Rightarrow>
         (let L1 = touch p L;
              L2 = L1\<lparr>pl_total_quantity := pl_total_quantity L1 - n_quantity (node_at L1 p)\<rparr>;
              L3 = L2\<lparr>pl_total_quantity := pl_total_quantity L2 + q\<rparr>
          in (True, write_node p (n_quantity_update (\<lambda>_. q)) L3)))"

definition pl_front_order_id :: "price_level \<Rightarrow> order_id" where
  "pl_front_order_id L =
     (case pl_head L of Some p \<Rightarrow> n_order_id (node_at L p) | None \<Rightarrow> INVALID_ORDER_ID)"

definition pl_front_quantity :: "price_level \<Rightarrow> quantity" where
  "pl_front_quantity L =
     (case pl_head L of Some p \<Rightarrow> n_quantity (node_at L p) | None \<Rightarrow> 0)"

definition pl_pop_front :: "price_level \<Rightarrow> price_level" where
  "pl_pop_front L =
     (case pl_head L of
        None \<Rightarrow> L
      | Some old \<Rightarrow>
         (let L1 = touch old L;
              L2 = L1\<lparr>pl_total_quantity := pl_total_quantity L1 - n_quantity (node_at L1 old)\<rparr>;
              L3 = L2\<lparr>pl_order_count := pl_order_count L2 - 1\<rparr>;
              L4 = L3\<lparr>pl_head := n_next (node_at L3 old)\<rparr>;
              L5 = (case pl_head L4 of
                      Some h \<Rightarrow> write_node h (n_prev_update (\<lambda>_. None)) L4
                    | None \<Rightarrow> L4\<lparr>pl_tail := None\<rparr>);
              L6 = L5\<lparr>pl_node_index := (pl_node_index L5)(n_order_id (node_at L5 old) := None)\<rparr>
          in delete_node old L6))"

definition pl_fill_front :: "quantity \<Rightarrow> price_level \<Rightarrow> price_level" where
  "pl_fill_front q L =
     (case pl_head L of
        None \<Rightarrow> L
      | Some h \<Rightarrow>
         (if n_quantity (node_at L h) \<le> q then pl_pop_front L
          else let L1 = L\<lparr>pl_total_quantity := pl_total_quantity L - q\<rparr>
               in write_node h (\<lambda>n. n\<lparr>n_quantity := n_quantity n - q\<rparr>) L1))"

text \<open>
  The destructor deletes the chain from the head. The loop follows whatever the \<open>next\<close> fields
  hold, so it is a partial function: \<^const>\<open>None\<close> would be a loop that does not end.
\<close>

partial_function (option) delete_chain :: "ptr option \<Rightarrow> price_level \<Rightarrow> price_level option" where
  "delete_chain cur L =
     (case cur of
        None \<Rightarrow> Some L
      | Some p \<Rightarrow>
         (let L1 = touch p L; nx = n_next (node_at L1 p)
          in delete_chain nx (delete_node p L1)))"

declare delete_chain.simps [code]

definition pl_destroy :: "price_level \<Rightarrow> price_level option" where
  "pl_destroy L = delete_chain (pl_head L) L"

text \<open>
  The move constructor and move assignment hand the nodes over. What the moved-from index holds
  is unspecified by the standard library; it is the argument \<open>junk\<close>. Both return the
  new level and the moved-from one.
\<close>

definition moved_from :: "(order_id \<rightharpoonup> ptr) \<Rightarrow> price_level \<Rightarrow> price_level" where
  "moved_from junk L =
     L\<lparr>pl_head := None, pl_tail := None, pl_total_quantity := 0, pl_order_count := 0,
       pl_node_index := junk, pl_heap := Map.empty\<rparr>"

definition pl_move_construct ::
  "(order_id \<rightharpoonup> ptr) \<Rightarrow> price_level \<Rightarrow> price_level \<times> price_level" where
  "pl_move_construct junk L = (L, moved_from junk L)"

definition pl_move_assign ::
  "(order_id \<rightharpoonup> ptr) \<Rightarrow> price_level \<Rightarrow> price_level \<Rightarrow> (price_level \<times> price_level) option" where
  "pl_move_assign junk this L =
     map_option (\<lambda>dead. (L\<lparr>pl_fault := pl_fault L \<or> pl_fault dead\<rparr>, moved_from junk L))
       (delete_chain (pl_head this) this)"

section \<open>Abstraction and invariant\<close>

text \<open>
  The abstract value of a level is the list of its orders with their open quantities, oldest
  first; \<open>contents\<close> computes it by walking the chain.
\<close>

definition pair_at :: "node_heap \<Rightarrow> ptr \<Rightarrow> order_id \<times> quantity" where
  "pair_at h p = (case h p of Some n \<Rightarrow> (n_order_id n, n_quantity n) | None \<Rightarrow> (0, 0))"

fun walk :: "nat \<Rightarrow> node_heap \<Rightarrow> ptr option \<Rightarrow> (order_id \<times> quantity) list" where
  "walk 0 h cur = []"
| "walk (Suc n) h None = []"
| "walk (Suc n) h (Some p) =
     pair_at h p # walk n h (case h p of Some x \<Rightarrow> n_next x | None \<Rightarrow> None)"

definition contents :: "price_level \<Rightarrow> (order_id \<times> quantity) list" where
  "contents L = walk (pl_order_count L) (pl_heap L) (pl_head L)"

text \<open>
  \<open>dll h pv cur ps lst nx\<close>: from \<open>cur\<close> the chain visits the nodes \<open>ps\<close> and leaves towards
  \<open>nx\<close>; the first node's \<open>prev\<close> is \<open>pv\<close> and \<open>lst\<close> is the last node visited.
\<close>

fun dll :: "node_heap \<Rightarrow> ptr option \<Rightarrow> ptr option \<Rightarrow> ptr list \<Rightarrow> ptr option \<Rightarrow> ptr option \<Rightarrow> bool" where
  "dll h pv cur [] lst nx \<longleftrightarrow> cur = nx \<and> lst = pv"
| "dll h pv cur (p # ps) lst nx \<longleftrightarrow>
     cur = Some p \<and> (\<exists>n. h p = Some n \<and> n_prev n = pv \<and> dll h (Some p) (n_next n) ps lst nx)"

definition lvl_repr :: "price_level \<Rightarrow> ptr list \<Rightarrow> bool" where
  "lvl_repr L ps \<longleftrightarrow>
     dll (pl_heap L) None (pl_head L) ps (pl_tail L) None \<and>
     distinct ps \<and> dom (pl_heap L) = set ps \<and>
     (\<forall>p \<in> set ps. p < pl_brk L) \<and>
     pl_order_count L = length ps \<and>
     (\<forall>i p. pl_node_index L i = Some p \<longleftrightarrow> p \<in> set ps \<and> fst (pair_at (pl_heap L) p) = i) \<and>
     pl_total_quantity L = sum_list (map (snd \<circ> pair_at (pl_heap L)) ps) \<and>
     \<not> pl_fault L"

definition lvl_inv :: "price_level \<Rightarrow> bool" where
  "lvl_inv L \<longleftrightarrow> (\<exists>ps. lvl_repr L ps)"

text \<open>
  What is left when ids may repeat: the chain is intact and every index entry points to a node of
  its id, but a node need not be indexed.
\<close>

definition lvl_chain :: "price_level \<Rightarrow> ptr list \<Rightarrow> bool" where
  "lvl_chain L ps \<longleftrightarrow>
     dll (pl_heap L) None (pl_head L) ps (pl_tail L) None \<and>
     distinct ps \<and> dom (pl_heap L) = set ps \<and>
     (\<forall>p \<in> set ps. p < pl_brk L) \<and>
     pl_order_count L = length ps \<and>
     (\<forall>i p. pl_node_index L i = Some p \<longrightarrow> p \<in> set ps \<and> fst (pair_at (pl_heap L) p) = i) \<and>
     pl_total_quantity L = sum_list (map (snd \<circ> pair_at (pl_heap L)) ps) \<and>
     \<not> pl_fault L"

lemma repr_chain:
  "lvl_repr L ps \<longleftrightarrow> lvl_chain L ps \<and> (\<forall>p \<in> set ps. pl_node_index L (fst (pair_at (pl_heap L) p)) = Some p)"
  by (auto simp: lvl_repr_def lvl_chain_def)

lemma dll_append:
  "dll h pv cur (ps @ qs) lst nx \<longleftrightarrow> (\<exists>m c. dll h pv cur ps m c \<and> dll h m c qs lst nx)"
  by (induction ps arbitrary: pv cur) auto

lemma dll_upd [simp]: "p \<notin> set ps \<Longrightarrow> dll (h(p := v)) pv cur ps lst nx \<longleftrightarrow> dll h pv cur ps lst nx"
  by (induction ps arbitrary: pv cur) auto

lemma walk_dll:
  "dll h pv cur ps lst None \<Longrightarrow> walk (length ps) h cur = map (pair_at h) ps"
  by (induction ps arbitrary: pv cur) auto

lemma contents_repr: "lvl_repr L ps \<Longrightarrow> contents L = map (pair_at (pl_heap L)) ps"
  unfolding lvl_repr_def contents_def by (metis walk_dll)

lemma pair_at_upd:
  "pair_at (h(p := v)) x =
     (if x = p then (case v of Some n \<Rightarrow> (n_order_id n, n_quantity n) | None \<Rightarrow> (0, 0)) else pair_at h x)"
  by (simp add: pair_at_def)

section \<open>Every operation on the chain\<close>

lemma dll_ends: "dll h pv cur ps lst nx \<Longrightarrow>
   lst = (if ps = [] then pv else Some (last ps)) \<and> cur = (if ps = [] then nx else Some (hd ps))"
  by (induction ps arbitrary: pv cur) auto

lemmas heap_op_defs = touch_def write_node_def delete_node_def new_node_def node_at_def mk_node_def

lemma add_chain:
  assumes r: "lvl_chain L ps"
  shows "lvl_chain (pl_add_order i q L) (ps @ [pl_brk L])"
    and "pl_node_index (pl_add_order i q L) = (pl_node_index L)(i \<mapsto> pl_brk L)"
    and "map (pair_at (pl_heap (pl_add_order i q L))) (ps @ [pl_brk L]) = map (pair_at (pl_heap L)) ps @ [(i, q)]"
proof (atomize (full), cases "pl_tail L")
  case None
  with r have "ps = []" by (auto simp: lvl_chain_def dest!: dll_ends split: if_splits)
  with r None show "lvl_chain (pl_add_order i q L) (ps @ [pl_brk L]) \<and>
     pl_node_index (pl_add_order i q L) = (pl_node_index L)(i \<mapsto> pl_brk L) \<and> map (pair_at (pl_heap (pl_add_order i q L))) (ps @ [pl_brk L]) = map (pair_at (pl_heap L)) ps @ [(i, q)]"
    by (auto simp: pl_add_order_def heap_op_defs lvl_chain_def pair_at_def dom_eq_empty_conv)
next
  case (Some t)
  with r have "ps \<noteq> []" "t = last ps" by (auto simp: lvl_chain_def dest!: dll_ends split: if_splits)
  then obtain as where ps: "ps = as @ [t]" by (metis append_butlast_last_id)
  define b where "b = pl_brk L"
  have bp: "b \<notin> set ps" using r by (auto simp: lvl_chain_def b_def)
  have hb: "pl_heap L b = None" using r bp by (auto simp: lvl_chain_def)
  from r ps obtain n where n: "pl_heap L t = Some n" "n_next n = None"
     "dll (pl_heap L) None (pl_head L) as (n_prev n) (Some t)"
    by (auto simp: lvl_chain_def dll_append)
  define h' where "h' = (pl_heap L)(b \<mapsto> \<lparr>n_order_id = i, n_quantity = q, n_prev = Some t, n_next = None\<rparr>, t \<mapsto> n\<lparr>n_next := Some b\<rparr>)"
  have L': "pl_add_order i q L = L\<lparr>pl_total_quantity := pl_total_quantity L + q, pl_order_count := Suc (pl_order_count L), pl_tail := Some b,
     pl_node_index := (pl_node_index L)(i \<mapsto> b), pl_heap := h', pl_brk := Suc b\<rparr>"
    using Some n bp ps hb by (simp add: pl_add_order_def heap_op_defs b_def [symmetric] Let_def h'_def)
  have old: "pair_at h' p = pair_at (pl_heap L) p" if "p \<in> set ps" for p
    using that n bp by (auto simp: h'_def pair_at_def)
  have new: "pair_at h' b = (i, q)" using bp ps by (auto simp: h'_def pair_at_def)
  have d: "dll h' None (pl_head L) (ps @ [b]) (Some b) None"
    using n ps bp r by (auto simp: h'_def dll_append lvl_chain_def)
  have ix: "p \<in> set (ps @ [b]) \<and> fst (pair_at h' p) = j" if "((pl_node_index L)(i \<mapsto> b)) j = Some p" for j p
    using that r new old by (cases "j = i") (auto simp: lvl_chain_def)
  have pairs: "map (pair_at h') ps = map (pair_at (pl_heap L)) ps" using old by simp
  then have tot: "sum_list (map (snd \<circ> pair_at h') ps) = pl_total_quantity L"
    using r unfolding lvl_chain_def by (metis list.map_comp)
  have "dom h' = set (ps @ [b])" using r ps by (auto simp: h'_def lvl_chain_def)
  with d ix tot r bp new show "lvl_chain (pl_add_order i q L) (ps @ [pl_brk L]) \<and>
     pl_node_index (pl_add_order i q L) = (pl_node_index L)(i \<mapsto> pl_brk L) \<and> map (pair_at (pl_heap (pl_add_order i q L))) (ps @ [pl_brk L]) = map (pair_at (pl_heap L)) ps @ [(i, q)]"
    using pairs unfolding L' b_def [symmetric] by (auto simp: lvl_chain_def less_Suc_eq b_def)
qed

lemma add_repr:
  assumes r: "lvl_repr L ps" and fresh: "i \<notin> fst ` pair_at (pl_heap L) ` set ps"
  shows "lvl_repr (pl_add_order i q L) (ps @ [pl_brk L])"
    and "map (pair_at (pl_heap (pl_add_order i q L))) (ps @ [pl_brk L]) = map (pair_at (pl_heap L)) ps @ [(i, q)]"
  using add_chain [of L ps i q] r fresh by (auto simp: repr_chain)

lemma unlink_repr:
  assumes d: "dll (pl_heap L) None (pl_head L) (as @ p # bs) (pl_tail L) None"
    and dis: "distinct (as @ p # bs)" and dm: "dom (pl_heap L) = set (as @ p # bs)"
  obtains h' hd' tl' where "unlink p L = L\<lparr>pl_head := hd', pl_tail := tl', pl_heap := h'\<rparr>"
    "dll h' None hd' (as @ bs) tl' None" "dom h' = set (as @ p # bs)"
    "\<And>x. pair_at h' x = pair_at (pl_heap L) x"
proof -
  from d obtain n where n: "pl_heap L p = Some n" "dll (pl_heap L) None (pl_head L) as (n_prev n) (Some p)"
     "dll (pl_heap L) (Some p) (n_next n) bs (pl_tail L) None"
    by (auto simp: dll_append)
  show ?thesis
  proof (cases as rule: rev_cases)
    case Nil
    show ?thesis
    proof (cases bs)
      case Nil2: Nil
      with Nil n dm show ?thesis by (intro that [where h' = "pl_heap L" and hd' = None and tl' = None]) (auto simp: unlink_def heap_op_defs)
    next
      case (Cons b bs')
      with n obtain m where m: "n_next n = Some b" "pl_heap L b = Some m" by auto
      with Cons Nil n dm dis show ?thesis
        by (intro that [where h' = "(pl_heap L)(b \<mapsto> m\<lparr>n_prev := None\<rparr>)" and hd' = "Some b" and tl' = "pl_tail L"])
          (auto simp: unlink_def heap_op_defs pair_at_def)
    qed
  next
    case (snoc as' a)
    with n obtain k where k: "n_prev n = Some a" "pl_heap L a = Some k" "n_next k = Some p"
       "dll (pl_heap L) None (pl_head L) as' (n_prev k) (Some a)"
      by (auto simp: dll_append)
    show ?thesis
    proof (cases bs)
      case Nil
      with snoc n k dm dis show ?thesis
        by (intro that [where h' = "(pl_heap L)(a \<mapsto> k\<lparr>n_next := None\<rparr>)" and hd' = "pl_head L" and tl' = "Some a"])
          (auto simp: unlink_def heap_op_defs pair_at_def dll_append)
    next
      case (Cons b bs')
      with n obtain m where m: "n_next n = Some b" "pl_heap L b = Some m" by auto
      with Cons snoc n k dm dis show ?thesis
        by (intro that [where h' = "(pl_heap L)(a \<mapsto> k\<lparr>n_next := Some b\<rparr>, b \<mapsto> m\<lparr>n_prev := Some a\<rparr>)" and hd' = "pl_head L" and tl' = "pl_tail L"])
          (auto simp: unlink_def heap_op_defs pair_at_def dll_append)
    qed
  qed
qed


lemma repr_ids_inj: "lvl_repr L ps \<Longrightarrow> inj_on (fst \<circ> pair_at (pl_heap L)) (set ps)"
  unfolding lvl_repr_def inj_on_def by (metis comp_apply option.inject)

lemma chain_sum_cong:
  "(\<And>x. x \<in> set ps \<Longrightarrow> pair_at h x = pair_at h' x) \<Longrightarrow>
     sum_list (map (snd \<circ> pair_at h) ps) = sum_list (map (snd \<circ> pair_at h') ps)"
  by (intro arg_cong [of _ _ sum_list] map_cong) auto

lemma node_at_pair: "pl_heap L p = Some n \<Longrightarrow> n_quantity (node_at L p) = snd (pair_at (pl_heap L) p)"
  by (simp add: node_at_def pair_at_def)

lemma drop_chain:
  assumes r: "lvl_chain L (as @ p # bs)"
    and d: "dll h' None hd' (as @ bs) tl' None" "dom h' = set (as @ p # bs)"
    and pairs: "\<And>x. pair_at h' x = pair_at (pl_heap L) x"
  shows "lvl_chain (L\<lparr>pl_head := hd', pl_tail := tl', pl_heap := h'(p := None),
       pl_total_quantity := pl_total_quantity L - snd (pair_at (pl_heap L) p),
       pl_order_count := pl_order_count L - 1,
       pl_node_index := (pl_node_index L)(fst (pair_at (pl_heap L) p) := None)\<rparr>) (as @ bs)"
proof -
  let ?h = "h'(p := None)"
  have p: "p \<notin> set as" "p \<notin> set bs" using r by (auto simp: lvl_chain_def)
  then have same: "pair_at ?h x = pair_at (pl_heap L) x" if "x \<in> set (as @ bs)" for x
    using that by (auto simp: pair_at_upd pairs)
  have tot: "sum_list (map (snd \<circ> pair_at ?h) (as @ bs)) = pl_total_quantity L - snd (pair_at (pl_heap L) p)"
  proof -
    have "sum_list (map (snd \<circ> pair_at (pl_heap L)) (as @ bs)) = pl_total_quantity L - snd (pair_at (pl_heap L) p)"
      using r by (simp add: lvl_chain_def)
    with chain_sum_cong [of "as @ bs" ?h "pl_heap L"] same show ?thesis by (simp only:)
  qed
  have ix: "x \<in> set (as @ bs) \<and> fst (pair_at ?h x) = j"
    if j: "((pl_node_index L)(fst (pair_at (pl_heap L) p) := None)) j = Some x" for j x
  proof -
    have "j \<noteq> fst (pair_at (pl_heap L) p)" "pl_node_index L j = Some x" using j by (auto split: if_splits)
    then have "x \<in> set (as @ p # bs)" "fst (pair_at (pl_heap L) x) = j" "x \<noteq> p" using r unfolding lvl_chain_def by blast+
    then show ?thesis using same [of x] by auto
  qed
  show ?thesis
    using r d p tot ix by (auto simp: lvl_chain_def)
qed

text \<open>Both ways of taking a node out, with what is left of the index.\<close>

definition dropped :: "price_level \<Rightarrow> ptr \<Rightarrow> ptr list \<Rightarrow> price_level \<Rightarrow> bool" where
  "dropped L p ps L' \<longleftrightarrow> lvl_chain L' ps \<and> map (pair_at (pl_heap L')) ps = map (pair_at (pl_heap L)) ps \<and>
     pl_node_index L' = (pl_node_index L)(fst (pair_at (pl_heap L) p) := None)"

lemma dropped_repr:
  assumes "lvl_repr L (as @ p # bs)" "dropped L p (as @ bs) L'"
  shows "lvl_repr L' (as @ bs)"
proof -
  have p: "p \<notin> set (as @ bs)" using assms(1) by (auto simp: lvl_repr_def)
  have "fst (pair_at (pl_heap L) x) \<noteq> fst (pair_at (pl_heap L) p)" if "x \<in> set (as @ bs)" for x
    using inj_onD [OF repr_ids_inj [OF assms(1)], of x p] that p by auto
  then show ?thesis using assms by (auto simp: repr_chain dropped_def)
qed

lemma remove_chain:
  assumes r: "lvl_chain L ps" and i: "pl_node_index L i = Some p"
  obtains as bs where "ps = as @ p # bs" "fst (pair_at (pl_heap L) p) = i"
    "fst (pl_remove_order i L)" "dropped L p (as @ bs) (snd (pl_remove_order i L))"
proof -
  from r i have p: "p \<in> set ps" "fst (pair_at (pl_heap L) p) = i" by (auto simp: lvl_chain_def)
  then obtain as bs where ps: "ps = as @ p # bs" by (auto simp: in_set_conv_decomp)
  from r p(1) have "p \<in> dom (pl_heap L)" by (simp add: lvl_chain_def)
  then obtain n where n: "pl_heap L p = Some n" by auto
  let ?M = "L\<lparr>pl_total_quantity := pl_total_quantity L - snd (pair_at (pl_heap L) p), pl_order_count := pl_order_count L - 1\<rparr>"
  have pre: "dll (pl_heap ?M) None (pl_head ?M) (as @ p # bs) (pl_tail ?M) None"
    "distinct (as @ p # bs)" "dom (pl_heap ?M) = set (as @ p # bs)"
    using r ps by (simp_all add: lvl_chain_def)
  obtain h' hd' tl' where u: "unlink p ?M = ?M\<lparr>pl_head := hd', pl_tail := tl', pl_heap := h'\<rparr>"
    "dll h' None hd' (as @ bs) tl' None" "dom h' = set (as @ p # bs)" and u4: "\<And>x. pair_at h' x = pair_at (pl_heap ?M) x"
    using unlink_repr [OF pre] by metis
  note u = u u4 [simplified]
  have t: "touch p L = L" using n by (simp add: touch_def)
  obtain m where m: "h' p = Some m" using u(3) by (auto simp: dom_def)
  have eq: "pl_remove_order i L = (True, L\<lparr>pl_head := hd', pl_tail := tl', pl_heap := h'(p := None),
       pl_total_quantity := pl_total_quantity L - snd (pair_at (pl_heap L) p),
       pl_order_count := pl_order_count L - 1,
       pl_node_index := (pl_node_index L)(fst (pair_at (pl_heap L) p) := None)\<rparr>)"
    using u(1) i p m by (simp add: pl_remove_order_def find_node_def t node_at_pair [OF n] delete_node_def Let_def)
  have "p \<notin> set (as @ bs)" using r ps by (auto simp: lvl_chain_def)
  then have "map (pair_at (h'(p := None))) (as @ bs) = map (pair_at (pl_heap L)) (as @ bs)"
    using u(4) by (auto simp: pair_at_upd)
  with drop_chain [OF r [unfolded ps] u(2,3,4)] show ?thesis
    by (intro that [OF ps p(2)]) (simp_all add: eq dropped_def)
qed

lemma remove_repr:
  assumes r: "lvl_repr L ps" and i: "pl_node_index L i = Some p"
  obtains as bs where "ps = as @ p # bs" "fst (pair_at (pl_heap L) p) = i"
    "fst (pl_remove_order i L)" "lvl_repr (snd (pl_remove_order i L)) (as @ bs)"
    "map (pair_at (pl_heap (snd (pl_remove_order i L)))) (as @ bs) = map (pair_at (pl_heap L)) (as @ bs)"
proof -
  from r have "lvl_chain L ps" by (simp add: repr_chain)
  from remove_chain [OF this i] obtain as bs where 1: "ps = as @ p # bs" "fst (pair_at (pl_heap L) p) = i"
    "fst (pl_remove_order i L)" "dropped L p (as @ bs) (snd (pl_remove_order i L))" .
  from dropped_repr [OF r [unfolded 1(1)] 1(4)] show ?thesis
    using 1 by (intro that [of as bs]) (simp_all add: dropped_def)
qed

lemma pop_chain:
  assumes r: "lvl_chain L (p # bs)"
  shows "dropped L p bs (pl_pop_front L)"
proof -
  from r obtain n where n: "pl_heap L p = Some n" "pl_head L = Some p" "n_prev n = None"
     "dll (pl_heap L) (Some p) (n_next n) bs (pl_tail L) None" and p: "p \<notin> set bs" "distinct bs"
    by (auto simp: lvl_chain_def)
  obtain h' hd' tl' where u: "dll h' None hd' ([] @ bs) tl' None" "dom h' = set ([] @ p # bs)"
      "\<And>x. pair_at h' x = pair_at (pl_heap L) x"
    and eq: "pl_pop_front L = L\<lparr>pl_head := hd', pl_tail := tl', pl_heap := h'(p := None),
       pl_total_quantity := pl_total_quantity L - snd (pair_at (pl_heap L) p),
       pl_order_count := pl_order_count L - 1,
       pl_node_index := (pl_node_index L)(fst (pair_at (pl_heap L) p) := None)\<rparr>"
  proof (cases bs)
    case Nil
    with n r show ?thesis
      by (intro that [where h' = "pl_heap L" and hd' = None and tl' = None])
        (auto simp: pl_pop_front_def heap_op_defs lvl_chain_def pair_at_def)
  next
    case (Cons b bs')
    with n obtain m where m: "n_next n = Some b" "pl_heap L b = Some m" by auto
    with Cons n r p show ?thesis
      by (intro that [where h' = "(pl_heap L)(b \<mapsto> m\<lparr>n_prev := None\<rparr>)" and hd' = "Some b" and tl' = "pl_tail L"])
        (auto simp: pl_pop_front_def heap_op_defs lvl_chain_def pair_at_def)
  qed
  have "lvl_chain L ([] @ p # bs)" using r by simp
  from drop_chain [OF this u] show ?thesis
    using u(3) p by (auto simp: dropped_def eq pair_at_upd)
qed

lemma pop_repr:
  assumes r: "lvl_repr L (p # bs)"
  shows "lvl_repr (pl_pop_front L) bs"
    and "map (pair_at (pl_heap (pl_pop_front L))) bs = map (pair_at (pl_heap L)) bs"
proof -
  from r have "lvl_chain L (p # bs)" by (simp add: repr_chain)
  note d = pop_chain [OF this]
  show "lvl_repr (pl_pop_front L) bs" using dropped_repr [of L "[]" p bs] r d by simp
  show "map (pair_at (pl_heap (pl_pop_front L))) bs = map (pair_at (pl_heap L)) bs" using d by (simp add: dropped_def)
qed

lemma set_quantity_chain:
  assumes r: "lvl_chain L (as @ p # bs)" and n: "pl_heap L p = Some n"
  shows "lvl_chain (L\<lparr>pl_heap := (pl_heap L)(p \<mapsto> n\<lparr>n_quantity := q\<rparr>),
       pl_total_quantity := pl_total_quantity L - n_quantity n + q\<rparr>) (as @ p # bs)"
    and "map (pair_at ((pl_heap L)(p \<mapsto> n\<lparr>n_quantity := q\<rparr>))) (as @ p # bs) =
       map (pair_at (pl_heap L)) as @ (fst (pair_at (pl_heap L) p), q) # map (pair_at (pl_heap L)) bs"
    and "fst (pair_at ((pl_heap L)(p \<mapsto> n\<lparr>n_quantity := q\<rparr>)) x) = fst (pair_at (pl_heap L) x)"
proof -
  let ?h = "(pl_heap L)(p \<mapsto> n\<lparr>n_quantity := q\<rparr>)"
  have p: "p \<notin> set as" "p \<notin> set bs" using r by (auto simp: lvl_chain_def)
  have same: "map (pair_at ?h) as = map (pair_at (pl_heap L)) as" "map (pair_at ?h) bs = map (pair_at (pl_heap L)) bs"
    using p by (auto simp: pair_at_upd)
  have at_p: "pair_at ?h p = (fst (pair_at (pl_heap L) p), q)" "pair_at (pl_heap L) p = (n_order_id n, n_quantity n)"
    using n by (auto simp: pair_at_def)
  show "map (pair_at ?h) (as @ p # bs) =
       map (pair_at (pl_heap L)) as @ (fst (pair_at (pl_heap L) p), q) # map (pair_at (pl_heap L)) bs"
    using same at_p by simp
  have "sum_list (map (snd \<circ> pair_at ?h) as) = sum_list (map (snd \<circ> pair_at (pl_heap L)) as)"
    "sum_list (map (snd \<circ> pair_at ?h) bs) = sum_list (map (snd \<circ> pair_at (pl_heap L)) bs)"
    using p by (auto intro!: chain_sum_cong simp: pair_at_upd)
  moreover have "pl_total_quantity L = sum_list (map (snd \<circ> pair_at (pl_heap L)) as) +
      (n_quantity n + sum_list (map (snd \<circ> pair_at (pl_heap L)) bs))"
    using r at_p by (simp add: lvl_chain_def)
  ultimately have tot: "sum_list (map (snd \<circ> pair_at ?h) (as @ p # bs)) = pl_total_quantity L - n_quantity n + q"
    using at_p(1) by (simp del: map_eq_conv)
  show ids: "fst (pair_at ?h x) = fst (pair_at (pl_heap L) x)" for x
    using n by (auto simp: pair_at_def)
  have "dll ?h None (pl_head L) (as @ p # bs) (pl_tail L) None"
    using r n p by (auto simp: lvl_chain_def dll_append)
  moreover have "dom ?h = set (as @ p # bs)" using r by (auto simp: lvl_chain_def)
  ultimately show "lvl_chain (L\<lparr>pl_heap := ?h, pl_total_quantity := pl_total_quantity L - n_quantity n + q\<rparr>) (as @ p # bs)"
    using r tot ids by (simp add: lvl_chain_def)
qed

lemma set_quantity_repr:
  assumes r: "lvl_repr L (as @ p # bs)" and n: "pl_heap L p = Some n"
  shows "lvl_repr (L\<lparr>pl_heap := (pl_heap L)(p \<mapsto> n\<lparr>n_quantity := q\<rparr>),
       pl_total_quantity := pl_total_quantity L - n_quantity n + q\<rparr>) (as @ p # bs)"
    and "map (pair_at ((pl_heap L)(p \<mapsto> n\<lparr>n_quantity := q\<rparr>))) (as @ p # bs) =
       map (pair_at (pl_heap L)) as @ (fst (pair_at (pl_heap L) p), q) # map (pair_at (pl_heap L)) bs"
proof -
  have c: "lvl_chain L (as @ p # bs)" using r by (simp add: repr_chain)
  note s = set_quantity_chain [OF c n, of q]
  show "lvl_repr (L\<lparr>pl_heap := (pl_heap L)(p \<mapsto> n\<lparr>n_quantity := q\<rparr>),
       pl_total_quantity := pl_total_quantity L - n_quantity n + q\<rparr>) (as @ p # bs)"
    using r s(1,3) by (simp add: repr_chain del: fun_upd_apply)
  show "map (pair_at ((pl_heap L)(p \<mapsto> n\<lparr>n_quantity := q\<rparr>))) (as @ p # bs) =
       map (pair_at (pl_heap L)) as @ (fst (pair_at (pl_heap L) p), q) # map (pair_at (pl_heap L)) bs" by (rule s(2))
qed

lemma modify_node:
  assumes "lvl_chain L ps" "pl_node_index L i = Some p"
  obtains as bs n where "ps = as @ p # bs" "fst (pair_at (pl_heap L) p) = i" "pl_heap L p = Some n"
    "pl_modify_quantity i q L =
      (True, L\<lparr>pl_heap := (pl_heap L)(p \<mapsto> n\<lparr>n_quantity := q\<rparr>), pl_total_quantity := pl_total_quantity L - n_quantity n + q\<rparr>)"
proof -
  from assms have p: "p \<in> set ps" "fst (pair_at (pl_heap L) p) = i" by (auto simp: lvl_chain_def)
  then obtain as bs where ps: "ps = as @ p # bs" by (auto simp: in_set_conv_decomp)
  from assms(1) p(1) have "p \<in> dom (pl_heap L)" by (simp add: lvl_chain_def)
  then obtain n where n: "pl_heap L p = Some n" by auto
  have "pl_modify_quantity i q L =
    (True, L\<lparr>pl_heap := (pl_heap L)(p \<mapsto> n\<lparr>n_quantity := q\<rparr>), pl_total_quantity := pl_total_quantity L - n_quantity n + q\<rparr>)"
    using n assms(2) by (simp add: pl_modify_quantity_def find_node_def heap_op_defs Let_def)
  with ps p(2) n show ?thesis by (rule that)
qed

lemma modify_repr:
  assumes r: "lvl_repr L ps" and i: "pl_node_index L i = Some p"
  shows "fst (pl_modify_quantity i q L)" "lvl_repr (snd (pl_modify_quantity i q L)) ps"
    "map (pair_at (pl_heap (snd (pl_modify_quantity i q L)))) ps =
       map (\<lambda>e. if fst e = i then (i, q) else e) (map (pair_at (pl_heap L)) ps)"
proof -
  from r have "lvl_chain L ps" by (simp add: repr_chain)
  from modify_node [OF this i, of q] obtain as bs n where ps: "ps = as @ p # bs" and p: "fst (pair_at (pl_heap L) p) = i"
    and n: "pl_heap L p = Some n" and eq: "pl_modify_quantity i q L =
      (True, L\<lparr>pl_heap := (pl_heap L)(p \<mapsto> n\<lparr>n_quantity := q\<rparr>), pl_total_quantity := pl_total_quantity L - n_quantity n + q\<rparr>)" .
  have "fst (pair_at (pl_heap L) x) = i \<longleftrightarrow> x = p" if "x \<in> set ps" for x
    using inj_onD [OF repr_ids_inj [OF r]] that p by (auto simp: ps)
  then have "map (\<lambda>e. if fst e = i then (i, q) else e) (map (pair_at (pl_heap L)) ps) =
      map (pair_at (pl_heap L)) as @ (i, q) # map (pair_at (pl_heap L)) bs"
    using r by (auto simp: ps lvl_repr_def)
  with eq show "fst (pl_modify_quantity i q L)" "lvl_repr (snd (pl_modify_quantity i q L)) ps"
    "map (pair_at (pl_heap (snd (pl_modify_quantity i q L)))) ps =
       map (\<lambda>e. if fst e = i then (i, q) else e) (map (pair_at (pl_heap L)) ps)"
    using set_quantity_repr [OF r [unfolded ps] n, of q] p by (simp_all add: ps)
qed

lemma fill_front_node:
  assumes "lvl_chain L (p # bs)" "q < snd (pair_at (pl_heap L) p)"
  obtains n where "pl_heap L p = Some n" "n_quantity n = snd (pair_at (pl_heap L) p)"
    "pl_fill_front q L = L\<lparr>pl_heap := (pl_heap L)(p \<mapsto> n\<lparr>n_quantity := n_quantity n - q\<rparr>),
      pl_total_quantity := pl_total_quantity L - n_quantity n + (n_quantity n - q)\<rparr>"
proof -
  from assms(1) obtain n where n: "pl_heap L p = Some n" "pl_head L = Some p" by (auto simp: lvl_chain_def)
  have "pl_fill_front q L = L\<lparr>pl_heap := (pl_heap L)(p \<mapsto> n\<lparr>n_quantity := n_quantity n - q\<rparr>),
      pl_total_quantity := pl_total_quantity L - n_quantity n + (n_quantity n - q)\<rparr>"
    using n assms(2) by (simp add: pl_fill_front_def heap_op_defs Let_def pair_at_def)
  then show ?thesis using n by (intro that [of n]) (simp_all add: pair_at_def)
qed

lemma fill_front_repr:
  assumes r: "lvl_repr L (p # bs)" and q: "q < snd (pair_at (pl_heap L) p)"
  shows "lvl_repr (pl_fill_front q L) (p # bs)"
    and "map (pair_at (pl_heap (pl_fill_front q L))) (p # bs) =
      (fst (pair_at (pl_heap L) p), snd (pair_at (pl_heap L) p) - q) # map (pair_at (pl_heap L)) bs"
proof -
  from r have "lvl_chain L (p # bs)" by (simp add: repr_chain)
  from fill_front_node [OF this q] obtain n where n: "pl_heap L p = Some n" "n_quantity n = snd (pair_at (pl_heap L) p)"
    "pl_fill_front q L = L\<lparr>pl_heap := (pl_heap L)(p \<mapsto> n\<lparr>n_quantity := n_quantity n - q\<rparr>),
      pl_total_quantity := pl_total_quantity L - n_quantity n + (n_quantity n - q)\<rparr>" .
  then show "lvl_repr (pl_fill_front q L) (p # bs)"
    and "map (pair_at (pl_heap (pl_fill_front q L))) (p # bs) =
      (fst (pair_at (pl_heap L) p), snd (pair_at (pl_heap L) p) - q) # map (pair_at (pl_heap L)) bs"
    using set_quantity_repr [of L "[]" p bs n "n_quantity n - q"] r n(1) by simp_all
qed

lemma fill_front_pop:
  assumes "lvl_chain L (p # bs)" and "snd (pair_at (pl_heap L) p) \<le> q"
  shows "pl_fill_front q L = pl_pop_front L"
proof -
  from assms(1) obtain n where "pl_heap L p = Some n" "pl_head L = Some p" by (auto simp: lvl_chain_def)
  with assms(2) show ?thesis by (simp add: pl_fill_front_def node_at_def pair_at_def)
qed

lemma delete_chain_repr:
  "dll (pl_heap L) pv cur ps lst None \<Longrightarrow> distinct ps \<Longrightarrow>
     delete_chain cur L = Some (L\<lparr>pl_heap := pl_heap L |` (- set ps)\<rparr>)"
proof (induction ps arbitrary: L pv cur)
  case Nil
  then show ?case by (subst delete_chain.simps) (simp add: restrict_map_def)
next
  case (Cons p ps)
  then obtain n where n: "pl_heap L p = Some n" "cur = Some p" "dll (pl_heap L) (Some p) (n_next n) ps lst None"
    by auto
  let ?L = "L\<lparr>pl_heap := (pl_heap L)(p := None)\<rparr>"
  have "delete_chain cur L = delete_chain (n_next n) ?L"
    using n by (subst delete_chain.simps) (simp add: heap_op_defs)
  also have "\<dots> = Some (?L\<lparr>pl_heap := pl_heap ?L |` (- set ps)\<rparr>)"
    using Cons.prems n by (intro Cons.IH [of ?L "Some p" "n_next n"]) (simp_all del: fun_upd_apply)
  also have "pl_heap ?L |` (- set ps) = pl_heap L |` (- set (p # ps))"
    by (auto simp: restrict_map_def)
  finally show ?case by simp
qed


section \<open>The level's contract\<close>

text \<open>
  What a client of the level relies on: a FIFO queue of (id, quantity) pairs with distinct ids,
  removal and amendment by id, consumption at the front, and a total kept in the quantity's own
  32-bit arithmetic. The order book's proofs use these laws only.
\<close>

locale fifo_level =
  fixes new :: "price \<Rightarrow> 'l"
    and add :: "order_id \<Rightarrow> quantity \<Rightarrow> 'l \<Rightarrow> 'l"
    and remove :: "order_id \<Rightarrow> 'l \<Rightarrow> bool \<times> 'l"
    and modify :: "order_id \<Rightarrow> quantity \<Rightarrow> 'l \<Rightarrow> bool \<times> 'l"
    and pop :: "'l \<Rightarrow> 'l"
    and consume :: "quantity \<Rightarrow> 'l \<Rightarrow> 'l"
    and front_id :: "'l \<Rightarrow> order_id"
    and front_qty :: "'l \<Rightarrow> quantity"
    and total :: "'l \<Rightarrow> quantity"
    and is_empty :: "'l \<Rightarrow> bool"
    and inv :: "'l \<Rightarrow> bool"
    and queue :: "'l \<Rightarrow> (order_id \<times> quantity) list"
  assumes new_inv: "inv (new p)"
    and new_queue: "queue (new p) = []"
    and add_inv: "inv l \<Longrightarrow> i \<notin> fst ` set (queue l) \<Longrightarrow> inv (add i q l)"
    and add_queue: "inv l \<Longrightarrow> i \<notin> fst ` set (queue l) \<Longrightarrow> queue (add i q l) = queue l @ [(i, q)]"
    and remove_found: "inv l \<Longrightarrow> fst (remove i l) \<longleftrightarrow> i \<in> fst ` set (queue l)"
    and remove_inv: "inv l \<Longrightarrow> inv (snd (remove i l))"
    and remove_queue: "inv l \<Longrightarrow> queue (snd (remove i l)) = filter (\<lambda>e. fst e \<noteq> i) (queue l)"
    and modify_found: "inv l \<Longrightarrow> fst (modify i q l) \<longleftrightarrow> i \<in> fst ` set (queue l)"
    and modify_inv: "inv l \<Longrightarrow> inv (snd (modify i q l))"
    and modify_queue: "inv l \<Longrightarrow>
      queue (snd (modify i q l)) = map (\<lambda>e. if fst e = i then (i, q) else e) (queue l)"
    and pop_inv: "inv l \<Longrightarrow> inv (pop l)"
    and pop_queue: "inv l \<Longrightarrow> queue (pop l) = tl (queue l)"
    and consume_inv: "inv l \<Longrightarrow> inv (consume q l)"
    and consume_all: "inv l \<Longrightarrow> queue l = (i, r) # es \<Longrightarrow> r \<le> q \<Longrightarrow> queue (consume q l) = es"
    and consume_part: "inv l \<Longrightarrow> queue l = (i, r) # es \<Longrightarrow> q < r \<Longrightarrow> queue (consume q l) = (i, r - q) # es"
    and front_id_queue: "inv l \<Longrightarrow> front_id l = (case queue l of [] \<Rightarrow> INVALID_ORDER_ID | e # es \<Rightarrow> fst e)"
    and front_qty_queue: "inv l \<Longrightarrow> front_qty l = (case queue l of [] \<Rightarrow> 0 | e # es \<Rightarrow> snd e)"
    and total_queue: "inv l \<Longrightarrow> total l = sum_list (map snd (queue l))"
    and empty_queue: "inv l \<Longrightarrow> is_empty l \<longleftrightarrow> queue l = []"
    and distinct_queue: "inv l \<Longrightarrow> distinct (map fst (queue l))"
begin

lemma total_add: "inv l \<Longrightarrow> i \<notin> fst ` set (queue l) \<Longrightarrow> total (add i q l) = total l + q"
  by (simp add: total_queue add_inv add_queue)

lemma total_consume:
  assumes "inv l" "queue l = (i, r) # es" "q \<le> r"
  shows "total (consume q l) = total l - q"
proof (cases "r \<le> q")
  case True
  then show ?thesis using assms by (simp add: total_queue consume_inv consume_all)
next
  case False
  then show ?thesis using assms by (simp add: total_queue consume_inv consume_part)
qed

lemma remove_add: "inv l \<Longrightarrow> i \<notin> fst ` set (queue l) \<Longrightarrow> queue (snd (remove i (add i q l))) = queue l"
  by (simp add: remove_queue add_inv add_queue) (metis (mono_tags, lifting) filter_True imageI)

lemma front_of_add: "inv l \<Longrightarrow> queue l \<noteq> [] \<Longrightarrow> i \<notin> fst ` set (queue l) \<Longrightarrow> front_id (add i q l) = front_id l"
  by (cases "queue l") (simp_all add: front_id_queue add_inv add_queue)

lemma empty_new: "is_empty (new p)"
  by (simp add: empty_queue new_inv new_queue)

lemma not_empty_add: "inv l \<Longrightarrow> i \<notin> fst ` set (queue l) \<Longrightarrow> \<not> is_empty (add i q l)"
  by (simp add: empty_queue add_inv add_queue)

lemma total_bound: "inv l \<Longrightarrow> unat (total l) \<le> sum_list (map (unat \<circ> snd) (queue l))"
  using sum_list_words_le [of "map snd (queue l)"] by (simp add: total_queue)

end

lemma lvl_inv_cases:
  assumes "lvl_inv L"
  obtains (empty) "lvl_repr L []" "contents L = []"
  | (front) p ps where "lvl_repr L (p # ps)"
      "contents L = pair_at (pl_heap L) p # map (pair_at (pl_heap L)) ps"
proof -
  from assms obtain ps where "lvl_repr L ps" by (auto simp: lvl_inv_def)
  then show ?thesis using empty front contents_repr [of L ps] by (cases ps) auto
qed

lemma lvl_inv_head:
  "lvl_inv L \<Longrightarrow> pl_head L = None \<longleftrightarrow> contents L = []"
  by (erule lvl_inv_cases) (auto simp: lvl_repr_def)

lemma index_contents: "lvl_inv L \<Longrightarrow> pl_node_index L i = None \<longleftrightarrow> i \<notin> fst ` set (contents L)"
proof -
  assume "lvl_inv L"
  then obtain ps where r: "lvl_repr L ps" by (auto simp: lvl_inv_def)
  then have "(\<exists>p. pl_node_index L i = Some p) \<longleftrightarrow> i \<in> fst ` set (contents L)"
    by (force simp: contents_repr [OF r] lvl_repr_def)
  then show ?thesis by auto
qed


lemma contents_distinct: "lvl_inv L \<Longrightarrow> distinct (map fst (contents L))"
proof -
  assume "lvl_inv L"
  then obtain ps where r: "lvl_repr L ps" by (auto simp: lvl_inv_def)
  then have "distinct ps" by (simp add: lvl_repr_def)
  with repr_ids_inj [OF r] show ?thesis by (simp add: contents_repr [OF r] distinct_map)
qed

lemma add_law:
  assumes "lvl_inv L" "i \<notin> fst ` set (contents L)"
  shows "lvl_inv (pl_add_order i q L)" "contents (pl_add_order i q L) = contents L @ [(i, q)]"
proof -
  from assms(1) obtain ps where r: "lvl_repr L ps" by (auto simp: lvl_inv_def)
  then have "i \<notin> fst ` pair_at (pl_heap L) ` set ps" using assms(2) by (simp add: contents_repr [OF r])
  note add_repr [OF r this, of q]
  then show "lvl_inv (pl_add_order i q L)" "contents (pl_add_order i q L) = contents L @ [(i, q)]"
    unfolding lvl_inv_def by (blast, metis contents_repr r)
qed

lemma remove_law:
  assumes "lvl_inv L"
  shows "fst (pl_remove_order i L) \<longleftrightarrow> i \<in> fst ` set (contents L)"
    "lvl_inv (snd (pl_remove_order i L))"
    "contents (snd (pl_remove_order i L)) = filter (\<lambda>e. fst e \<noteq> i) (contents L)"
proof (atomize (full), cases "pl_node_index L i")
  case None
  then show "(fst (pl_remove_order i L) \<longleftrightarrow> i \<in> fst ` set (contents L)) \<and> lvl_inv (snd (pl_remove_order i L)) \<and>
    contents (snd (pl_remove_order i L)) = filter (\<lambda>e. fst e \<noteq> i) (contents L)"
    using assms index_contents [OF assms, of i]
    by (auto simp: pl_remove_order_def find_node_def filter_id_conv eq_commute [of "contents L"])
next
  case (Some p)
  from assms obtain ps where r: "lvl_repr L ps" by (auto simp: lvl_inv_def)
  from remove_repr [OF r Some] obtain as bs where ps: "ps = as @ p # bs" "fst (pair_at (pl_heap L) p) = i"
    "fst (pl_remove_order i L)" "lvl_repr (snd (pl_remove_order i L)) (as @ bs)"
    "map (pair_at (pl_heap (snd (pl_remove_order i L)))) (as @ bs) = map (pair_at (pl_heap L)) (as @ bs)" by blast
  have "fst (pair_at (pl_heap L) x) = i \<longleftrightarrow> x = p" if "x \<in> set ps" for x
    using inj_onD [OF repr_ids_inj [OF r]] that ps(1,2) by (metis comp_apply in_set_conv_decomp)
  then have "filter (\<lambda>e. fst e \<noteq> i) (contents L) = map (pair_at (pl_heap L)) (as @ bs)"
    using r ps(1) by (auto simp: contents_repr [OF r] lvl_repr_def filter_map comp_def intro!: arg_cong2 [of _ _ _ _ "(@)"] arg_cong [of _ _ "map _"] filter_True)
  moreover have "i \<in> fst ` set (contents L)" using index_contents [OF assms, of i] Some by auto
  ultimately show "(fst (pl_remove_order i L) \<longleftrightarrow> i \<in> fst ` set (contents L)) \<and> lvl_inv (snd (pl_remove_order i L)) \<and>
    contents (snd (pl_remove_order i L)) = filter (\<lambda>e. fst e \<noteq> i) (contents L)"
    using ps(3-5) by (auto simp: contents_repr [OF ps(4)] lvl_inv_def)
qed

lemma modify_law:
  assumes "lvl_inv L"
  shows "fst (pl_modify_quantity i q L) \<longleftrightarrow> i \<in> fst ` set (contents L)"
    "lvl_inv (snd (pl_modify_quantity i q L))"
    "contents (snd (pl_modify_quantity i q L)) = map (\<lambda>e. if fst e = i then (i, q) else e) (contents L)"
proof (atomize (full), cases "pl_node_index L i")
  case None
  then show "(fst (pl_modify_quantity i q L) \<longleftrightarrow> i \<in> fst ` set (contents L)) \<and> lvl_inv (snd (pl_modify_quantity i q L)) \<and>
    contents (snd (pl_modify_quantity i q L)) = map (\<lambda>e. if fst e = i then (i, q) else e) (contents L)"
    using assms index_contents [OF assms, of i]
    by (force simp: pl_modify_quantity_def find_node_def eq_commute [of "contents L"] intro!: map_idI)
next
  case (Some p)
  from assms obtain ps where r: "lvl_repr L ps" by (auto simp: lvl_inv_def)
  have "i \<in> fst ` set (contents L)" using index_contents [OF assms, of i] Some by auto
  then show "(fst (pl_modify_quantity i q L) \<longleftrightarrow> i \<in> fst ` set (contents L)) \<and> lvl_inv (snd (pl_modify_quantity i q L)) \<and>
    contents (snd (pl_modify_quantity i q L)) = map (\<lambda>e. if fst e = i then (i, q) else e) (contents L)"
    using modify_repr [OF r Some, of q] by (auto simp: contents_repr [OF r] contents_repr [OF modify_repr(2) [OF r Some]] lvl_inv_def)
qed

lemma pop_law:
  assumes "lvl_inv L"
  shows "lvl_inv (pl_pop_front L)" "contents (pl_pop_front L) = tl (contents L)"
proof (atomize (full), use assms in \<open>cases rule: lvl_inv_cases\<close>)
  case empty
  then have "pl_pop_front L = L" by (auto simp: pl_pop_front_def lvl_repr_def)
  with empty assms show "lvl_inv (pl_pop_front L) \<and> contents (pl_pop_front L) = tl (contents L)" by simp
next
  case (front p ps)
  then show "lvl_inv (pl_pop_front L) \<and> contents (pl_pop_front L) = tl (contents L)"
    using pop_repr [OF front(1)] by (auto simp: lvl_inv_def contents_repr [OF pop_repr(1)])
qed

lemma consume_law:
  assumes "lvl_inv L"
  shows "lvl_inv (pl_fill_front q L)"
    "contents L = (i, r) # es \<Longrightarrow> r \<le> q \<Longrightarrow> contents (pl_fill_front q L) = es"
    "contents L = (i, r) # es \<Longrightarrow> q < r \<Longrightarrow> contents (pl_fill_front q L) = (i, r - q) # es"
proof (atomize (full), use assms in \<open>cases rule: lvl_inv_cases\<close>)
  case empty
  then have "pl_fill_front q L = L" by (auto simp: pl_fill_front_def lvl_repr_def)
  with empty assms show "lvl_inv (pl_fill_front q L) \<and>
    (contents L = (i, r) # es \<longrightarrow> r \<le> q \<longrightarrow> contents (pl_fill_front q L) = es) \<and>
    (contents L = (i, r) # es \<longrightarrow> q < r \<longrightarrow> contents (pl_fill_front q L) = (i, r - q) # es)" by simp
next
  case (front p ps)
  show "lvl_inv (pl_fill_front q L) \<and>
    (contents L = (i, r) # es \<longrightarrow> r \<le> q \<longrightarrow> contents (pl_fill_front q L) = es) \<and>
    (contents L = (i, r) # es \<longrightarrow> q < r \<longrightarrow> contents (pl_fill_front q L) = (i, r - q) # es)"
  proof (cases "snd (pair_at (pl_heap L) p) \<le> q")
    case True
    with front pop_law [OF assms] show ?thesis by (auto simp: fill_front_pop repr_chain)
  next
    case False
    then have "q < snd (pair_at (pl_heap L) p)" by simp
    note f = fill_front_repr [OF front(1) this]
    then show ?thesis using front False by (auto simp: lvl_inv_def contents_repr [OF f(1)])
  qed
qed

lemma front_law:
  assumes "lvl_inv L"
  shows "pl_front_order_id L = (case contents L of [] \<Rightarrow> INVALID_ORDER_ID | e # es \<Rightarrow> fst e)"
    "pl_front_quantity L = (case contents L of [] \<Rightarrow> 0 | e # es \<Rightarrow> snd e)"
  using assms
  by (auto elim!: lvl_inv_cases simp: pl_front_order_id_def pl_front_quantity_def lvl_repr_def node_at_def pair_at_def)

lemma new_law: "lvl_inv (new_level p)" "contents (new_level p) = []"
  by (auto simp: lvl_inv_def lvl_repr_def new_level_def contents_def intro!: exI [of _ "[]"])

lemma total_law: "lvl_inv L \<Longrightarrow> pl_total_quantity L = sum_list (map snd (contents L))"
proof -
  assume "lvl_inv L"
  then obtain ps where r: "lvl_repr L ps" by (auto simp: lvl_inv_def)
  then show ?thesis by (simp add: contents_repr [OF r]) (simp add: lvl_repr_def)
qed

lemma empty_law: "lvl_inv L \<Longrightarrow> pl_empty L \<longleftrightarrow> contents L = []"
  by (erule lvl_inv_cases) (auto simp: pl_empty_def lvl_repr_def)

lemma count_law: "lvl_inv L \<Longrightarrow> pl_order_count L = length (contents L)"
proof -
  assume "lvl_inv L"
  then obtain ps where r: "lvl_repr L ps" by (auto simp: lvl_inv_def)
  then show ?thesis by (simp add: contents_repr [OF r]) (simp add: lvl_repr_def)
qed

interpretation lq: fifo_level new_level pl_add_order pl_remove_order pl_modify_quantity pl_pop_front
  pl_fill_front pl_front_order_id pl_front_quantity pl_total_quantity pl_empty lvl_inv contents
  by unfold_locales
    (simp_all add: new_law add_law remove_law modify_law pop_law consume_law front_law total_law
      empty_law contents_distinct)


section \<open>Reachable levels\<close>

text \<open>
  The levels the public operations can build, in any order, when no id is added while the level
  already holds it (the order book checks that first).
\<close>

inductive lvl_reach :: "price_level \<Rightarrow> bool" where
  lvl_new: "lvl_reach (new_level p)"
| lvl_add: "lvl_reach L \<Longrightarrow> find_node i L = None \<Longrightarrow> lvl_reach (pl_add_order i q L)"
| lvl_remove: "lvl_reach L \<Longrightarrow> lvl_reach (snd (pl_remove_order i L))"
| lvl_modify: "lvl_reach L \<Longrightarrow> lvl_reach (snd (pl_modify_quantity i q L))"
| lvl_pop: "lvl_reach L \<Longrightarrow> lvl_reach (pl_pop_front L)"
| lvl_fill: "lvl_reach L \<Longrightarrow> lvl_reach (pl_fill_front q L)"

lemma lvl_reach_inv: "lvl_reach L \<Longrightarrow> lvl_inv L"
  by (induction rule: lvl_reach.induct)
    (simp_all add: lq.new_inv lq.add_inv lq.remove_inv lq.modify_inv lq.pop_inv lq.consume_inv
      find_node_def index_contents)

lemma destroy_repr:
  assumes "lvl_repr L ps"
  shows "pl_destroy L = Some (L\<lparr>pl_heap := Map.empty\<rparr>)"
proof -
  from assms have "dll (pl_heap L) None (pl_head L) ps (pl_tail L) None" "distinct ps" "dom (pl_heap L) = set ps"
    by (auto simp: lvl_repr_def)
  moreover from this(3) have "pl_heap L |` (- set ps) = Map.empty"
    by (auto simp: restrict_map_def fun_eq_iff)
  ultimately show ?thesis unfolding pl_destroy_def by (simp add: delete_chain_repr)
qed

lemma heap_op_price [simp]:
  "pl_price (touch p L) = pl_price L" "pl_price (write_node p f L) = pl_price L"
  "pl_price (delete_node p L) = pl_price L" "pl_price (snd (new_node i q L)) = pl_price L"
  by (simp_all add: heap_op_defs split: option.split)

lemma unlink_price [simp]: "pl_price (unlink p L) = pl_price L"
  by (simp add: unlink_def Let_def split: option.split)

lemma add_price: "pl_price (pl_add_order i q L) = pl_price L"
  by (simp add: pl_add_order_def Let_def new_node_def split: option.split)

lemma pop_price: "pl_price (pl_pop_front L) = pl_price L"
  by (simp add: pl_pop_front_def Let_def split: option.split)

lemma price_frame [frame_simps, simp]:
  "pl_price (new_level p) = p" "pl_price (pl_add_order i q L) = pl_price L"
  "pl_price (snd (pl_remove_order i L)) = pl_price L" "pl_price (snd (pl_modify_quantity i q L)) = pl_price L"
  "pl_price (pl_pop_front L) = pl_price L" "pl_price (pl_fill_front q L) = pl_price L"
  by (simp_all add: new_level_def add_price pop_price pl_remove_order_def pl_modify_quantity_def
      pl_fill_front_def Let_def split: option.split)

section \<open>The fixed-capacity level\<close>

text \<open>
  \<^verbatim>\<open>FixedPriceLevel<MaxOrders>\<close>: an array of slots that is only ever appended to. The array is
  not initialised by the constructor; its first contents are the argument \<open>junk\<close>.
\<close>

record slot =
  s_order_id :: order_id
  s_quantity :: quantity
  s_active :: bool

record fixed_level =
  fl_price :: price
  fl_total_quantity :: quantity
  fl_head :: nat
  fl_tail :: nat
  fl_count :: nat
  fl_orders :: "slot list"

definition fixed_new :: "price \<Rightarrow> slot list \<Rightarrow> fixed_level" where
  "fixed_new p junk =
     \<lparr>fl_price = p, fl_total_quantity = 0, fl_head = 0, fl_tail = 0, fl_count = 0, fl_orders = junk\<rparr>"

definition fixed_add_order :: "nat \<Rightarrow> order_id \<Rightarrow> quantity \<Rightarrow> fixed_level \<Rightarrow> bool \<times> fixed_level" where
  "fixed_add_order max_orders i q F =
     (if max_orders \<le> fl_count F then (False, F)
      else let idx = fl_tail F
           in (True, F\<lparr>fl_orders := (fl_orders F)[idx := \<lparr>s_order_id = i, s_quantity = q, s_active = True\<rparr>],
                       fl_tail := (fl_tail F + 1) mod max_orders,
                       fl_total_quantity := fl_total_quantity F + q,
                       fl_count := fl_count F + 1\<rparr>))"

definition fixed_full :: "nat \<Rightarrow> fixed_level \<Rightarrow> bool" where
  "fixed_full max_orders F \<longleftrightarrow> max_orders \<le> fl_count F"

definition fixed_empty :: "fixed_level \<Rightarrow> bool" where
  "fixed_empty F \<longleftrightarrow> fl_count F = 0"

text \<open>The slots in use hold exactly the orders accepted so far, in arrival order.\<close>

definition fixed_inv :: "nat \<Rightarrow> (order_id \<times> quantity) list \<Rightarrow> fixed_level \<Rightarrow> bool" where
  "fixed_inv max_orders xs F \<longleftrightarrow>
     length (fl_orders F) = max_orders \<and> fl_count F = length xs \<and> length xs \<le> max_orders \<and>
     fl_tail F = length xs mod max_orders \<and>
     take (length xs) (fl_orders F) = map (\<lambda>(i, q). \<lparr>s_order_id = i, s_quantity = q, s_active = True\<rparr>) xs \<and>
     fl_total_quantity F = sum_list (map snd xs)"

lemma fixed_new_inv: "length junk = max_orders \<Longrightarrow> fixed_inv max_orders [] (fixed_new p junk)"
  by (simp add: fixed_inv_def fixed_new_def)

lemma fixed_add_step:
  assumes "fixed_inv m xs F"
  shows "length xs < m \<Longrightarrow> fst (fixed_add_order m i q F) \<and> fixed_inv m (xs @ [(i, q)]) (snd (fixed_add_order m i q F))"
    and "\<not> length xs < m \<Longrightarrow> fixed_add_order m i q F = (False, F)"
  using assms
  by (auto simp: fixed_inv_def fixed_add_order_def Let_def take_Suc_conv_app_nth mod_Suc nth_list_update)

end
