(* ===== verification/Order_Book.thy ===== *)
theory Order_Book
  imports Price_Level
begin

text \<open>
  \<^verbatim>\<open>include/engine/order_book.hpp\<close> and \<^verbatim>\<open>src/engine/order_book.cpp\<close>: the state of one book
  and every operation on it, on top of the pointer-level price levels.

  The three callbacks are sinks outside the library: a registered one is a handle, and a call
  appends an event to \<open>b_out\<close>. \<open>b_clock\<close> is the sequence of readings \<^verbatim>\<open>Timing::now_ns()\<close>
  will return. \<^verbatim>\<open>std::map\<close> and \<^verbatim>\<open>std::unordered_map\<close> members are key-sorted association
  lists. The C++ code picks \<^verbatim>\<open>bid_levels_\<close> or \<^verbatim>\<open>ask_levels_\<close> by a conditional expression
  on the side; \<open>levels\<close>, \<open>set_levels\<close> and \<open>best_price\<close> are that selection.
\<close>

section \<open>State\<close>

type_synonym callback = nat

datatype event =
    TradeEvent callback trade
  | ExecEvent callback execution_report
  | BboEvent callback bbo_update

record book_config =
  c_max_price_levels :: nat
  c_max_orders_per_level :: nat
  c_enable_self_trade_prevention :: bool
  c_enable_post_only_rejection :: bool
  c_batch_callbacks :: bool
  c_trade_batch_size :: nat

definition default_config :: book_config where
  "default_config =
     \<lparr>c_max_price_levels = 10000, c_max_orders_per_level = 1000,
      c_enable_self_trade_prevention = False, c_enable_post_only_rejection = True,
      c_batch_callbacks = True, c_trade_batch_size = 100\<rparr>"

record order_result =
  r_success :: bool
  r_reject_reason :: reject_reason
  r_order_id :: order_id
  r_filled_qty :: quantity
  r_avg_fill_price :: "price option"

type_synonym level_map = "(price, price_level) omap"

record book =
  b_symbol :: symbol
  b_config :: book_config
  b_orders :: "(order_id, order) omap"
  b_bid_levels :: level_map
  b_ask_levels :: level_map
  b_best_bid :: price
  b_best_ask :: price
  b_next_seq_num :: seq_num
  b_on_trade :: "callback option"
  b_on_execution :: "callback option"
  b_on_bbo :: "callback option"
  b_last_bbo_bid :: price
  b_last_bbo_ask :: price
  b_pending_trades :: "trade list"
  b_out :: "event list"
  b_clock :: "nat \<Rightarrow> timestamp"

definition new_book :: "symbol \<Rightarrow> book_config \<Rightarrow> (nat \<Rightarrow> timestamp) \<Rightarrow> book" where
  "new_book sm cfg clock =
     \<lparr>b_symbol = sm, b_config = cfg, b_orders = [], b_bid_levels = [], b_ask_levels = [],
      b_best_bid = INVALID_PRICE, b_best_ask = INVALID_PRICE, b_next_seq_num = 1,
      b_on_trade = None, b_on_execution = None, b_on_bbo = None,
      b_last_bbo_bid = INVALID_PRICE, b_last_bbo_ask = INVALID_PRICE,
      b_pending_trades = [], b_out = [], b_clock = clock\<rparr>"

definition set_trade_callback :: "callback option \<Rightarrow> book \<Rightarrow> book" where
  "set_trade_callback cb b = b\<lparr>b_on_trade := cb\<rparr>"

definition set_execution_callback :: "callback option \<Rightarrow> book \<Rightarrow> book" where
  "set_execution_callback cb b = b\<lparr>b_on_execution := cb\<rparr>"

definition set_bbo_callback :: "callback option \<Rightarrow> book \<Rightarrow> book" where
  "set_bbo_callback cb b = b\<lparr>b_on_bbo := cb\<rparr>"

fun levels :: "side \<Rightarrow> book \<Rightarrow> level_map" where
  "levels Buy b = b_bid_levels b"
| "levels Sell b = b_ask_levels b"

fun set_levels :: "side \<Rightarrow> level_map \<Rightarrow> book \<Rightarrow> book" where
  "set_levels Buy m b = b\<lparr>b_bid_levels := m\<rparr>"
| "set_levels Sell m b = b\<lparr>b_ask_levels := m\<rparr>"

fun best_price :: "side \<Rightarrow> book \<Rightarrow> price" where
  "best_price Buy b = b_best_bid b"
| "best_price Sell b = b_best_ask b"

definition now_ns :: "book \<Rightarrow> timestamp \<times> book" where
  "now_ns b = (b_clock b 0, b\<lparr>b_clock := (\<lambda>n. b_clock b (Suc n))\<rparr>)"

definition best_bid :: "book \<Rightarrow> price" where
  "best_bid b = b_best_bid b"

definition best_ask :: "book \<Rightarrow> price" where
  "best_ask b = b_best_ask b"

section \<open>Events\<close>

definition flush_trades :: "book \<Rightarrow> book" where
  "flush_trades b =
     (if b_pending_trades b = [] then b
      else case b_on_trade b of
        None \<Rightarrow> b
      | Some cb \<Rightarrow>
          b\<lparr>b_out := b_out b @ map (TradeEvent cb) (b_pending_trades b), b_pending_trades := []\<rparr>)"

definition flush_pending :: "book \<Rightarrow> book" where
  "flush_pending b = flush_trades b"

definition emit_trade :: "order \<Rightarrow> order \<Rightarrow> price \<Rightarrow> quantity \<Rightarrow> side \<Rightarrow> book \<Rightarrow> book" where
  "emit_trade buy sell p q aggressor b =
     (case b_on_trade b of
        None \<Rightarrow> b
      | Some cb \<Rightarrow>
         (let seq = b_next_seq_num b;
              b1 = b\<lparr>b_next_seq_num := seq + 1\<rparr>;
              (ts, b2) = now_ns b1;
              t = \<lparr>t_seq_num = seq, t_symbol = b_symbol b2, t_price = p, t_quantity = q,
                   t_buy_order_id = o_id buy, t_sell_order_id = o_id sell, t_timestamp = ts,
                   t_aggressor_side = aggressor\<rparr>
          in if c_batch_callbacks (b_config b2) then
               (let b3 = b2\<lparr>b_pending_trades := b_pending_trades b2 @ [t]\<rparr>
                in if c_trade_batch_size (b_config b3) \<le> length (b_pending_trades b3)
                   then flush_trades b3 else b3)
             else b2\<lparr>b_out := b_out b2 @ [TradeEvent cb t]\<rparr>))"

definition quantity_at :: "side \<Rightarrow> price \<Rightarrow> book \<Rightarrow> quantity" where
  "quantity_at s p b = (case map_of (levels s b) p of Some L \<Rightarrow> pl_total_quantity L | None \<Rightarrow> 0)"

definition maybe_emit_bbo :: "book \<Rightarrow> book" where
  "maybe_emit_bbo b =
     (case b_on_bbo b of
        None \<Rightarrow> b
      | Some cb \<Rightarrow>
          if b_best_bid b \<noteq> b_last_bbo_bid b \<or> b_best_ask b \<noteq> b_last_bbo_ask b then
            (let (ts, b1) = now_ns b;
                 u = \<lparr>bbo_symbol = b_symbol b1, bbo_bid_price = b_best_bid b1,
                      bbo_bid_qty = quantity_at Buy (b_best_bid b1) b1,
                      bbo_ask_price = b_best_ask b1,
                      bbo_ask_qty = quantity_at Sell (b_best_ask b1) b1,
                      bbo_timestamp = ts\<rparr>
             in b1\<lparr>b_out := b_out b1 @ [BboEvent cb u],
                   b_last_bbo_bid := b_best_bid b1, b_last_bbo_ask := b_best_ask b1\<rparr>)
          else b)"

definition emit_execution_report :: "order \<Rightarrow> quantity \<Rightarrow> price option \<Rightarrow> book \<Rightarrow> book" where
  "emit_execution_report x filled avg b =
     (case b_on_execution b of
        None \<Rightarrow> b
      | Some cb \<Rightarrow>
         (let exec_id = b_next_seq_num b;
              b1 = b\<lparr>b_next_seq_num := exec_id + 1\<rparr>;
              (ts, b2) = now_ns b1;
              r = \<lparr>er_order_id = o_id x, er_exec_id = exec_id, er_symbol = o_symbol x,
                   er_side = o_side x, er_status = o_status x, er_price = o_price x,
                   er_order_qty = o_quantity x, er_filled_qty = filled,
                   er_leaves_qty = o_quantity x - filled, er_avg_price = avg,
                   er_timestamp = ts, er_last_price = avg, er_last_qty = filled\<rparr>
          in b2\<lparr>b_out := b_out b2 @ [ExecEvent cb r]\<rparr>))"

section \<open>Best prices\<close>

definition update_best_bid :: "book \<Rightarrow> book" where
  "update_best_bid b =
     (if b_bid_levels b = [] then b\<lparr>b_best_bid := INVALID_PRICE\<rparr>
      else b\<lparr>b_best_bid := fst (last (b_bid_levels b))\<rparr>)"

definition update_best_ask :: "book \<Rightarrow> book" where
  "update_best_ask b =
     (if b_ask_levels b = [] then b\<lparr>b_best_ask := INVALID_PRICE\<rparr>
      else b\<lparr>b_best_ask := fst (hd (b_ask_levels b))\<rparr>)"

fun update_best :: "side \<Rightarrow> book \<Rightarrow> book" where
  "update_best Buy b = update_best_bid b"
| "update_best Sell b = update_best_ask b"

section \<open>Matching\<close>

text \<open>
  Self-trade prevention compares ids: \<^verbatim>\<open>std::abs(static_cast<int64_t>(order.id - resting.id))\<close>.
  The absolute value of the least 64-bit integer is undefined.
\<close>

definition stp_blocks :: "order_id \<Rightarrow> order_id \<Rightarrow> bool option" where
  "stp_blocks a b = map_option (\<lambda>d. d < 100) (s64 \<bar>sint (a - b)\<bar>)"

text \<open>One fill: the body of the inner loop after its two early exits.\<close>

definition match_fill ::
  "price \<Rightarrow> order \<Rightarrow> order \<Rightarrow> price_level \<Rightarrow> book \<Rightarrow> book \<times> order \<times> price_level" where
  "match_fill best ord resting L b =
     (let rid = pl_front_order_id L;
          fill_qty = min (remaining ord) (remaining resting);
          ord1 = snd (fill fill_qty ord);
          resting1 = snd (fill fill_qty resting);
          b1 = b\<lparr>b_orders := om_put rid resting1 (b_orders b)\<rparr>;
          L1 = pl_fill_front fill_qty L;
          b2 = (if o_side ord1 = Buy then emit_trade ord1 resting1 best fill_qty Buy b1
                else emit_trade resting1 ord1 best fill_qty Sell b1);
          b3 = (if is_filled resting1 then b2\<lparr>b_orders := om_erase rid (b_orders b2)\<rparr> else b2)
      in (b3, ord1, L1))"

text \<open>
  The inner loop over the level at price \<open>best\<close>. The C++ code works on a reference into the
  map; here the level is a loop variable and \<open>match_order\<close> stores it back. The last component
  is \<^verbatim>\<open>stopped_for_self_trade\<close>. \<^const>\<open>None\<close> is a run that does not end or that meets the undefined
  absolute value.
\<close>

partial_function (option) match_level ::
  "price \<Rightarrow> order \<Rightarrow> price_level \<Rightarrow> book \<Rightarrow> (book \<times> order \<times> price_level \<times> bool) option" where
  "match_level best ord L b =
     (if is_filled ord \<or> pl_empty L then Some (b, ord, L, False)
      else (case map_of (b_orders b) (pl_front_order_id L) of
        None \<Rightarrow> match_level best ord (pl_pop_front L) b
      | Some resting \<Rightarrow>
         (case (if c_enable_self_trade_prevention (b_config b)
                then stp_blocks (o_id ord) (o_id resting) else Some False) of
            None \<Rightarrow> None
          | Some stop \<Rightarrow>
              if stop then Some (b, ord, L, True)
              else (case match_fill best ord resting L b of
                      (b1, ord1, L1) \<Rightarrow> match_level best ord1 L1 b1))))"

text \<open>After the inner loop: drop the level when it is empty and refresh the cached best price.\<close>

definition close_level :: "side \<Rightarrow> price \<Rightarrow> price_level \<Rightarrow> book \<Rightarrow> book" where
  "close_level s best L b =
     (if pl_empty L then update_best s (set_levels s (om_erase best (levels s b)) b)
      else set_levels s (om_put best L (levels s b)) b)"

partial_function (option) match_order :: "order \<Rightarrow> book \<Rightarrow> (book \<times> order) option" where
  "match_order ord b =
     (if is_filled ord then Some (b, ord)
      else
        (let s = opposite (o_side ord); best = best_price s b in
         if best = INVALID_PRICE \<or> best = 0 then Some (b, ord)
         else if \<not> (o_type ord = Market \<or> would_cross ord best) then Some (b, ord)
         else (case map_of (levels s b) best of
             None \<Rightarrow> match_order ord (update_best s b)
           | Some L \<Rightarrow>
               if pl_empty L then match_order ord (update_best s b)
               else (case match_level best ord L b of
                   None \<Rightarrow> None
                 | Some (b1, ord1, L1, stopped) \<Rightarrow>
                     (let b2 = close_level s best L1 b1
                      in if stopped then Some (b2, ord1) else match_order ord1 b2)))))"

declare match_level.simps [code] match_order.simps [code]

section \<open>Resting orders\<close>

definition insert_resting_order :: "order \<Rightarrow> book \<Rightarrow> book" where
  "insert_resting_order ord b =
     (let s = o_side ord;
          L = (case map_of (levels s b) (o_price ord) of Some L \<Rightarrow> L | None \<Rightarrow> new_level (o_price ord));
          L1 = pl_add_order (o_id ord) (remaining ord) L;
          b1 = set_levels s (om_put (o_price ord) L1 (levels s b)) b;
          b2 = b1\<lparr>b_orders := om_put (o_id ord) ord (b_orders b1)\<rparr>;
          b3 = (if o_side ord = Buy then
                  (if b_best_bid b2 = INVALID_PRICE \<or> b_best_bid b2 < o_price ord
                   then b2\<lparr>b_best_bid := o_price ord\<rparr> else b2)
                else (if o_price ord < b_best_ask b2
                      then b2\<lparr>b_best_ask := o_price ord\<rparr> else b2))
      in maybe_emit_bbo b3)"

definition remove_order_from_level :: "order_id \<Rightarrow> side \<Rightarrow> price \<Rightarrow> book \<Rightarrow> book" where
  "remove_order_from_level i s p b =
     (case map_of (levels s b) p of
        None \<Rightarrow> b
      | Some L \<Rightarrow>
         (let L1 = snd (pl_remove_order i L)
          in if pl_empty L1 then set_levels s (om_erase p (levels s b)) b
             else set_levels s (om_put p L1 (levels s b)) b))"

section \<open>Adding an order\<close>

fun fok_available :: "order \<Rightarrow> level_map \<Rightarrow> quantity \<Rightarrow> quantity" where
  "fok_available ord [] available = available"
| "fok_available ord ((p, L) # ls) available =
     (let available1 = (if o_type ord = Market \<or> would_cross ord p
                        then available + pl_total_quantity L else available)
      in if o_quantity ord \<le> available1 then available1 else fok_available ord ls available1)"

definition is_fok :: "order \<Rightarrow> bool" where
  "is_fok x \<longleftrightarrow> o_tif x = TifFillOrKill \<or> o_type x = FillOrKill"

definition is_ioc :: "order \<Rightarrow> bool" where
  "is_ioc x \<longleftrightarrow> o_tif x = TifImmediateOrCancel \<or> o_type x = ImmediateOrCancel"

definition post_only_would_cross :: "order \<Rightarrow> book \<Rightarrow> bool" where
  "post_only_would_cross x b \<longleftrightarrow>
     (if o_side x = Buy \<and> b_best_ask b \<noteq> INVALID_PRICE \<and> b_best_ask b \<le> o_price x then True
      else o_side x = Sell \<and> b_best_bid b \<noteq> INVALID_PRICE \<and> o_price x \<le> b_best_bid b)"

text \<open>
  The field \<^verbatim>\<open>avg_fill_price\<close> is the limit price times the filled quantity, divided by it again. The
  product may leave the signed 64-bit range, as it does for a market buy of more than one unit,
  whose price is the largest number: undefined in C++. The model marks it by \<^const>\<open>None\<close> in the
  field and continues, like a build in which the product wraps; nothing in the program reads the
  field. The lemma \<open>avg_fill_price_cases\<close> has the exact condition.
\<close>

definition avg_fill_price :: "order \<Rightarrow> price option" where
  "avg_fill_price x =
     (if 0 < o_filled_qty x
      then map_option (\<lambda>m. trunc_div m (uint (o_filled_qty x))) (s64_mul (o_price x) (uint (o_filled_qty x)))
      else Some 0)"

text \<open>A value-initialised result with the order's id filled in.\<close>

definition init_result :: "order_id \<Rightarrow> order_result" where
  "init_result i =
     \<lparr>r_success = False, r_reject_reason = RejNone, r_order_id = i, r_filled_qty = 0,
      r_avg_fill_price = Some 0\<rparr>"

definition reject :: "order_id \<Rightarrow> reject_reason \<Rightarrow> order_result" where
  "reject i why = (init_result i)\<lparr>r_reject_reason := why\<rparr>"

text \<open>What \<^verbatim>\<open>add_order\<close> does after \<^verbatim>\<open>match_order\<close> has returned.\<close>

definition finish_add :: "order \<Rightarrow> book \<Rightarrow> book \<times> order_result" where
  "finish_add ord b =
     (let avg = avg_fill_price ord;
          result = (init_result (o_id ord))\<lparr>r_filled_qty := o_filled_qty ord, r_avg_fill_price := avg\<rparr>
      in if \<not> is_ioc ord \<and> is_fok ord \<and> \<not> is_filled ord
         then (b, result\<lparr>r_success := False, r_reject_reason := InvalidQuantity, r_filled_qty := 0\<rparr>)
         else
           (let b1 = (if is_ioc ord then
                        (if \<not> is_filled ord then emit_execution_report ord (o_filled_qty ord) avg b else b)
                      else if is_fok ord then b
                      else if \<not> is_filled ord \<and> o_type ord = Limit then insert_resting_order ord b
                      else if \<not> is_filled ord \<and> o_type ord = PostOnly then insert_resting_order ord b
                      else b);
                b2 = (if 0 < o_filled_qty ord then emit_execution_report ord (o_filled_qty ord) avg b1 else b1);
                b3 = (if c_batch_callbacks (b_config b2) then flush_trades b2 else b2)
            in (b3, result\<lparr>r_success := True\<rparr>)))"

definition market_price :: "order \<Rightarrow> order" where
  "market_price ord =
     (if o_type ord = Market
      then (if o_side ord = Buy then ord\<lparr>o_price := INVALID_PRICE\<rparr> else ord\<lparr>o_price := 0\<rparr>)
      else ord)"

definition add_order :: "order \<Rightarrow> book \<Rightarrow> (book \<times> order_result) option" where
  "add_order ord0 b =
     (if o_quantity ord0 = 0 then Some (b, reject (o_id ord0) InvalidQuantity)
      else if o_type ord0 = Limit \<and> o_price ord0 \<le> 0 then Some (b, reject (o_id ord0) InvalidPrice)
      else
        (let ord = market_price ord0 in
         if map_of (b_orders b) (o_id ord) \<noteq> None then Some (b, reject (o_id ord) DuplicateOrderId)
         else if o_type ord = PostOnly \<and> c_enable_post_only_rejection (b_config b) \<and>
                 post_only_would_cross ord b
              then Some (emit_execution_report ord 0 (Some 0) b, reject (o_id ord) WouldCross)
         else if is_fok ord \<and>
                 fok_available ord (levels (opposite (o_side ord)) b) 0 < o_quantity ord
              then Some (b, reject (o_id ord) InvalidQuantity)
         else map_option (\<lambda>(b1, ord1). finish_add ord1 b1) (match_order ord b)))"

section \<open>Cancel and replace\<close>

text \<open>
  \<^verbatim>\<open>cancel_order\<close> reads \<^verbatim>\<open>order.side\<close> through a reference to the map element it has just
  erased. The value of that read is not defined; it is the argument \<open>stale\<close> of \<open>cancel_order_with\<close>
  and, as a replace may cancel, of \<open>replace_order_with\<close>. \<open>cancel_order\<close> and \<open>replace_order\<close> are the
  runs in which the freed memory still holds the side, as it does when the allocator leaves the
  bytes of a freed element alone. \<open>Book_Safety\<close> has what holds for every value of the read,
  \<open>cancel_stale_side\<close> what a wrong one does to the cached prices.
\<close>

definition cancel_order_with :: "(order \<Rightarrow> side) \<Rightarrow> order_id \<Rightarrow> book \<Rightarrow> book \<times> order_result" where
  "cancel_order_with stale i b =
     (case map_of (b_orders b) i of
        None \<Rightarrow> (b, reject i OrderNotFound)
      | Some x \<Rightarrow>
         (let b1 = remove_order_from_level i (o_side x) (o_price x) b;
              b2 = b1\<lparr>b_orders := om_put i (cancel x) (b_orders b1)\<rparr>;
              b3 = b2\<lparr>b_orders := om_erase i (b_orders b2)\<rparr>;
              b4 = (if stale x = Buy then update_best_bid b3 else update_best_ask b3)
          in (maybe_emit_bbo b4, (init_result i)\<lparr>r_success := True\<rparr>)))"

definition cancel_order :: "order_id \<Rightarrow> book \<Rightarrow> book \<times> order_result" where
  "cancel_order i b = cancel_order_with o_side i b"

text \<open>
  \<^verbatim>\<open>replace_order\<close> starts from an uninitialised result; \<open>junk\<close> is what that memory holds.
\<close>

definition replace_order_with ::
  "(order \<Rightarrow> side) \<Rightarrow> order_result \<Rightarrow> order_id \<Rightarrow> price \<Rightarrow> quantity \<Rightarrow> book \<Rightarrow> (book \<times> order_result) option" where
  "replace_order_with stale junk i new_price new_qty b =
     (let result = junk\<lparr>r_success := False\<rparr> in
      case map_of (b_orders b) i of
        None \<Rightarrow> Some (b, result)
      | Some x \<Rightarrow>
         (let slow =
               (let (b1, cr) = cancel_order_with stale i b
                in if \<not> r_success cr then Some (b1, cr)
                   else add_order (mk_order i (o_symbol x) (o_side x) new_price new_qty (o_type x) (o_tif x)) b1)
          in if o_price x = new_price then
               (case map_of (levels (o_side x) b) (o_price x) of
                  Some L \<Rightarrow>
                   (let b1 = set_levels (o_side x)
                               (om_put (o_price x) (snd (pl_modify_quantity i new_qty L)) (levels (o_side x) b)) b;
                        b2 = b1\<lparr>b_orders := om_put i (x\<lparr>o_quantity := new_qty\<rparr>) (b_orders b1)\<rparr>
                    in Some (maybe_emit_bbo b2, result\<lparr>r_success := True\<rparr>))
                | None \<Rightarrow> slow)
             else slow))"

definition replace_order ::
  "order_result \<Rightarrow> order_id \<Rightarrow> price \<Rightarrow> quantity \<Rightarrow> book \<Rightarrow> (book \<times> order_result) option" where
  "replace_order junk i new_price new_qty b = replace_order_with o_side junk i new_price new_qty b"

lemmas replace_order_unfold = replace_order_def replace_order_with_def [of o_side, folded cancel_order_def]

section \<open>Queries\<close>

definition spread :: "book \<Rightarrow> price option" where
  "spread b =
     (if b_best_ask b = INVALID_PRICE \<or> b_best_bid b = INVALID_PRICE then Some INVALID_PRICE
      else s64_sub (b_best_ask b) (b_best_bid b))"

definition mid_price :: "book \<Rightarrow> price option" where
  "mid_price b =
     (if b_best_ask b = INVALID_PRICE \<or> b_best_bid b = INVALID_PRICE then Some 0
      else map_option (\<lambda>m. trunc_div m 2) (s64_add (b_best_bid b) (b_best_ask b)))"

definition order_count :: "book \<Rightarrow> nat" where
  "order_count b = length (b_orders b)"

definition level_count :: "side \<Rightarrow> book \<Rightarrow> nat" where
  "level_count s b = length (levels s b)"

definition level_update :: "price \<times> price_level \<Rightarrow> price_level_update" where
  "level_update e =
     \<lparr>u_price = fst e, u_quantity = pl_total_quantity (snd e),
      u_order_count = of_nat (pl_order_count (snd e))\<rparr>"

definition get_bids :: "nat \<Rightarrow> book \<Rightarrow> price_level_update list" where
  "get_bids depth b =
     (let ls = sort_key (\<lambda>e. - fst e) (filter (\<lambda>e. \<not> pl_empty (snd e)) (b_bid_levels b))
      in map level_update (take (min depth (length ls)) ls))"

definition get_asks :: "nat \<Rightarrow> book \<Rightarrow> price_level_update list" where
  "get_asks depth b =
     (let ls = sort_key fst (filter (\<lambda>e. \<not> pl_empty (snd e)) (b_ask_levels b))
      in map level_update (take (min depth (length ls)) ls))"

end
