(* ===== verification/Book_Invariant.thy ===== *)
theory Book_Invariant
  imports Order_Book
begin

text \<open>
  The abstract view of an order book and its invariant. \<open>entries s b\<close> lists the resting orders of
  side \<open>s\<close> in price-time priority; \<open>book_inv\<close> says how the order table, the level maps, the
  intrusive queues and the cached best prices of \<^verbatim>\<open>src/engine/order_book.cpp\<close> agree;
  \<open>trade_log\<close> is the sequence of trades reported so far, delivered or still in the batch.
\<close>

section \<open>Frames\<close>

lemma levels_other [simp]: "levels s (set_levels s m b) = m" "s \<noteq> s' \<Longrightarrow> levels s (set_levels s' m b) = levels s b"
  by (cases s; cases s'; simp)+

lemma set_levels_frame [frame_simps, simp]:
  "b_orders (set_levels s m b) = b_orders b" "best_price s' (set_levels s m b) = best_price s' b"
  "b_config (set_levels s m b) = b_config b" "b_symbol (set_levels s m b) = b_symbol b"
  "b_next_seq_num (set_levels s m b) = b_next_seq_num b"
  "b_on_trade (set_levels s m b) = b_on_trade b" "b_on_execution (set_levels s m b) = b_on_execution b"
  "b_on_bbo (set_levels s m b) = b_on_bbo b" "b_pending_trades (set_levels s m b) = b_pending_trades b"
  "b_out (set_levels s m b) = b_out b" "b_clock (set_levels s m b) = b_clock b"
  "b_last_bbo_bid (set_levels s m b) = b_last_bbo_bid b" "b_last_bbo_ask (set_levels s m b) = b_last_bbo_ask b"
  by (cases s; cases s'; simp)+

lemma set_levels_set_levels [simp]: "set_levels s m (set_levels s m' b) = set_levels s m b"
  by (cases s) simp_all

lemma set_levels_orders: "set_levels s m (b\<lparr>b_orders := x\<rparr>) = (set_levels s m b)\<lparr>b_orders := x\<rparr>"
  by (cases s) simp_all

lemma orders_frame [frame_simps, simp]:
  "levels s (b\<lparr>b_orders := x\<rparr>) = levels s b" "best_price s (b\<lparr>b_orders := x\<rparr>) = best_price s b"
  by (cases s; simp)+

text \<open>Events never touch orders, levels, cached prices or the configuration.\<close>

definition same_book :: "book \<Rightarrow> book \<Rightarrow> bool" where
  "same_book b b' \<longleftrightarrow>
     b_symbol b' = b_symbol b \<and> b_config b' = b_config b \<and> b_orders b' = b_orders b \<and>
     b_bid_levels b' = b_bid_levels b \<and> b_ask_levels b' = b_ask_levels b \<and>
     b_best_bid b' = b_best_bid b \<and> b_best_ask b' = b_best_ask b \<and>
     b_on_trade b' = b_on_trade b \<and> b_on_execution b' = b_on_execution b \<and> b_on_bbo b' = b_on_bbo b"

lemma same_book_refl [simp]: "same_book b b"
  by (simp add: same_book_def)

lemma same_book_trans: "same_book a b \<Longrightarrow> same_book b c \<Longrightarrow> same_book a c"
  by (simp add: same_book_def)

lemma same_flush: "same_book b (flush_trades b)"
  by (simp add: same_book_def flush_trades_def split: option.split)

lemma same_emit_trade: "same_book b (emit_trade x y p q s b)"
  by (simp add: same_book_def emit_trade_def now_ns_def flush_trades_def Let_def split: option.split)

lemma same_emit_report: "same_book b (emit_execution_report x q avg b)"
  by (simp add: same_book_def emit_execution_report_def now_ns_def Let_def split: option.split)

lemma same_emit_bbo: "same_book b (maybe_emit_bbo b)"
  by (simp add: same_book_def maybe_emit_bbo_def now_ns_def Let_def split: option.split)

lemma same_bookD:
  assumes "same_book b b'"
  shows "b_orders b' = b_orders b" "levels s b' = levels s b" "best_price s b' = best_price s b"
    "b_config b' = b_config b" "b_on_trade b' = b_on_trade b" "b_symbol b' = b_symbol b"
    "b_on_execution b' = b_on_execution b" "b_on_bbo b' = b_on_bbo b"
  using assms by (cases s; simp add: same_book_def)+

lemmas event_frame [frame_simps, simp] =
  same_bookD [OF same_flush] same_bookD [OF same_emit_trade] same_bookD [OF same_emit_report]
  same_bookD [OF same_emit_bbo]

lemma update_best_frame [frame_simps, simp]:
  "b_orders (update_best s b) = b_orders b" "levels s' (update_best s b) = levels s' b"
  "b_config (update_best s b) = b_config b" "b_symbol (update_best s b) = b_symbol b"
  "b_next_seq_num (update_best s b) = b_next_seq_num b"
  "b_on_trade (update_best s b) = b_on_trade b" "b_on_execution (update_best s b) = b_on_execution b"
  "b_on_bbo (update_best s b) = b_on_bbo b" "b_pending_trades (update_best s b) = b_pending_trades b"
  "b_out (update_best s b) = b_out b" "s \<noteq> s' \<Longrightarrow> best_price s' (update_best s b) = best_price s' b"
  by (cases s; cases s'; simp add: update_best_bid_def update_best_ask_def)+

section \<open>The abstract book\<close>

definition prio :: "side \<Rightarrow> 'a list \<Rightarrow> 'a list" where
  "prio s xs = (case s of Buy \<Rightarrow> rev xs | Sell \<Rightarrow> xs)"

type_synonym entry = "price \<times> order_id \<times> quantity"

definition level_entries :: "price \<times> price_level \<Rightarrow> entry list" where
  "level_entries e = map (\<lambda>(i, q). (fst e, i, q)) (contents (snd e))"

definition entries :: "side \<Rightarrow> book \<Rightarrow> entry list" where
  "entries s b = concat (map level_entries (prio s (levels s b)))"

abbreviation entry_id :: "entry \<Rightarrow> order_id" where
  "entry_id e \<equiv> fst (snd e)"

definition top_price :: "side \<Rightarrow> book \<Rightarrow> price" where
  "top_price s b = (case prio s (levels s b) of [] \<Rightarrow> INVALID_PRICE | e # es \<Rightarrow> fst e)"

definition levels_ok :: "level_map \<Rightarrow> bool" where
  "levels_ok m \<longleftrightarrow> om_sorted m \<and> (\<forall>(p, L) \<in> set m. lvl_inv L \<and> pl_price L = p \<and> p \<noteq> INVALID_PRICE)"

definition orders_ok :: "(order_id, order) omap \<Rightarrow> bool" where
  "orders_ok m \<longleftrightarrow> om_sorted m \<and> (\<forall>i x. map_of m i = Some x \<longrightarrow> o_id x = i \<and> o_filled_qty x < o_quantity x)"

definition linked :: "side \<Rightarrow> book \<Rightarrow> bool" where
  "linked s b \<longleftrightarrow> distinct (map entry_id (entries s b)) \<and>
     (\<forall>p i q. (p, i, q) \<in> set (entries s b) \<longleftrightarrow>
        (\<exists>x. map_of (b_orders b) i = Some x \<and> o_side x = s \<and> o_price x = p \<and> remaining x = q))"

definition core_inv :: "book \<Rightarrow> bool" where
  "core_inv b \<longleftrightarrow> levels_ok (levels Buy b) \<and> levels_ok (levels Sell b) \<and> orders_ok (b_orders b) \<and>
     linked Buy b \<and> linked Sell b \<and> (\<not> c_batch_callbacks (b_config b) \<longrightarrow> b_pending_trades b = [])"

definition no_empty :: "level_map \<Rightarrow> bool" where
  "no_empty m \<longleftrightarrow> (\<forall>e \<in> set m. contents (snd e) \<noteq> [])"

definition book_inv :: "book \<Rightarrow> bool" where
  "book_inv b \<longleftrightarrow> core_inv b \<and> no_empty (levels Buy b) \<and> no_empty (levels Sell b) \<and>
     best_price Buy b = top_price Buy b \<and> best_price Sell b = top_price Sell b"

lemma core_inv_side: "core_inv b \<longleftrightarrow> (\<forall>s. levels_ok (levels s b) \<and> linked s b) \<and> orders_ok (b_orders b) \<and>
    (\<not> c_batch_callbacks (b_config b) \<longrightarrow> b_pending_trades b = [])"
  unfolding core_inv_def by (metis side.exhaust)

lemma book_inv_side: "book_inv b \<longleftrightarrow> core_inv b \<and> (\<forall>s. no_empty (levels s b) \<and> best_price s b = top_price s b)"
  unfolding book_inv_def by (metis side.exhaust)

lemma prio_simps [simp]: "prio Buy xs = rev xs" "prio Sell xs = xs" "set (prio s xs) = set xs"
  "prio s xs = [] \<longleftrightarrow> xs = []" "length (prio s xs) = length xs"
  by (cases s; simp add: prio_def)+

lemma entries_set: "(p, i, q) \<in> set (entries s b) \<longleftrightarrow> (\<exists>L. (p, L) \<in> set (levels s b) \<and> (i, q) \<in> set (contents L))"
  by (force simp: entries_def level_entries_def)

lemma update_best_top: "best_price s (update_best s b) = top_price s (update_best s b)"
  by (cases s) (auto simp: update_best_bid_def update_best_ask_def top_price_def prio_def split: list.split
      simp: hd_rev [symmetric] hd_conv_nth)

lemma prio_top:
  assumes "om_sorted m" "prio s m = (p, L) # rest"
  shows "map_of m p = Some L" "prio s (om_erase p m) = rest" "prio s (om_put p L' m) = (p, L') # rest"
proof -
  have 1: "m = (case s of Buy \<Rightarrow> rev rest @ [(p, L)] | Sell \<Rightarrow> (p, L) # rest)"
    using assms(2) by (cases s) (auto simp: prio_def rev_eq_Cons_iff split: side.splits)
  have "(p, L) \<in> set (prio s m)" using assms(2) by simp
  then show "map_of m p = Some L" using assms(1) by (simp add: om_find_iff)
  show "prio s (om_erase p m) = rest"
    using assms(1) 1 om_erase_append [of "rev rest" p L "[]"] om_erase_append [of "[]" p L rest]
    by (cases s) auto
  show "prio s (om_put p L' m) = (p, L') # rest"
    using assms(1) 1 om_put_append [of "rev rest" p L "[]"] by (cases s) auto
qed

section \<open>The trade log\<close>

fun trades_of :: "event list \<Rightarrow> trade list" where
  "trades_of [] = []"
| "trades_of (TradeEvent cb t # es) = t # trades_of es"
| "trades_of (e # es) = trades_of es"

definition trade_log :: "book \<Rightarrow> trade list" where
  "trade_log b = trades_of (b_out b) @ b_pending_trades b"

lemma trades_of_append [simp]: "trades_of (xs @ ys) = trades_of xs @ trades_of ys"
  by (induction xs rule: trades_of.induct) auto

lemma trades_of_map [simp]: "trades_of (map (TradeEvent cb) ts) = ts"
  by (induction ts) auto

lemma trade_log_flush [simp]: "trade_log (flush_trades b) = trade_log b"
  by (simp add: trade_log_def flush_trades_def split: option.split)

lemma trade_log_report [simp]: "trade_log (emit_execution_report x q avg b) = trade_log b"
  by (simp add: trade_log_def emit_execution_report_def now_ns_def Let_def split: option.split)

lemma trade_log_bbo [simp]: "trade_log (maybe_emit_bbo b) = trade_log b"
  by (simp add: trade_log_def maybe_emit_bbo_def now_ns_def Let_def split: option.split)

definition batch_ok :: "book \<Rightarrow> bool" where
  "batch_ok b \<longleftrightarrow> (\<not> c_batch_callbacks (b_config b) \<longrightarrow> b_pending_trades b = [])"

lemma batch_ok_events [simp]:
  "batch_ok b \<Longrightarrow> batch_ok (flush_trades b)" "batch_ok b \<Longrightarrow> batch_ok (emit_execution_report x q avg b)"
  "batch_ok b \<Longrightarrow> batch_ok (maybe_emit_bbo b)" "batch_ok b \<Longrightarrow> batch_ok (emit_trade x y p q s b)"
  by (simp_all add: batch_ok_def flush_trades_def emit_execution_report_def maybe_emit_bbo_def emit_trade_def now_ns_def
      Let_def split: option.split)

type_synonym trade_view = "price \<times> quantity \<times> order_id \<times> order_id \<times> side"

definition view :: "trade \<Rightarrow> trade_view" where
  "view t = (t_price t, t_quantity t, t_buy_order_id t, t_sell_order_id t, t_aggressor_side t)"

definition fill_view :: "order \<Rightarrow> entry \<Rightarrow> trade_view" where
  "fill_view ord e = (case e of (p, i, q) \<Rightarrow>
     (if o_side ord = Buy then (p, q, o_id ord, i, Buy) else (p, q, i, o_id ord, Sell)))"

lemma trade_log_emit:
  assumes "batch_ok b"
  shows "map view (trade_log (emit_trade x y p q s b)) =
    map view (trade_log b) @ (if b_on_trade b = None then [] else [(p, q, o_id x, o_id y, s)])"
  using assms
  by (auto simp: emit_trade_def trade_log_def now_ns_def flush_trades_def Let_def view_def batch_ok_def split: option.split)

end
