(* ===== verification/Matching.thy ===== *)
theory Matching
  imports Book_Invariant
begin

text \<open>
  \<^verbatim>\<open>OrderBook::match_order\<close> against a specification on lists: \<open>sweep\<close> walks the entries of the
  opposite side in priority order and takes what it can. The lemma \<open>match_order_spec\<close> says that
  the two nested loops over level maps, linked queues, order table and trade batch return, keep
  the invariant and compute exactly that sweep.
\<close>

section \<open>The matching specification\<close>

fun sweep :: "(order_id \<Rightarrow> bool) \<Rightarrow> (price \<Rightarrow> bool) \<Rightarrow> quantity \<Rightarrow> entry list \<Rightarrow> entry list \<times> entry list \<times> quantity" where
  "sweep stp ok q [] = ([], [], q)"
| "sweep stp ok q ((p, i, r) # es) =
     (if q = 0 \<or> \<not> ok p \<or> stp i then ([], (p, i, r) # es, q)
      else if r \<le> q then (case sweep stp ok (q - r) es of (fs, es', q') \<Rightarrow> ((p, i, r) # fs, es', q'))
      else ([(p, i, q)], (p, i, r - q) # es, 0))"

definition stp_hit :: "book \<Rightarrow> order \<Rightarrow> order_id \<Rightarrow> bool" where
  "stp_hit b ord i \<longleftrightarrow> c_enable_self_trade_prevention (b_config b) \<and> stp_blocks (o_id ord) i = Some True"

definition stp_defined :: "book \<Rightarrow> order \<Rightarrow> bool" where
  "stp_defined b ord \<longleftrightarrow> (c_enable_self_trade_prevention (b_config b) \<longrightarrow>
     (\<forall>e \<in> set (entries (opposite (o_side ord)) b). stp_blocks (o_id ord) (entry_id e) \<noteq> None))"

definition crosses :: "order \<Rightarrow> price \<Rightarrow> bool" where
  "crosses ord p \<longleftrightarrow> p \<noteq> INVALID_PRICE \<and> p \<noteq> 0 \<and> (o_type ord = Market \<or> would_cross ord p)"

lemma sweep_level:
  assumes "\<forall>e \<in> set xs. fst e = p" "ok p"
  shows "sweep stp ok q (xs @ ys) =
    (case sweep stp (\<lambda>_. True) q xs of (fs, xs', q') \<Rightarrow>
       if xs' = [] then (case sweep stp ok q' ys of (gs, ys', q'') \<Rightarrow> (fs @ gs, ys', q''))
       else (fs, xs' @ ys, q'))"
  using assms(1)
proof (induction xs arbitrary: q)
  case (Cons e xs)
  obtain i r where "e = (p, i, r)" using Cons.prems by (cases e) auto
  with Cons assms(2) show ?case by (auto split: prod.splits)
qed (auto split: prod.splits)

lemma sweep_zero [simp]: "sweep stp ok 0 es = ([], es, 0)"
  by (cases es) auto

section \<open>One fill\<close>

definition put_top :: "side \<Rightarrow> price \<Rightarrow> price_level \<Rightarrow> book \<Rightarrow> book" where
  "put_top s p L b = set_levels s (om_put p L (levels s b)) b"

lemma linkedD:
  "linked s b \<Longrightarrow> (p, i, q) \<in> set (entries s b) \<Longrightarrow>
     \<exists>x. map_of (b_orders b) i = Some x \<and> o_side x = s \<and> o_price x = p \<and> remaining x = q"
  by (auto simp: linked_def)

lemma linked_drop:
  assumes "linked s b" "entries s b = (p, i, r) # rest" "entries s b' = rest"
    "map_of (b_orders b') = (map_of (b_orders b))(i := None)"
  shows "linked s b'"
proof -
  from assms(1,2) have d: "i \<notin> entry_id ` set rest" "distinct (map entry_id rest)" by (auto simp: linked_def)
  from linkedD [OF assms(1), of p i r] assms(2) obtain x where
    x: "map_of (b_orders b) i = Some x" "o_side x = s" "o_price x = p" "remaining x = r" by auto
  have "(p', j, q) \<in> set rest \<longleftrightarrow>
      (\<exists>x. map_of (b_orders b') j = Some x \<and> o_side x = s \<and> o_price x = p' \<and> remaining x = q)" for p' j q
  proof (cases "j = i")
    case True
    then show ?thesis using d assms(4) by (force simp: image_iff)
  next
    case False
    then have "(p', j, q) \<in> set rest \<longleftrightarrow> (p', j, q) \<in> set (entries s b)" using assms(2) by auto
    then show ?thesis using False assms(1,4) by (simp add: linked_def)
  qed
  with d show ?thesis by (simp add: linked_def assms(3))
qed

lemma linked_shrink:
  assumes "linked s b" "entries s b = (p, i, r) # rest" "entries s b' = (p, i, r') # rest"
    "map_of (b_orders b') = (map_of (b_orders b))(i \<mapsto> x')" "o_side x' = s" "o_price x' = p" "remaining x' = r'"
  shows "linked s b'"
proof -
  from assms(1,2) have d: "i \<notin> entry_id ` set rest" "distinct (map entry_id rest)" by (auto simp: linked_def)
  have "(p', j, q) \<in> set ((p, i, r') # rest) \<longleftrightarrow>
      (\<exists>x. map_of (b_orders b') j = Some x \<and> o_side x = s \<and> o_price x = p' \<and> remaining x = q)" for p' j q
  proof (cases "j = i")
    case True
    then show ?thesis using d assms(4-) by (force simp: image_iff)
  next
    case False
    then have "(p', j, q) \<in> set ((p, i, r') # rest) \<longleftrightarrow> (p', j, q) \<in> set (entries s b)" using assms(2) by auto
    then show ?thesis using False assms(1,4) by (simp add: linked_def)
  qed
  with d show ?thesis by (simp add: linked_def assms(3))
qed

text \<open>The other side of the book does not see a change to one order of this side.\<close>

lemma linked_other:
  assumes "linked s b" "entries s b' = entries s b"
    "\<And>j. j \<noteq> i \<Longrightarrow> map_of (b_orders b') j = map_of (b_orders b) j"
    "\<And>x. map_of (b_orders b) i = Some x \<Longrightarrow> o_side x \<noteq> s"
    "\<And>x. map_of (b_orders b') i = Some x \<Longrightarrow> o_side x \<noteq> s"
  shows "linked s b'"
proof -
  have "(\<exists>x. map_of (b_orders b') j = Some x \<and> o_side x = s \<and> o_price x = p \<and> remaining x = q) \<longleftrightarrow>
     (\<exists>x. map_of (b_orders b) j = Some x \<and> o_side x = s \<and> o_price x = p \<and> remaining x = q)" for p j q
    using assms(3-5) by (cases "j = i") auto
  with assms(1,2) show ?thesis by (simp add: linked_def)
qed

lemma entries_put_top:
  assumes "om_sorted (levels s b)" "prio s (levels s b) = (p, L0) # rest"
  shows "entries s (put_top s p L b) = level_entries (p, L) @ concat (map level_entries rest)"
  using prio_top(3) [OF assms] by (simp add: entries_def put_top_def)

lemma entries_other: "s \<noteq> s' \<Longrightarrow> entries s (put_top s' p L b) = entries s b"
  by (simp add: entries_def put_top_def)

lemma levels_ok_put:
  assumes "levels_ok m" "lvl_inv L" "pl_price L = p" "p \<noteq> INVALID_PRICE"
  shows "levels_ok (om_put p L m)"
proof -
  have "x = (p, L) \<or> x \<in> set m" if "x \<in> set (om_put p L m)" for x
    using that by (induction m) (auto split: if_splits)
  with assms show ?thesis by (fastforce simp: levels_ok_def)
qed

lemma opposite_neq [simp]: "opposite s \<noteq> s" "s \<noteq> opposite s"
  by (cases s; simp)+

definition top_ctx :: "side \<Rightarrow> price \<Rightarrow> price_level \<Rightarrow> book \<Rightarrow> (price \<times> price_level) list \<Rightarrow> bool" where
  "top_ctx s p L b rest \<longleftrightarrow> core_inv (put_top s p L b) \<and> levels_ok (levels s b) \<and> lvl_inv L \<and> pl_price L = p \<and>
     (\<exists>L0. prio s (levels s b) = (p, L0) # rest)"

lemma match_fill_step:
  assumes ctx: "top_ctx s best L b rest" and s: "s = opposite (o_side ord)"
    and c: "contents L = (i, r) # es" and f: "o_filled_qty ord \<le> o_quantity ord"
    and x: "map_of (b_orders b) i = Some x" "remaining x = r" "o_filled_qty x < o_quantity x" "o_side x = s" "o_price x = best" "o_id x = i"
    and m: "match_fill best ord x L b = (b1, ord1, L1)"
  shows "top_ctx s best L1 b1 rest"
    and "contents L1 = (if r \<le> remaining ord then es else (i, r - remaining ord) # es)"
    and "ord1 = snd (fill (min (remaining ord) r) ord)"
    and "levels s' b1 = levels s' b" "best_price s' b1 = best_price s' b" "b_config b1 = b_config b"
      "b_on_trade b1 = b_on_trade b" "b_symbol b1 = b_symbol b" "b_on_execution b1 = b_on_execution b" "b_on_bbo b1 = b_on_bbo b"
    and "\<And>j. j \<noteq> i \<Longrightarrow> map_of (b_orders b1) j = map_of (b_orders b) j"
    and "map view (trade_log b1) = map view (trade_log b) @
      (if b_on_trade b = None then [] else [fill_view ord (best, i, min (remaining ord) r)])"
proof -
  let ?q = "min (remaining ord) r"
  let ?x1 = "snd (fill ?q x)"
  let ?ord1 = "snd (fill ?q ord)"
  define e where "e = (if o_side ord = Buy then emit_trade ?ord1 ?x1 best ?q Buy (b\<lparr>b_orders := om_put i ?x1 (b_orders b)\<rparr>)
      else emit_trade ?x1 ?ord1 best ?q Sell (b\<lparr>b_orders := om_put i ?x1 (b_orders b)\<rparr>))"
  from ctx have inv: "core_inv (put_top s best L b)" and L: "lvl_inv L" "pl_price L = best" and lo: "levels_ok (levels s b)"
    by (auto simp: top_ctx_def)
  from ctx obtain L0 where top: "prio s (levels s b) = (best, L0) # rest" by (auto simp: top_ctx_def)
  have srt: "om_sorted (levels s b)" using lo by (simp add: levels_ok_def)
  have fid: "pl_front_order_id L = i" using lq.front_id_queue [OF L(1)] c by simp
  have filled: "is_filled ?x1 \<longleftrightarrow> r \<le> remaining ord"
    using is_filled_fill [of x ?q] x(2,3) by (auto simp: min_def)
  have "match_fill best ord x L b =
      (if r \<le> remaining ord then e\<lparr>b_orders := om_erase i (b_orders e)\<rparr> else e, ?ord1, pl_fill_front ?q L)"
    unfolding match_fill_def Let_def fid x(2) filled fill_frame e_def by (rule refl)
  with m have "(b1, ord1, L1) =
      (if r \<le> remaining ord then e\<lparr>b_orders := om_erase i (b_orders e)\<rparr> else e, ?ord1, pl_fill_front ?q L)"
    by (simp only:)
  note parts = this [unfolded prod.inject]
  have b1: "b1 = (if r \<le> remaining ord then e\<lparr>b_orders := om_erase i (b_orders e)\<rparr> else e)"
    by (rule parts [THEN conjunct1])
  have ord1: "ord1 = ?ord1" by (rule parts [THEN conjunct2, THEN conjunct1])
  have L1: "L1 = pl_fill_front ?q L" by (rule parts [THEN conjunct2, THEN conjunct2])
  show "ord1 = snd (fill ?q ord)" by (rule ord1)
  have e_frame: "b_orders e = om_put i ?x1 (b_orders b)" "levels s' e = levels s' b" "best_price s' e = best_price s' b"
    "b_config e = b_config b" "b_on_trade e = b_on_trade b" "b_symbol e = b_symbol b" "b_on_execution e = b_on_execution b"
    "b_on_bbo e = b_on_bbo b" for s'
    by (cases "o_side ord"; simp add: e_def)+
  show fr: "levels s' b1 = levels s' b" "best_price s' b1 = best_price s' b" "b_config b1 = b_config b"
      "b_on_trade b1 = b_on_trade b" "b_symbol b1 = b_symbol b" "b_on_execution b1 = b_on_execution b" "b_on_bbo b1 = b_on_bbo b" for s'
    by (cases "r \<le> remaining ord"; simp add: b1 e_frame)+
  have orders: "map_of (b_orders b1) = (map_of (b_orders b))(i := (if r \<le> remaining ord then None else Some ?x1))"
    by (simp add: b1 e_frame)
  then show "map_of (b_orders b1) j = map_of (b_orders b) j" if "j \<noteq> i" for j using that by simp
  show c1: "contents L1 = (if r \<le> remaining ord then es else (i, r - remaining ord) # es)"
    using lq.consume_all [OF L(1) c, of ?q] lq.consume_part [OF L(1) c, of ?q] by (auto simp: L1 min_def)
  have bok: "batch_ok b" using inv by (simp add: core_inv_def batch_ok_def put_top_def)
  then have "batch_ok (b\<lparr>b_orders := om_put i ?x1 (b_orders b)\<rparr>)" by (simp add: batch_ok_def)
  then have be: "batch_ok e" by (simp add: e_def)
  have tl: "trade_log (b\<lparr>b_orders := y\<rparr>) = trade_log b" for y b by (simp add: trade_log_def)
  show "map view (trade_log b1) = map view (trade_log b) @
      (if b_on_trade b = None then [] else [fill_view ord (best, i, ?q)])"
    using bok x(6) by (simp add: b1 tl e_def trade_log_emit batch_ok_def fill_view_def)
  have b1ok: "batch_ok b1" using be by (auto simp: b1 batch_ok_def)
  have L1': "lvl_inv L1" "pl_price L1 = best" using L by (simp_all add: L1 lq.consume_inv)
  have bp: "best \<noteq> INVALID_PRICE" using top lo prio_simps(3) [of s "levels s b"] by (auto simp: levels_ok_def)
  have ents: "entries s (put_top s best L b) = (best, i, r) # map (\<lambda>(i, q). (best, i, q)) es @ concat (map level_entries rest)"
    by (simp add: entries_put_top [OF srt top] level_entries_def c)
  have ents1: "entries s (put_top s best L1 b1) =
      map (\<lambda>(i, q). (best, i, q)) (contents L1) @ concat (map level_entries rest)"
    using entries_put_top [of s b1 best L0 rest L1] srt top by (simp add: fr level_entries_def)
  have ob: "b_orders (put_top s p L b) = b_orders b" for p L b by (simp add: put_top_def)
  have lk: "linked s (put_top s best L1 b1)"
  proof (cases "r \<le> remaining ord")
    case True
    show ?thesis
      by (rule linked_drop [OF _ ents]) (use inv True ents1 c1 orders in \<open>auto simp: core_inv_side ob\<close>)
  next
    case False
    show ?thesis
      by (rule linked_shrink [OF _ ents, where r' = "r - remaining ord" and x' = ?x1])
        (use inv False ents1 c1 orders x in \<open>auto simp: core_inv_side ob remaining_fill min_def\<close>)
  qed
  have lk2: "linked s2 (put_top s best L1 b1)" if "s2 \<noteq> s" for s2
  proof (rule linked_other [where b = "put_top s best L b" and i = i])
    show "entries s2 (put_top s best L1 b1) = entries s2 (put_top s best L b)"
      using that by (simp add: entries_def put_top_def fr)
  qed (use inv that orders x in \<open>auto simp: core_inv_side ob split: if_splits\<close>)
  have "linked s2 (put_top s best L1 b1)" for s2 using lk lk2 by (cases "s2 = s") simp_all
  moreover have "levels_ok (levels s2 (put_top s best L1 b1))" for s2
  proof (cases "s2 = s")
    case True
    then show ?thesis using lo L1' bp by (simp add: put_top_def fr levels_ok_put)
  next
    case False
    then have "levels s2 (put_top s best L1 b1) = levels s2 (put_top s best L b)"
      by (simp add: put_top_def fr)
    then show ?thesis using inv by (simp add: core_inv_side)
  qed
  moreover have "orders_ok (b_orders b1)"
  proof -
    have o: "orders_ok (b_orders b)" using inv by (simp add: core_inv_side ob)
    have "o_filled_qty ?x1 < o_quantity x" if "\<not> r \<le> remaining ord"
      using that filled unfolding is_filled_def fill_frame by (meson not_le)
    then show ?thesis
      using o x orders by (auto simp: orders_ok_def b1 e_frame split: if_splits)
  qed
  moreover have "\<not> c_batch_callbacks (b_config b1) \<longrightarrow> b_pending_trades b1 = []" using b1ok by (simp add: batch_ok_def)
  ultimately have "core_inv (put_top s best L1 b1)"
    unfolding core_inv_side by (simp add: ob) (simp add: put_top_def)
  then show "top_ctx s best L1 b1 rest"
    using L1' lo top by (simp add: top_ctx_def fr)
qed

definition same_order :: "order \<Rightarrow> order \<Rightarrow> bool" where
  "same_order x y \<longleftrightarrow> o_id y = o_id x \<and> o_price y = o_price x \<and> o_quantity y = o_quantity x \<and>
     o_side y = o_side x \<and> o_type y = o_type x \<and> o_tif y = o_tif x \<and> o_symbol y = o_symbol x"

definition same_static :: "book \<Rightarrow> book \<Rightarrow> bool" where
  "same_static b b' \<longleftrightarrow> b_symbol b' = b_symbol b \<and> b_config b' = b_config b \<and>
     b_on_trade b' = b_on_trade b \<and> b_on_execution b' = b_on_execution b \<and> b_on_bbo b' = b_on_bbo b"

lemma same_order_simps [simp]: "same_order x x" "same_order x (snd (fill q x))"
  by (simp_all add: same_order_def)

lemma same_order_trans: "same_order x y \<Longrightarrow> same_order y z \<Longrightarrow> same_order x z"
  by (simp add: same_order_def)

lemma same_static_refl [simp]: "same_static b b"
  by (simp add: same_static_def)

lemma same_static_trans: "same_static a b \<Longrightarrow> same_static b c \<Longrightarrow> same_static a c"
  by (simp add: same_static_def)

text \<open>The effect of matching \<open>ord\<close> on the entries \<open>es\<close> of side \<open>s\<close>.\<close>

definition matched :: "book \<Rightarrow> order \<Rightarrow> entry list \<Rightarrow> book \<Rightarrow> order \<Rightarrow> bool" where
  "matched b ord fs b' ord' \<longleftrightarrow>
     same_order ord ord' \<and> same_static b b' \<and> o_filled_qty ord' \<le> o_quantity ord' \<and>
     (\<forall>j. j \<notin> entry_id ` set fs \<longrightarrow> map_of (b_orders b') j = map_of (b_orders b) j) \<and>
     map view (trade_log b') = map view (trade_log b) @ (if b_on_trade b = None then [] else map (fill_view ord) fs)"

lemma matched_refl: "o_filled_qty ord \<le> o_quantity ord \<Longrightarrow> matched b ord [] b ord"
  by (simp add: matched_def)

lemma fill_view_same: "same_order x y \<Longrightarrow> fill_view y e = fill_view x e"
  by (auto simp: fill_view_def same_order_def split: prod.splits)

lemma matched_trans:
  assumes "matched b ord fs b1 ord1" "matched b1 ord1 gs b2 ord2"
  shows "matched b ord (fs @ gs) b2 ord2"
  using assms fill_view_same [of ord ord1]
  by (auto simp: matched_def same_static_def image_Un intro: same_order_trans)

lemma stp_hit_cong: "same_static b b' \<Longrightarrow> same_order ord ord' \<Longrightarrow> stp_hit b' ord' = stp_hit b ord"
  by (simp add: fun_eq_iff stp_hit_def same_static_def same_order_def)

lemma top_front_order:
  assumes "top_ctx s best L b rest" "contents L = (i, r) # es"
  obtains x where "map_of (b_orders b) i = Some x" "remaining x = r" "o_filled_qty x < o_quantity x"
    "o_side x = s" "o_price x = best" "o_id x = i" "pl_front_order_id L = i" "\<not> pl_empty L"
proof -
  from assms(1) obtain L0 where inv: "core_inv (put_top s best L b)" "lvl_inv L" "levels_ok (levels s b)"
    and top: "prio s (levels s b) = (best, L0) # rest" by (auto simp: top_ctx_def)
  have "om_sorted (levels s b)" using inv(3) by (simp add: levels_ok_def)
  then have "(best, i, r) \<in> set (entries s (put_top s best L b))"
    using assms(2) by (simp add: entries_put_top [OF _ top] level_entries_def)
  moreover have "linked s (put_top s best L b)" "orders_ok (b_orders (put_top s best L b))"
    using inv(1) by (simp_all add: core_inv_side)
  ultimately show ?thesis
    using inv(2) assms(2) by (auto dest!: linkedD simp: put_top_def orders_ok_def lq.front_id_queue lq.empty_queue intro: that)
qed

lemma match_level_spec:
  assumes "top_ctx s best L b rest" "s = opposite (o_side ord)" "o_filled_qty ord \<le> o_quantity ord"
    "c_enable_self_trade_prevention (b_config b) \<Longrightarrow> \<forall>e \<in> set (contents L). stp_blocks (o_id ord) (fst e) \<noteq> None"
  shows "\<exists>b' ord' L' st fs. match_level best ord L b = Some (b', ord', L', st) \<and>
     top_ctx s best L' b' rest \<and> matched b ord fs b' ord' \<and>
     sweep (stp_hit b ord) (\<lambda>_. True) (remaining ord) (level_entries (best, L)) =
       (fs, level_entries (best, L'), remaining ord') \<and>
     (st \<longrightarrow> contents L' \<noteq> []) \<and> (contents L' \<noteq> [] \<longrightarrow> st \<or> is_filled ord') \<and>
     (\<forall>s'. levels s' b' = levels s' b \<and> best_price s' b' = best_price s' b)"
  using assms
proof (induction "contents L" arbitrary: L b ord)
  case Nil
  then have "pl_empty L" by (simp add: top_ctx_def lq.empty_queue)
  with Nil show ?case
    by (subst match_level.simps) (auto simp: level_entries_def intro!: exI [of _ "[]"] matched_refl)
next
  case (Cons e es)
  obtain i r where e: "e = (i, r)" by (cases e)
  note ctx = Cons.prems(1) and c = Cons.hyps(2) [symmetric, unfolded e]
  from top_front_order [OF ctx c] obtain x where x: "map_of (b_orders b) i = Some x" "remaining x = r"
    "o_filled_qty x < o_quantity x" "o_side x = s" "o_price x = best" "o_id x = i"
    and front: "pl_front_order_id L = i" "\<not> pl_empty L" by blast
  have ents: "level_entries (best, L) = (best, i, r) # map (\<lambda>(i, q). (best, i, q)) es"
    by (simp add: level_entries_def c)
  consider (filled) "is_filled ord" | (stop) "\<not> is_filled ord" "stp_hit b ord i" | (go) "\<not> is_filled ord" "\<not> stp_hit b ord i"
    by blast
  then show ?case
  proof cases
    case filled
    then have "remaining ord = 0" using Cons.prems(3) by (simp add: not_filled_iff)
    with filled show ?thesis
      using Cons.prems c
      by (intro exI [of _ b] exI [of _ ord] exI [of _ L] exI [of _ False] exI [of _ "[]"], subst match_level.simps)
        (auto intro: matched_refl)
  next
    case stop
    then have "stp_blocks (o_id ord) i = Some True" "c_enable_self_trade_prevention (b_config b)"
      by (auto simp: stp_hit_def)
    with stop front x Cons.prems c ents show ?thesis
      by (intro exI [of _ b] exI [of _ ord] exI [of _ L] exI [of _ True] exI [of _ "[]"], subst match_level.simps)
        (auto intro: matched_refl)
  next
    case go
    then have rem: "remaining ord \<noteq> 0" using Cons.prems(3) by (simp add: not_filled_iff)
    have stp: "(if c_enable_self_trade_prevention (b_config b) then stp_blocks (o_id ord) (o_id x) else Some False) = Some False"
      using go(2) Cons.prems(4) c x by (auto simp: stp_hit_def)
    obtain b1 ord1 L1 where m: "match_fill best ord x L b = (b1, ord1, L1)" by (metis prod_cases3)
    note st = match_fill_step [OF ctx Cons.prems(2) c Cons.prems(3) x m]
    have step: "match_level best ord L b = match_level best ord1 L1 b1"
      using go front x stp by (subst match_level.simps) (simp add: m)
    have o1: "same_order ord ord1" "o_filled_qty ord1 \<le> o_quantity ord1"
      using fill_bounded(1) [OF Cons.prems(3), of "min (remaining ord) r"] by (simp_all add: st(3))
    have m1: "matched b ord [(best, i, min (remaining ord) r)] b1 ord1"
      using o1 st by (simp add: matched_def same_static_def)
    have r1: "remaining ord1 = remaining ord - min (remaining ord) r"
      by (simp add: st(3) remaining_fill)
    show ?thesis
    proof (cases "r \<le> remaining ord")
      case True
      then have c1: "es = contents L1" using st(2) by simp
      have "\<exists>b' ord' L' st fs. match_level best ord1 L1 b1 = Some (b', ord', L', st) \<and>
         top_ctx s best L' b' rest \<and> matched b1 ord1 fs b' ord' \<and>
         sweep (stp_hit b1 ord1) (\<lambda>_. True) (remaining ord1) (level_entries (best, L1)) =
           (fs, level_entries (best, L'), remaining ord') \<and>
         (st \<longrightarrow> contents L' \<noteq> []) \<and> (contents L' \<noteq> [] \<longrightarrow> st \<or> is_filled ord') \<and>
         (\<forall>s'. levels s' b' = levels s' b1 \<and> best_price s' b' = best_price s' b1)"
        using Cons.prems o1 c c1 st by (intro Cons.hyps(1) [OF c1]) (auto simp: same_order_def)
      then obtain b' ord' L' stf fs where IH: "match_level best ord1 L1 b1 = Some (b', ord', L', stf)"
         "top_ctx s best L' b' rest" "matched b1 ord1 fs b' ord'"
         "sweep (stp_hit b1 ord1) (\<lambda>_. True) (remaining ord1) (level_entries (best, L1)) =
           (fs, level_entries (best, L'), remaining ord')"
         "stf \<longrightarrow> contents L' \<noteq> []" "contents L' \<noteq> [] \<longrightarrow> stf \<or> is_filled ord'"
         "\<forall>s'. levels s' b' = levels s' b1 \<and> best_price s' b' = best_price s' b1" by blast
      have "stp_hit b1 ord1 = stp_hit b ord"
        using m1 by (intro stp_hit_cong) (auto simp: matched_def)
      then have "sweep (stp_hit b ord) (\<lambda>_. True) (remaining ord) (level_entries (best, L)) =
         ((best, i, r) # fs, level_entries (best, L'), remaining ord')"
        using IH(4) True rem go(2) c1 r1 unfolding ents by (simp add: level_entries_def min_absorb2)
      then show ?thesis
        using IH matched_trans [OF m1 IH(3)] True st(4,5) unfolding step by (auto simp: min_absorb2)
    next
      case False
      then have c1: "contents L1 = (i, r - remaining ord) # es" "remaining ord1 = 0" using st(2) r1 by (auto simp: min_def)
      then have "is_filled ord1" using o1 by (simp add: not_filled_iff)
      then have "match_level best ord1 L1 b1 = Some (b1, ord1, L1, False)" by (subst match_level.simps) simp
      moreover have "sweep (stp_hit b ord) (\<lambda>_. True) (remaining ord) (level_entries (best, L)) =
         ([(best, i, min (remaining ord) r)], level_entries (best, L1), remaining ord1)"
        using False rem go(2) c1 unfolding ents by (simp add: level_entries_def min_absorb1)
      ultimately show ?thesis using m1 st \<open>is_filled ord1\<close> unfolding step by auto
    qed
  qed
qed

lemma book_inv_top:
  assumes "book_inv b" "prio s (levels s b) = (p, L) # rest"
  shows "top_ctx s p L b rest" "best_price s b = p" "map_of (levels s b) p = Some L" "\<not> pl_empty L"
    "p \<noteq> INVALID_PRICE" "\<forall>e \<in> set rest. contents (snd e) \<noteq> []"
proof -
  from assms(1) have inv: "core_inv b" "no_empty (levels s b)" "best_price s b = top_price s b" by (auto simp: book_inv_side)
  then have lo: "levels_ok (levels s b)" by (simp add: core_inv_side)
  then have srt: "om_sorted (levels s b)" by (simp add: levels_ok_def)
  have mem: "(p, L) \<in> set (levels s b)" "set rest \<subseteq> set (levels s b)"
    using assms(2) prio_simps(3) [of s "levels s b"] by auto
  show f: "map_of (levels s b) p = Some L" using mem srt by (simp add: om_find_iff)
  obtain xs ys where "levels s b = xs @ (p, L) # ys" using om_split_at [OF f] by blast
  then have "put_top s p L b = set_levels s (levels s b) b"
    using srt by (simp add: put_top_def om_put_append)
  then have "put_top s p L b = b" by (cases s) simp_all
  with inv lo mem assms(2) show "top_ctx s p L b rest" by (auto simp: top_ctx_def levels_ok_def)
  show "best_price s b = p" using inv(3) assms(2) by (simp add: top_price_def)
  show "p \<noteq> INVALID_PRICE" using lo mem by (auto simp: levels_ok_def)
  have "lvl_inv L" using lo mem by (auto simp: levels_ok_def)
  then show "\<not> pl_empty L" using inv(2) mem by (auto simp: no_empty_def lq.empty_queue)
  show "\<forall>e \<in> set rest. contents (snd e) \<noteq> []" using inv(2) mem by (auto simp: no_empty_def)
qed

lemma all_sides: "P s \<Longrightarrow> P (opposite s) \<Longrightarrow> P s'"
  by (cases s; cases s') simp_all

lemma levels_ok_erase: "levels_ok m \<Longrightarrow> levels_ok (om_erase p m)"
  by (auto simp: levels_ok_def om_erase_def [of p m] om_sorted_erase [of m p, unfolded om_erase_def])

text \<open>Storing the level back, or dropping it, restores the full invariant.\<close>

lemma close_level_spec:
  assumes ctx: "top_ctx s p L b rest" and ne: "\<forall>e \<in> set rest. contents (snd e) \<noteq> []"
    and best: "best_price s b = p" and other: "no_empty (levels (opposite s) b)"
      "best_price (opposite s) b = top_price (opposite s) b"
  shows "book_inv (close_level s p L b)"
    and "entries s (close_level s p L b) = level_entries (p, L) @ concat (map level_entries rest)"
    and "entries (opposite s) (close_level s p L b) = entries (opposite s) b"
    and "b_orders (close_level s p L b) = b_orders b" "same_static b (close_level s p L b)"
      "trade_log (close_level s p L b) = trade_log b"
    and "length (levels s (close_level s p L b)) \<le> length (levels s b)"
    and "contents L = [] \<Longrightarrow> length (levels s (close_level s p L b)) < length (levels s b)"
proof -
  let ?b = "close_level s p L b"
  from ctx obtain L0 where inv: "core_inv (put_top s p L b)" "levels_ok (levels s b)" "lvl_inv L"
    and top: "prio s (levels s b) = (p, L0) # rest" by (auto simp: top_ctx_def)
  have srt: "om_sorted (levels s b)" using inv(2) by (simp add: levels_ok_def)
  note pt = prio_top [OF srt top]
  have emp: "pl_empty L \<longleftrightarrow> contents L = []" using inv(3) by (rule lq.empty_queue)
  show frames: "b_orders ?b = b_orders b" "same_static b ?b" "trade_log ?b = trade_log b"
    by (simp_all add: close_level_def same_static_def trade_log_def)
  have lv: "levels s ?b = (if contents L = [] then om_erase p (levels s b) else om_put p L (levels s b))"
    "levels (opposite s) ?b = levels (opposite s) b" "best_price (opposite s) ?b = best_price (opposite s) b"
    by (simp_all add: close_level_def emp)
  show ent: "entries s ?b = level_entries (p, L) @ concat (map level_entries rest)"
    using pt by (auto simp: entries_def lv level_entries_def)
  show ent2: "entries (opposite s) ?b = entries (opposite s) b" by (simp add: entries_def lv)
  have ents: "entries s2 ?b = entries s2 (put_top s p L b)" for s2
    using ent ent2 entries_put_top [OF srt top] entries_other [of s2 s p L b] by (cases "s2 = s"; cases s2; cases s) auto
  have "linked s2 ?b" for s2
    using inv(1) by (simp add: core_inv_side linked_def ents frames) (simp add: put_top_def)
  moreover have lo: "levels_ok (levels s2 ?b)" for s2
  proof (cases "s2 = s")
    case True
    have "levels_ok (om_put p L (levels s b))" using inv(1) by (simp add: core_inv_side put_top_def) (metis levels_other(1))
    then show ?thesis using True inv(2) by (simp add: lv levels_ok_erase)
  next
    case False
    then have "s2 = opposite s" by (cases s; cases s2) auto
    then show ?thesis using inv(1) by (simp add: lv core_inv_side put_top_def) (metis levels_other(2) opposite_neq(1))
  qed
  ultimately have "core_inv ?b"
    using inv(1) by (simp add: core_inv_side frames) (simp add: put_top_def close_level_def)
  moreover have prio_b: "prio s (levels s ?b) = (if contents L = [] then rest else (p, L) # rest)"
    using pt by (simp add: lv)
  then have "set (levels s ?b) = (if contents L = [] then set rest else insert (p, L) (set rest))"
    by (metis prio_simps(3) list.simps(15))
  then have "\<forall>e \<in> set (levels s ?b). contents (snd e) \<noteq> []" using ne by auto
  then have "no_empty (levels s ?b)" by (simp add: no_empty_def)
  moreover have "best_price s ?b = top_price s ?b"
  proof (cases "contents L = []")
    case True
    then show ?thesis by (simp add: close_level_def emp update_best_top)
  next
    case False
    then show ?thesis using prio_b best by (simp add: top_price_def close_level_def emp)
  qed
  moreover have "no_empty (levels (opposite s) ?b)" "best_price (opposite s) ?b = top_price (opposite s) ?b"
    using other by (simp_all add: lv top_price_def)
  ultimately show "book_inv ?b" unfolding book_inv_side
    using all_sides [of "\<lambda>s2. no_empty (levels s2 ?b) \<and> best_price s2 ?b = top_price s2 ?b" s] by blast
  have "length (prio s (levels s ?b)) \<le> length (prio s (levels s b))" 
    "contents L = [] \<Longrightarrow> length (prio s (levels s ?b)) < length (prio s (levels s b))"
    by (simp_all only: prio_b top) auto
  then show "length (levels s ?b) \<le> length (levels s b)" "contents L = [] \<Longrightarrow> length (levels s ?b) < length (levels s b)"
    by simp_all
qed

lemma crosses_same: "same_order x y \<Longrightarrow> crosses y = crosses x"
  by (auto simp: fun_eq_iff crosses_def would_cross_def same_order_def)

lemma sweep_blocked: "es \<noteq> [] \<Longrightarrow> \<not> ok (fst (hd es)) \<Longrightarrow> sweep stp ok q es = ([], es, q)"
  by (cases es) auto

lemma entries_top:
  "prio s (levels s b) = (p, L) # rest \<Longrightarrow> entries s b = level_entries (p, L) @ concat (map level_entries rest)"
  by (simp add: entries_def)

lemma match_order_spec:
  assumes "book_inv b" "o_filled_qty ord \<le> o_quantity ord" "stp_defined b ord"
  shows "\<exists>b' ord' fs. match_order ord b = Some (b', ord') \<and> book_inv b' \<and> matched b ord fs b' ord' \<and>
     sweep (stp_hit b ord) (crosses ord) (remaining ord) (entries (opposite (o_side ord)) b) =
       (fs, entries (opposite (o_side ord)) b', remaining ord') \<and>
     entries (o_side ord) b' = entries (o_side ord) b"
  using assms
proof (induction "length (levels (opposite (o_side ord)) b)" arbitrary: b ord rule: less_induct)
  case less
  let ?s = "opposite (o_side ord)"
  have stay: ?case if "match_order ord b = Some (b, ord)"
     "sweep (stp_hit b ord) (crosses ord) (remaining ord) (entries ?s b) = ([], entries ?s b, remaining ord)"
    using that less.prems by (intro exI [of _ b] exI [of _ ord] exI [of _ "[]"]) (simp add: matched_refl)
  show ?case
  proof (cases "is_filled ord")
    case True
    then have "remaining ord = 0" using less.prems(2) by (simp add: not_filled_iff)
    with True show ?thesis by (intro stay) (subst match_order.simps, simp_all add: Let_def)
  next
    case False
    then have rem: "remaining ord \<noteq> 0" using less.prems(2) by (simp add: not_filled_iff)
    show ?thesis
    proof (cases "prio ?s (levels ?s b)")
      case Nil
      have "top_price ?s b = INVALID_PRICE" "entries ?s b = []"
        unfolding top_price_def entries_def Nil by simp_all
      moreover from this have "best_price ?s b = INVALID_PRICE"
        using less.prems(1) by (simp add: book_inv_side)
      ultimately have "best_price ?s b = INVALID_PRICE" "entries ?s b = []" by simp_all
      with False show ?thesis by (intro stay) (subst match_order.simps, simp_all add: Let_def)
    next
      case (Cons e rest)
      obtain p L where top: "prio ?s (levels ?s b) = (p, L) # rest" using Cons by (cases e) auto
      note bt = book_inv_top [OF less.prems(1) top]
      have "lvl_inv L" using bt(1) by (simp add: top_ctx_def)
      then have ne: "contents L \<noteq> []" using bt(4) by (simp add: lq.empty_queue)
      note ent = entries_top [OF top]
      show ?thesis
      proof (cases "crosses ord p")
        case no: False
        have hd: "entries ?s b \<noteq> []" "fst (hd (entries ?s b)) = p"
          using ne by (auto simp: ent level_entries_def neq_Nil_conv)
        have "match_order ord b = Some (b, ord)"
          using False no bt(2) by (subst match_order.simps) (auto simp: crosses_def Let_def)
        then show ?thesis using hd no by (intro stay) (simp_all add: sweep_blocked)
      next
        case yes: True
        have def: "\<forall>e \<in> set (contents L). stp_blocks (o_id ord) (fst e) \<noteq> None"
          if "c_enable_self_trade_prevention (b_config b)"
          using less.prems(3) that by (force simp: stp_defined_def ent level_entries_def)
        from match_level_spec [OF bt(1) refl less.prems(2) def]
        obtain b1 ord1 L1 st fs where m: "match_level p ord L b = Some (b1, ord1, L1, st)"
          "top_ctx ?s p L1 b1 rest" "matched b ord fs b1 ord1"
          "sweep (stp_hit b ord) (\<lambda>_. True) (remaining ord) (level_entries (p, L)) = (fs, level_entries (p, L1), remaining ord1)"
          "st \<longrightarrow> contents L1 \<noteq> []" "contents L1 \<noteq> [] \<longrightarrow> st \<or> is_filled ord1"
          "\<forall>s'. levels s' b1 = levels s' b \<and> best_price s' b1 = best_price s' b" by blast
        have so: "same_order ord ord1" and ss: "same_static b b1" and f1: "o_filled_qty ord1 \<le> o_quantity ord1"
          using m(3) by (auto simp: matched_def)
        have oth: "no_empty (levels (opposite ?s) b1)" "best_price (opposite ?s) b1 = top_price (opposite ?s) b1"
          using less.prems(1) m(7) by (auto simp: book_inv_side top_price_def)
        let ?b2 = "close_level ?s p L1 b1"
        note cl = close_level_spec [OF m(2) bt(6) _ oth]
        have best1: "best_price ?s b1 = p" using m(7) bt(2) by simp
        note cl = cl [OF best1]
        have m2: "matched b ord fs ?b2 ord1"
          using m(3) cl(4-6) by (simp add: matched_def same_static_def)
        have same_side: "entries (o_side ord) ?b2 = entries (o_side ord) b"
          using cl(3) m(7) by (cases "o_side ord") (simp_all add: entries_def)
        have step: "match_order ord b = (if st then Some (?b2, ord1) else match_order ord1 ?b2)"
          using False yes bt m(1) by (subst match_order.simps) (simp add: crosses_def Let_def)
        have sw: "sweep (stp_hit b ord) (crosses ord) (remaining ord) (entries ?s b) =
           (if level_entries (p, L1) = [] then (case sweep (stp_hit b ord) (crosses ord) (remaining ord1) (concat (map level_entries rest))
              of (gs, ys, q) \<Rightarrow> (fs @ gs, ys, q))
            else (fs, level_entries (p, L1) @ concat (map level_entries rest), remaining ord1))"
          unfolding ent by (subst sweep_level [where p = p]) (use yes m(4) in \<open>auto simp: level_entries_def\<close>)
        show ?thesis
        proof (cases "contents L1 = []")
          case stopped: False
          then have "match_order ord b = Some (?b2, ord1)"
            using m(6) step by (auto simp: match_order.simps [of ord1])
          then show ?thesis
            using m2 cl(1,2) same_side sw stopped by (intro exI [of _ ?b2] exI [of _ ord1] exI [of _ fs]) (simp add: level_entries_def)
        next
          case drained: True
          then have step2: "match_order ord b = match_order ord1 ?b2" using step m(5) by simp
          have s1: "opposite (o_side ord1) = ?s" "o_side ord1 = o_side ord" using so by (simp_all add: same_order_def)
          have ss2: "same_static b ?b2" using ss cl(5) by (rule same_static_trans)
          have "stp_defined ?b2 ord1"
            using less.prems(3) ss2 so cl(2) drained by (auto simp: stp_defined_def s1 ent same_static_def same_order_def level_entries_def)
          moreover have "length (levels ?s ?b2) < length (levels ?s b)" using cl(8) [OF drained] m(7) by simp
          ultimately obtain b' ord' gs where IH: "match_order ord1 ?b2 = Some (b', ord')" "book_inv b'" "matched ?b2 ord1 gs b' ord'"
             "sweep (stp_hit ?b2 ord1) (crosses ord1) (remaining ord1) (entries ?s ?b2) = (gs, entries ?s b', remaining ord')"
             "entries (o_side ord) b' = entries (o_side ord) ?b2"
            using less.hyps [of ord1 ?b2] cl(1) f1 unfolding s1 by blast
          have "stp_hit ?b2 ord1 = stp_hit b ord" "crosses ord1 = crosses ord"
            using stp_hit_cong [OF ss2 so] crosses_same [OF so] by simp_all
          then have "sweep (stp_hit b ord) (crosses ord) (remaining ord) (entries ?s b) = (fs @ gs, entries ?s b', remaining ord')"
            using IH(4) drained cl(2) by (simp add: sw level_entries_def)
          then show ?thesis
            using IH matched_trans [OF m2 IH(3)] same_side step2 by auto
        qed
      qed
    qed
  qed
qed

end
