(* ===== verification/Resting.thy ===== *)
theory Resting
  imports Matching
begin

text \<open>
  Where a resting order goes and how it leaves: \<^verbatim>\<open>OrderBook::insert_resting_order\<close> puts the new
  entry behind every entry that is not worse (price first, then arrival), \<^verbatim>\<open>cancel_order\<close>
  removes exactly the entry of that id. Both keep \<open>book_inv\<close>.
\<close>

section \<open>Where a price sits\<close>

definition better :: "side \<Rightarrow> price \<Rightarrow> price \<Rightarrow> bool" where
  "better s p q \<longleftrightarrow> (case s of Buy \<Rightarrow> q < p | Sell \<Rightarrow> p < q)"

fun insert_entry :: "side \<Rightarrow> entry \<Rightarrow> entry list \<Rightarrow> entry list" where
  "insert_entry s e [] = [e]"
| "insert_entry s e (x # xs) = (if better s (fst e) (fst x) then e # x # xs else x # insert_entry s e xs)"

lemma better_trans: "better s p q \<Longrightarrow> better s q r \<Longrightarrow> better s p r"
  by (cases s) (auto simp: better_def)

lemma better_irrefl [simp]: "\<not> better s p p"
  by (cases s) (auto simp: better_def)

lemma better_asym: "better s p q \<Longrightarrow> \<not> better s q p"
  by (cases s) (auto simp: better_def)

lemma set_insert_entry [simp]: "set (insert_entry s e xs) = insert e (set xs)"
  by (induction xs) auto

lemma mset_insert_entry: "distinct (map entry_id (insert_entry s e xs)) \<longleftrightarrow> distinct (map entry_id (e # xs))"
  by (induction xs) auto

lemma insert_entry_append:
  "\<forall>x \<in> set xs. \<not> better s (fst e) (fst x) \<Longrightarrow> insert_entry s e (xs @ ys) = xs @ insert_entry s e ys"
  by (induction xs) auto

lemma insert_entry_front: "\<forall>y \<in> set ys. better s (fst e) (fst y) \<Longrightarrow> insert_entry s e ys = e # ys"
  by (cases ys) auto

lemma om_split:
  fixes m :: "('k::linorder, 'v) omap"
  assumes "om_sorted m"
  obtains xs ol ys where "m = xs @ ol @ ys" "\<forall>v. om_put k v m = xs @ (k, v) # ys" "om_erase k m = xs @ ys"
    "ol = (case map_of m k of None \<Rightarrow> [] | Some v \<Rightarrow> [(k, v)])"
    "\<forall>x \<in> set xs. fst x < k" "\<forall>y \<in> set ys. k < fst y"
proof -
  let ?xs = "filter (\<lambda>e. fst e < k) m" and ?ys = "filter (\<lambda>e. k < fst e) m"
  have "m = ?xs @ (case map_of m k of None \<Rightarrow> [] | Some v \<Rightarrow> [(k, v)]) @ ?ys \<and>
    (\<forall>v. om_put k v m = ?xs @ (k, v) # ?ys) \<and> om_erase k m = ?xs @ ?ys"
    using assms
  proof (induction m)
    case (Cons e m)
    then have IH: "m = filter (\<lambda>e. fst e < k) m @ (case map_of m k of None \<Rightarrow> [] | Some v \<Rightarrow> [(k, v)]) @ filter (\<lambda>e. k < fst e) m"
      "\<forall>v. om_put k v m = filter (\<lambda>e. fst e < k) m @ (k, v) # filter (\<lambda>e. k < fst e) m"
      "om_erase k m = filter (\<lambda>e. fst e < k) m @ filter (\<lambda>e. k < fst e) m" and lt: "\<forall>x \<in> set m. fst e < fst x"
      by (auto simp: om_sorted_Cons)
    show ?case
    proof (cases "fst e < k")
      case True
      then show ?thesis using IH by (auto simp: om_erase_def)
    next
      case False
      then have "\<forall>x \<in> set m. k < fst x" using lt by auto
      then have "filter (\<lambda>e. fst e < k) m = []" "filter (\<lambda>e. k < fst e) m = m" "k \<notin> om_keys m"
        by (auto simp: filter_empty_conv filter_id_conv)
      moreover from this have "map_of m k = None" by (simp add: map_of_eq_None_iff)
      ultimately show ?thesis using False IH(3) by (cases e) (auto simp: om_erase_def)
    qed
  qed (simp add: om_erase_def)
  then show ?thesis by (intro that [of ?xs "case map_of m k of None \<Rightarrow> [] | Some v \<Rightarrow> [(k, v)]" ?ys]) simp_all
qed

lemma level_split:
  assumes "om_sorted m"
  obtains xs ol ys where "prio s m = xs @ ol @ ys" "\<forall>L. prio s (om_put p L m) = xs @ (p, L) # ys"
    "prio s (om_erase p m) = xs @ ys" "ol = (case map_of m p of None \<Rightarrow> [] | Some L \<Rightarrow> [(p, L)])"
    "\<forall>x \<in> set xs. better s (fst x) p" "\<forall>y \<in> set ys. better s p (fst y)"
proof -
  from om_split [OF assms, of p] obtain xs ol ys where o: "m = xs @ ol @ ys"
    "\<forall>v. om_put p v m = xs @ (p, v) # ys" "om_erase p m = xs @ ys"
    "ol = (case map_of m p of None \<Rightarrow> [] | Some v \<Rightarrow> [(p, v)])" "\<forall>x \<in> set xs. fst x < p" "\<forall>y \<in> set ys. p < fst y" .
  show ?thesis
  proof (cases s)
    case Buy
    have ol: "rev ol = ol" using o(4) by (simp split: option.splits)
    have "prio s m = rev ys @ ol @ rev xs" by (simp add: Buy o(1) ol)
    then show ?thesis
      using o(2-6) Buy by (intro that [of "rev ys" ol "rev xs"]) (simp_all add: better_def)
  next
    case Sell
    have "prio s m = xs @ ol @ ys" by (simp add: Sell o(1))
    then show ?thesis using o(2-6) Sell by (intro that [of xs ol ys]) (simp_all add: better_def)
  qed
qed

section \<open>Invariant and events\<close>

lemma entries_same: "same_book b b' \<Longrightarrow> entries s b' = entries s b"
  using same_bookD(2) by (simp add: entries_def)

lemma top_price_same: "same_book b b' \<Longrightarrow> top_price s b' = top_price s b"
  using same_bookD(2) by (simp add: top_price_def)

lemma book_inv_same:
  assumes "book_inv b" "same_book b b'" "batch_ok b'"
  shows "book_inv b'"
  using assms same_bookD [OF assms(2)]
  by (simp add: book_inv_side core_inv_side linked_def batch_ok_def entries_same top_price_same)

lemma book_inv_batch: "book_inv b \<Longrightarrow> batch_ok b"
  by (simp add: book_inv_def core_inv_def batch_ok_def)

lemma book_inv_events [simp]:
  "book_inv b \<Longrightarrow> book_inv (flush_trades b)" "book_inv b \<Longrightarrow> book_inv (emit_execution_report x q avg b)"
  "book_inv b \<Longrightarrow> book_inv (maybe_emit_bbo b)"
  by (rule book_inv_same [OF _ same_flush] book_inv_same [OF _ same_emit_report] book_inv_same [OF _ same_emit_bbo],
      assumption, simp add: book_inv_batch)+

lemmas entries_events [simp] =
  entries_same [OF same_flush] entries_same [OF same_emit_report] entries_same [OF same_emit_bbo]

section \<open>Resting an order\<close>

lemma linked_insert:
  assumes "linked s b" "entries s b' = insert_entry s (p, i, q) (entries s b)"
    "map_of (b_orders b') = (map_of (b_orders b))(i \<mapsto> x)" "map_of (b_orders b) i = None"
    "o_side x = s" "o_price x = p" "remaining x = q"
  shows "linked s b'"
proof -
  have new: "i \<notin> entry_id ` set (entries s b)"
    using assms(1,4) by (force dest: linkedD)
  have "(p', j, q') \<in> set (entries s b') \<longleftrightarrow>
      (\<exists>y. map_of (b_orders b') j = Some y \<and> o_side y = s \<and> o_price y = p' \<and> remaining y = q')" for p' j q'
  proof (cases "j = i")
    case True
    then show ?thesis using assms(2,3,5-) new by (force simp: image_iff)
  next
    case False
    then show ?thesis using assms(1-3) by (auto simp: linked_def)
  qed
  then show ?thesis using new assms(1,2) by (simp add: linked_def mset_insert_entry)
qed

lemma insert_spec:
  assumes inv: "book_inv b" and fresh: "map_of (b_orders b) (o_id x) = None"
    and p: "o_price x < INVALID_PRICE" and f: "o_filled_qty x < o_quantity x"
  shows "book_inv (insert_resting_order x b)"
    and "entries (o_side x) (insert_resting_order x b) = insert_entry (o_side x) (o_price x, o_id x, remaining x) (entries (o_side x) b)"
    and "s' \<noteq> o_side x \<Longrightarrow> entries s' (insert_resting_order x b) = entries s' b"
    and "map_of (b_orders (insert_resting_order x b)) = (map_of (b_orders b))(o_id x \<mapsto> x)"
    and "same_static b (insert_resting_order x b)" "trade_log (insert_resting_order x b) = trade_log b"
proof -
  let ?s = "o_side x" and ?p = "o_price x" and ?i = "o_id x"
  let ?m = "levels ?s b"
  define L where "L = (case map_of ?m ?p of Some L \<Rightarrow> L | None \<Rightarrow> new_level ?p)"
  define L1 where "L1 = pl_add_order ?i (remaining x) L"
  define b2 where "b2 = (set_levels ?s (om_put ?p L1 ?m) b)\<lparr>b_orders := om_put ?i x (b_orders b)\<rparr>"
  define b3 where "b3 = (if ?s = Buy then (if b_best_bid b2 = INVALID_PRICE \<or> b_best_bid b2 < ?p then b2\<lparr>b_best_bid := ?p\<rparr> else b2)
      else (if ?p < b_best_ask b2 then b2\<lparr>b_best_ask := ?p\<rparr> else b2))"
  have b': "insert_resting_order x b = maybe_emit_bbo b3"
    by (simp add: insert_resting_order_def Let_def L_def L1_def b2_def b3_def)
  have core: "core_inv b" and ne: "\<And>s. no_empty (levels s b)" and best: "\<And>s. best_price s b = top_price s b"
    using inv by (auto simp: book_inv_side)
  then have lo: "\<And>s. levels_ok (levels s b)" and lk: "\<And>s. linked s b" and oo: "orders_ok (b_orders b)" by (auto simp: core_inv_side)
  then have srt: "om_sorted ?m" by (simp add: levels_ok_def)
  obtain xs ol ys where sp: "prio ?s ?m = xs @ ol @ ys" "\<forall>L. prio ?s (om_put ?p L ?m) = xs @ (?p, L) # ys"
    "prio ?s (om_erase ?p ?m) = xs @ ys" "ol = (case map_of ?m ?p of None \<Rightarrow> [] | Some L \<Rightarrow> [(?p, L)])"
    "\<forall>x \<in> set xs. better ?s (fst x) ?p" "\<forall>y \<in> set ys. better ?s ?p (fst y)"
    by (rule level_split [OF srt, of ?s ?p])
  have Lok: "lvl_inv L" "pl_price L = ?p" and Lc: "concat (map level_entries ol) = level_entries (?p, L)"
    using lo [of ?s] srt sp(4)
    by (auto simp: L_def lq.new_inv levels_ok_def lq.new_queue level_entries_def split: option.splits dest!: map_of_SomeD)
  have ent: "entries ?s b = concat (map level_entries xs) @ level_entries (?p, L) @ concat (map level_entries ys)"
    by (simp add: entries_def sp(1) Lc)
  have "?i \<notin> entry_id ` set (entries ?s b)"
    using lk [of ?s] fresh by (force dest: linkedD)
  then have new: "?i \<notin> fst ` set (contents L)" by (force simp: ent level_entries_def)
  then have L1: "lvl_inv L1" "contents L1 = contents L @ [(?i, remaining x)]" "pl_price L1 = ?p"
    using Lok by (simp_all add: L1_def lq.add_inv lq.add_queue)
  have lv: "levels ?s b3 = om_put ?p L1 ?m" "s2 \<noteq> ?s \<Longrightarrow> levels s2 b3 = levels s2 b"
    and ob: "b_orders b3 = om_put ?i x (b_orders b)" for s2
    by (cases ?s; cases s2; simp add: b3_def b2_def)+
  have ent3: "entries ?s b3 = insert_entry ?s (?p, ?i, remaining x) (entries ?s b)"
  proof -
    let ?e = "(?p, ?i, remaining x)" and ?X = "concat (map level_entries xs) @ level_entries (?p, L)"
      and ?Y = "concat (map level_entries ys)"
    have "\<forall>z \<in> set ?X. \<not> better ?s (fst ?e) (fst z)"
      using sp(5) by (fastforce simp: level_entries_def dest: better_asym)
    then have "insert_entry ?s ?e (?X @ ?Y) = ?X @ insert_entry ?s ?e ?Y" by (rule insert_entry_append)
    also have "insert_entry ?s ?e ?Y = ?e # ?Y"
      by (rule insert_entry_front) (use sp(6) in \<open>auto simp: level_entries_def\<close>)
    also have "?X @ ?e # ?Y = entries ?s b3"
      by (simp add: entries_def lv sp(2) level_entries_def L1)
    finally show ?thesis by (simp add: ent)
  qed
  have oth: "s2 \<noteq> ?s \<Longrightarrow> entries s2 b3 = entries s2 b" for s2 by (simp add: entries_def lv)
  have mo: "map_of (b_orders b3) = (map_of (b_orders b))(?i \<mapsto> x)" by (simp add: ob)
  have frames: "b_config b3 = b_config b" "b_pending_trades b3 = b_pending_trades b" "b_out b3 = b_out b" "same_static b b3"
    by (simp_all add: b3_def b2_def same_static_def)
  have "linked s2 b3" for s2
  proof (cases "s2 = ?s")
    case True
    then show ?thesis using linked_insert [OF lk ent3 mo fresh] by simp
  next
    case False
    then show ?thesis by (intro linked_other [OF lk, where i = ?i]) (use oth mo fresh in auto)
  qed
  moreover have "levels_ok (levels s2 b3)" for s2
    using lo L1 p by (cases "s2 = ?s") (auto simp: lv intro!: levels_ok_put)
  moreover have "orders_ok (b_orders b3)" using oo f by (auto simp: ob orders_ok_def)
  ultimately have "core_inv b3" using core by (simp add: core_inv_side frames)
  moreover have "no_empty (levels s2 b3)" for s2
  proof (cases "s2 = ?s")
    case True
    have "z = (?p, L1) \<or> z \<in> set ?m" if "z \<in> set (om_put ?p L1 ?m)" for z
      using that sp(1) prio_simps(3) [of ?s ?m] prio_simps(3) [of ?s "om_put ?p L1 ?m"] by (auto simp: sp(2))
    then show ?thesis using ne [of ?s] L1(2) True by (fastforce simp: no_empty_def lv)
  next
    case False
    then show ?thesis using ne by (simp add: lv)
  qed
  moreover have "best_price s2 b3 = top_price s2 b3" for s2
  proof (cases "s2 = ?s")
    case True
    have top3: "top_price ?s b3 = (if xs = [] then ?p else fst (hd xs))"
      by (cases xs) (simp_all add: top_price_def lv sp(2))
    have olp: "ol = [] \<or> fst (hd ol) = ?p" using sp(4) by (simp split: option.splits)
    have top: "top_price ?s b = (if xs \<noteq> [] then fst (hd xs) else if ol \<noteq> [] then ?p else if ys \<noteq> [] then fst (hd ys) else INVALID_PRICE)"
      using olp by (cases xs; cases ol; cases ys) (simp_all add: top_price_def sp(1))
    have xs: "xs \<noteq> [] \<Longrightarrow> better ?s (fst (hd xs)) ?p \<and> fst (hd xs) \<noteq> INVALID_PRICE"
    proof -
      assume "xs \<noteq> []"
      then have "hd xs \<in> set xs" by simp
      moreover from this have "hd xs \<in> set ?m" using sp(1) prio_simps(3) [of ?s ?m] by auto
      ultimately show ?thesis using sp(5) lo [of ?s] by (auto simp: levels_ok_def)
    qed
    have ys: "ys \<noteq> [] \<Longrightarrow> better ?s ?p (fst (hd ys))" using sp(6) by (cases ys) auto
    have b3: "best_price ?s b3 = (case ?s of Buy \<Rightarrow> if best_price Buy b = INVALID_PRICE \<or> best_price Buy b < ?p then ?p else best_price Buy b
        | Sell \<Rightarrow> if ?p < best_price Sell b then ?p else best_price Sell b)"
      by (cases ?s) (simp_all add: b3_def b2_def)
    have "best_price ?s b3 = top_price ?s b3"
      unfolding top3 b3 using xs ys p top best [of ?s] by (cases ?s) (auto simp: better_def split: if_splits)
    then show ?thesis by (simp only: True)
  next
    case False
    then have "best_price s2 b3 = best_price s2 b" by (cases ?s; cases s2) (simp_all add: b3_def b2_def)
    then show ?thesis using best False by (simp add: top_price_def lv)
  qed
  ultimately have "book_inv b3" by (simp add: book_inv_side)
  then show "book_inv (insert_resting_order x b)" by (simp add: b')
  show "entries ?s (insert_resting_order x b) = insert_entry ?s (?p, ?i, remaining x) (entries ?s b)"
    "s' \<noteq> ?s \<Longrightarrow> entries s' (insert_resting_order x b) = entries s' b"
    "map_of (b_orders (insert_resting_order x b)) = (map_of (b_orders b))(?i \<mapsto> x)"
    "same_static b (insert_resting_order x b)" "trade_log (insert_resting_order x b) = trade_log b"
    using ent3 oth mo frames by (simp_all add: b' same_static_def trade_log_def [of b] ) (simp add: trade_log_def)
qed


section \<open>Cancelling\<close>

lemma linked_filter:
  assumes "linked s b" "entries s b' = filter (\<lambda>e. entry_id e \<noteq> i) (entries s b)"
    "map_of (b_orders b') = (map_of (b_orders b))(i := None)"
  shows "linked s b'"
  using assms by (auto simp: linked_def distinct_map_filter)

lemma filter_middle:
  assumes "distinct (map f (xs @ ys @ zs))" "i \<in> f ` set ys"
  shows "filter (\<lambda>e. f e \<noteq> i) (xs @ ys @ zs) = xs @ filter (\<lambda>e. f e \<noteq> i) ys @ zs"
proof -
  have "\<forall>e \<in> set xs. f e \<noteq> i" "\<forall>e \<in> set zs. f e \<noteq> i" using assms by auto
  then show ?thesis by simp
qed

lemma level_entries_filter:
  "contents L' = filter (\<lambda>e. fst e \<noteq> i) (contents L) \<Longrightarrow>
    level_entries (p, L') = filter (\<lambda>e. entry_id e \<noteq> i) (level_entries (p, L))"
  by (simp add: level_entries_def filter_map comp_def case_prod_beta)

lemma core_inv_cong:
  assumes "core_inv b" "\<And>s. levels s b' = levels s b" "b_orders b' = b_orders b" "b_config b' = b_config b"
    "b_pending_trades b' = b_pending_trades b"
  shows "core_inv b'"
  using assms by (simp add: core_inv_side linked_def entries_def)

lemma remove_level_spec:
  assumes inv: "book_inv b" and x: "map_of (b_orders b) i = Some x"
  defines "b' \<equiv> remove_order_from_level i (o_side x) (o_price x) b"
  shows "entries (o_side x) b' = filter (\<lambda>e. entry_id e \<noteq> i) (entries (o_side x) b)"
    and "s' \<noteq> o_side x \<Longrightarrow> levels s' b' = levels s' b"
    and "levels_ok (levels s' b')" "no_empty (levels s' b')"
    and "\<exists>m. b' = set_levels (o_side x) m b"
proof -
  let ?s = "o_side x" and ?p = "o_price x"
  let ?m = "levels ?s b"
  have core: "core_inv b" and ne: "\<And>s. no_empty (levels s b)"
    using inv by (auto simp: book_inv_side)
  then have lo: "\<And>s. levels_ok (levels s b)" and lk: "\<And>s. linked s b" by (auto simp: core_inv_side)
  then have srt: "om_sorted ?m" by (simp add: levels_ok_def)
  have "(?p, i, remaining x) \<in> set (entries ?s b)" using lk [of ?s] x by (auto simp: linked_def)
  then obtain L where L: "map_of ?m ?p = Some L" "(i, remaining x) \<in> set (contents L)"
    using srt by (auto simp: entries_set om_find_iff)
  obtain xs ol ys where sp: "prio ?s ?m = xs @ ol @ ys" "\<forall>L. prio ?s (om_put ?p L ?m) = xs @ (?p, L) # ys"
    "prio ?s (om_erase ?p ?m) = xs @ ys" "ol = (case map_of ?m ?p of None \<Rightarrow> [] | Some L \<Rightarrow> [(?p, L)])"
    by (rule level_split [OF srt, of ?s ?p])
  define L1 where "L1 = snd (pl_remove_order i L)"
  have Li: "lvl_inv L" "pl_price L = ?p" "?p \<noteq> INVALID_PRICE"
    using lo [of ?s] L srt by (auto simp: levels_ok_def om_find_iff)
  then have L1: "lvl_inv L1" "contents L1 = filter (\<lambda>e. fst e \<noteq> i) (contents L)" "pl_price L1 = ?p" "pl_empty L1 \<longleftrightarrow> contents L1 = []"
    by (simp_all add: L1_def lq.remove_inv lq.remove_queue lq.empty_queue)
  define m1 where "m1 = (if pl_empty L1 then om_erase ?p ?m else om_put ?p L1 ?m)"
  have b': "b' = set_levels ?s m1 b"
    by (simp add: b'_def remove_order_from_level_def L L1_def m1_def)
  then show "\<exists>m. b' = set_levels ?s m b" by blast
  show "s' \<noteq> ?s \<Longrightarrow> levels s' b' = levels s' b" by (simp add: b')
  have d: "distinct (map entry_id (entries ?s b))" using lk [of ?s] by (simp add: linked_def)
  have ent: "entries ?s b = concat (map level_entries xs) @ level_entries (?p, L) @ concat (map level_entries ys)"
    using sp(1,4) L by (simp add: entries_def)
  have "i \<in> entry_id ` set (level_entries (?p, L))" using L(2) by (force simp: level_entries_def)
  with d have "filter (\<lambda>e. entry_id e \<noteq> i) (entries ?s b) =
      concat (map level_entries xs) @ level_entries (?p, L1) @ concat (map level_entries ys)"
    unfolding ent level_entries_filter [OF L1(2)] by (intro filter_middle)
  moreover have "entries ?s b' = concat (map level_entries xs) @ level_entries (?p, L1) @ concat (map level_entries ys)"
    using sp(2,3) L1(4) by (simp add: entries_def b' m1_def level_entries_def)
  ultimately show "entries ?s b' = filter (\<lambda>e. entry_id e \<noteq> i) (entries ?s b)" by simp
  have sub: "z = (?p, L1) \<and> contents L1 \<noteq> [] \<or> z \<in> set ?m" if "z \<in> set m1" for z
    using that L1(4) prio_simps(3) [of ?s ?m] prio_simps(3) [of ?s "om_put ?p L1 ?m"] sp(1,2)
    by (auto simp: m1_def om_erase_def split: if_splits)
  have "levels_ok m1" using L1 Li lo [of ?s] by (simp add: m1_def levels_ok_put levels_ok_erase)
  then show "levels_ok (levels s' b')" using lo by (cases "s' = ?s") (simp_all add: b')
  have "no_empty m1" using sub ne [of ?s] by (force simp: no_empty_def)
  then show "no_empty (levels s' b')" using ne by (cases "s' = ?s") (simp_all add: b')
qed

lemma cancel_spec:
  assumes inv: "book_inv b" and x: "map_of (b_orders b) i = Some x" and st: "stale x = o_side x"
  shows "book_inv (fst (cancel_order_with stale i b))"
    and "entries s (fst (cancel_order_with stale i b)) = filter (\<lambda>e. entry_id e \<noteq> i) (entries s b)"
    and "map_of (b_orders (fst (cancel_order_with stale i b))) = (map_of (b_orders b))(i := None)"
    and "same_static b (fst (cancel_order_with stale i b))" "trade_log (fst (cancel_order_with stale i b)) = trade_log b"
    and "snd (cancel_order_with stale i b) = (init_result i)\<lparr>r_success := True\<rparr>"
proof -
  let ?s = "o_side x"
  define b1 where "b1 = remove_order_from_level i ?s (o_price x) b"
  define b3 where "b3 = b1\<lparr>b_orders := om_erase i (om_put i (cancel x) (b_orders b1))\<rparr>"
  note rm = remove_level_spec [OF inv x, folded b1_def]
  have b': "cancel_order_with stale i b = (maybe_emit_bbo (update_best ?s b3), (init_result i)\<lparr>r_success := True\<rparr>)"
    using st by (cases ?s) (simp_all add: cancel_order_with_def x Let_def b1_def b3_def)
  then show "snd (cancel_order_with stale i b) = (init_result i)\<lparr>r_success := True\<rparr>" by simp
  have core: "core_inv b" and best: "\<And>s. best_price s b = top_price s b" using inv by (auto simp: book_inv_side)
  obtain m where m: "b1 = set_levels ?s m b" using rm(5) by blast
  have fr: "b_orders b3 = om_erase i (om_put i (cancel x) (b_orders b))" "levels s b3 = levels s b1"
    "b_config b3 = b_config b" "b_pending_trades b3 = b_pending_trades b" "b_out b3 = b_out b" "same_static b b3" for s
    by (simp_all add: b3_def m same_static_def)
  have mo: "map_of (b_orders b3) = (map_of (b_orders b))(i := None)" by (simp add: fr)
  have lk: "linked s b" for s using core by (simp add: core_inv_side)
  have ent: "entries s b3 = filter (\<lambda>e. entry_id e \<noteq> i) (entries s b)" for s
  proof (cases "s = ?s")
    case True
    then show ?thesis using rm(1) by (simp add: entries_def fr)
  next
    case False
    then have "\<forall>e \<in> set (entries s b). entry_id e \<noteq> i" using lk [of s] x by (fastforce dest: linkedD)
    then show ?thesis using False rm(2) by (simp add: entries_def fr filter_id_conv)
  qed
  have "linked s b3" for s by (rule linked_filter [OF lk ent mo])
  moreover have "orders_ok (b_orders b3)" using core by (auto simp: core_inv_side orders_ok_def fr)
  ultimately have "core_inv b3" using core rm(3) by (simp add: core_inv_side fr)
  then have "core_inv (update_best ?s b3)" by (rule core_inv_cong) simp_all
  moreover have "best_price s (update_best ?s b3) = top_price s (update_best ?s b3)" for s
  proof (cases "s = ?s")
    case True
    then show ?thesis by (simp add: update_best_top)
  next
    case False
    then have "best_price s (update_best ?s b3) = best_price s b" by (simp add: b3_def m)
    then show ?thesis using False best rm(2) by (simp add: top_price_def fr)
  qed
  ultimately have "book_inv (update_best ?s b3)" using rm(4) by (simp add: book_inv_side fr)
  then show "book_inv (fst (cancel_order_with stale i b))" by (simp add: b')
  have eu: "entries s (update_best ?s b3) = entries s b3" for s by (simp add: entries_def)
  then show "entries s (fst (cancel_order_with stale i b)) = filter (\<lambda>e. entry_id e \<noteq> i) (entries s b)"
    by (simp add: b' ent)
  show "map_of (b_orders (fst (cancel_order_with stale i b))) = (map_of (b_orders b))(i := None)"
    by (simp add: b' mo)
  show "same_static b (fst (cancel_order_with stale i b))" "trade_log (fst (cancel_order_with stale i b)) = trade_log b"
    using fr by (simp_all add: b' same_static_def trade_log_def [of b]) (simp add: trade_log_def)
qed

end
