(* ===== verification/Adding.thy ===== *)
theory Adding
  imports Resting
begin

text \<open>
  \<^verbatim>\<open>OrderBook::add_order\<close> against a specification on the two lists of entries: \<open>spec_add\<close>
  sweeps the opposite side and inserts what is left, when the kind of order rests, into its own
  side. \<open>add_order_spec\<close> says that on a book satisfying the invariant an admitted order makes
  the code return, keep the invariant and compute exactly that.
\<close>

section \<open>Facts about the sweep\<close>

lemma sweep_ids: "sweep stp ok q es = (fs, es', q') \<Longrightarrow> entry_id ` set fs \<subseteq> entry_id ` set es"
proof (induction stp ok q es arbitrary: fs es' q' rule: sweep.induct)
  case (2 stp ok q p i r es)
  then show ?case by (force split: if_splits prod.splits)
qed simp

text \<open>What is filled and what is left add up to what was asked.\<close>

lemma sweep_conserves:
  "sweep stp ok q es = (fs, es', q') \<Longrightarrow> sum_list (map (\<lambda>e. unat (snd (snd e))) fs) + unat q' = unat q"
proof (induction stp ok q es arbitrary: fs es' q' rule: sweep.induct)
  case (2 stp ok q p i r es)
  show ?case
  proof (cases "q = 0 \<or> \<not> ok p \<or> stp i")
    case True
    with 2 show ?thesis by auto
  next
    case False
    show ?thesis
    proof (cases "r \<le> q")
      case True
      obtain gs zs z where s: "sweep stp ok (q - r) es = (gs, zs, z)" by (metis prod_cases3)
      from 2(1) [OF False True s] have "sum_list (map (\<lambda>e. unat (snd (snd e))) gs) + unat z = unat (q - r)" .
      moreover have "unat r \<le> unat q" using True by (simp add: word_le_nat_alt)
      ultimately show ?thesis using False True 2(2) s by (auto simp: unat_sub)
    qed (use False 2 in auto)
  qed
qed simp

text \<open>Fills follow the queue: whole entries from the front, then at most one part of the next.\<close>

lemma sweep_prefix:
  "sweep stp ok q es = (fs, es', q') \<Longrightarrow>
     (\<exists>taken. es = taken @ es' \<and> fs = taken) \<or>
     (\<exists>taken p i r a rest. es = taken @ (p, i, r) # rest \<and> fs = taken @ [(p, i, a)] \<and>
        es' = (p, i, r - a) # rest \<and> a < r \<and> 0 < a \<and> q' = 0)"
proof (induction stp ok q es arbitrary: fs es' q' rule: sweep.induct)
  case (2 stp ok q p i r es)
  show ?case
  proof (cases "q = 0 \<or> \<not> ok p \<or> stp i")
    case False
    show ?thesis
    proof (cases "r \<le> q")
      case True
      obtain gs zs z where s: "sweep stp ok (q - r) es = (gs, zs, z)" by (metis prod_cases3)
      with 2(2) False True have e: "fs = (p, i, r) # gs" "es' = zs" "q' = z" by auto
      from 2(1) [OF False True s] show ?thesis
        unfolding e by (elim disjE exE conjE) (rule disjI1, force, rule disjI2, metis append_Cons)
    next
      case le: False
      with False 2(2) have "fs = [] @ [(p, i, q)]" "es' = (p, i, r - q) # es" "q' = 0" "q < r" "0 < q"
        by (auto simp: word_gt_0)
      then show ?thesis by (intro disjI2 exI [of _ "[]"]) auto
    qed
  qed (use 2 in auto)
qed simp

lemma sweep_stop:
  "sweep stp ok q es = (fs, es', q') \<Longrightarrow> q' \<noteq> 0 \<Longrightarrow> es' = [] \<or> \<not> ok (fst (hd es')) \<or> stp (entry_id (hd es'))"
proof (induction stp ok q es arbitrary: fs es' q' rule: sweep.induct)
  case (2 stp ok q p i r es)
  then show ?case by (auto split: if_splits prod.splits)
qed simp

lemma sweep_fills_ok:
  "sweep stp ok q es = (fs, es', q') \<Longrightarrow> e \<in> set fs \<Longrightarrow> ok (fst e) \<and> \<not> stp (entry_id e)"
proof (induction stp ok q es arbitrary: fs es' q' rule: sweep.induct)
  case (2 stp ok q p i r es)
  then show ?case by (auto split: if_splits prod.splits)
qed simp

lemma sweep_amount:
  assumes "sweep (\<lambda>_. False) ok q es = (fs, es', q')" "unat q \<le> sum_list (map (\<lambda>e. unat (snd (snd e))) (takeWhile (\<lambda>e. ok (fst e)) es))"
  shows "q' = 0"
  using assms
proof (induction "\<lambda>_::order_id. False" ok q es arbitrary: fs es' q' rule: sweep.induct)
  case (2 ok q p i r es)
  show ?case
  proof (cases "q = 0 \<or> \<not> ok p \<or> \<not> r \<le> q")
    case False
    obtain gs zs z where s: "sweep (\<lambda>_. False) ok (q - r) es = (gs, zs, z)" by (metis prod_cases3)
    have "unat (q - r) \<le> sum_list (map (\<lambda>e. unat (snd (snd e))) (takeWhile (\<lambda>e. ok (fst e)) es))"
      using 2(3) False by (simp add: unat_sub)
    then have "z = 0" using 2(1) [OF _ _ s] False by simp
    then show ?thesis using 2(2) s False by simp
  qed (use 2 in \<open>auto simp: unat_eq_zero split: if_splits\<close>)
qed (simp add: unat_eq_zero)

section \<open>Order of the entries\<close>

lemma entries_sorted:
  assumes "levels_ok (levels s b)"
  shows "sorted_wrt (\<lambda>x y. \<not> better s (fst y) (fst x)) (entries s b)"
proof -
  have 1: "sorted_wrt (\<lambda>x y. better s (fst x) (fst y)) (prio s (levels s b))"
    using assms by (cases s) (auto simp: levels_ok_def om_sorted_def better_def prio_def sorted_wrt_map sorted_wrt_rev)
  have "sorted_wrt (\<lambda>x y. \<not> better s (fst y) (fst x)) (concat (map level_entries ls))"
    if "sorted_wrt (\<lambda>x y. better s (fst x) (fst y)) ls" for ls :: "(price \<times> price_level) list"
    using that
  proof (induction ls)
    case (Cons l ls)
    have "sorted_wrt (\<lambda>x y. \<not> better s (fst y) (fst x)) (level_entries l)"
      by (auto simp: level_entries_def sorted_wrt_map sorted_wrt_iff_nth_less case_prod_beta)
    moreover have "\<forall>x \<in> set (level_entries l). \<forall>y \<in> set (concat (map level_entries ls)). \<not> better s (fst y) (fst x)"
      using Cons.prems by (fastforce simp: level_entries_def dest: better_asym)
    ultimately show ?case using Cons by (simp add: sorted_wrt_append)
  qed simp
  then show ?thesis using 1 by (simp add: entries_def)
qed

lemma prefix_filter:
  assumes "sorted_wrt R xs" "\<And>x y. R x y \<Longrightarrow> x \<in> set xs \<Longrightarrow> y \<in> set xs \<Longrightarrow> P y \<Longrightarrow> P x"
  shows "takeWhile P xs = filter P xs"
  using assms
proof (induction xs)
  case (Cons x xs)
  have "takeWhile P xs = filter P xs" by (rule Cons.IH) (use Cons.prems in auto)
  moreover have "\<not> P x \<Longrightarrow> filter P xs = []" using Cons.prems by (auto simp: filter_empty_conv)
  ultimately show ?case by simp
qed simp

section \<open>Adding an order\<close>

definition rests :: "order \<Rightarrow> bool" where
  "rests x \<longleftrightarrow> \<not> is_ioc x \<and> \<not> is_fok x \<and> (o_type x = Limit \<or> o_type x = PostOnly)"

definition spec_add ::
  "(order_id \<Rightarrow> bool) \<Rightarrow> order \<Rightarrow> entry list \<Rightarrow> entry list \<Rightarrow> entry list \<times> entry list \<times> entry list" where
  "spec_add stp x own opp =
     (case sweep stp (crosses x) (o_quantity x) opp of (fs, opp', q) \<Rightarrow>
        (fs, (if q \<noteq> 0 \<and> rests x then insert_entry (o_side x) (o_price x, o_id x, q) own else own), opp'))"

definition filled_by :: "entry list \<Rightarrow> quantity" where
  "filled_by fs = sum_list (map (snd \<circ> snd) fs)"

text \<open>
  The order passes every check in front of the matching loop. This names a case of the proofs, not of
  the code, and not all refusals: behind the loop \<open>finish_add\<close> still refuses a fill-or-kill order that is
  not filled. \<open>add_order_rejects\<close> has all refusals, in terms of the resting orders.
\<close>

definition admitted :: "order \<Rightarrow> book \<Rightarrow> bool" where
  "admitted x b \<longleftrightarrow>
     o_quantity x \<noteq> 0 \<and> (o_type x = Limit \<longrightarrow> 0 < o_price x) \<and> map_of (b_orders b) (o_id x) = None \<and>
     \<not> (o_type x = PostOnly \<and> c_enable_post_only_rejection (b_config b) \<and> post_only_would_cross x b) \<and>
     \<not> (is_fok x \<and> fok_available (market_price x) (levels (opposite (o_side x)) b) 0 < o_quantity x)"

text \<open>A freshly built order whose price, should it come to rest, is not the sentinel.\<close>

definition order_wf :: "order \<Rightarrow> bool" where
  "order_wf x \<longleftrightarrow> o_filled_qty x = 0 \<and> (rests x \<longrightarrow> o_price x < INVALID_PRICE)"

lemma market_price_simps [simp]:
  "o_id (market_price x) = o_id x" "o_side (market_price x) = o_side x" "o_type (market_price x) = o_type x"
  "o_quantity (market_price x) = o_quantity x" "o_filled_qty (market_price x) = o_filled_qty x"
  "o_tif (market_price x) = o_tif x" "is_fok (market_price x) = is_fok x" "is_ioc (market_price x) = is_ioc x"
  "rests (market_price x) = rests x" "stp_hit b (market_price x) = stp_hit b x"
  "remaining (market_price x) = remaining x" "fill_view (market_price x) = fill_view x"
  by (simp_all add: market_price_def fill_view_def is_fok_def is_ioc_def rests_def stp_hit_def fun_eq_iff remaining_def)

lemma market_price_id [simp]: "o_type x \<noteq> Market \<Longrightarrow> market_price x = x"
  by (simp add: market_price_def)

lemma rests_not_market: "rests x \<Longrightarrow> o_type x \<noteq> Market"
  by (auto simp: rests_def)

lemma add_order_admitted:
  "admitted x b \<Longrightarrow> add_order x b = map_option (\<lambda>(b1, x1). finish_add x1 b1) (match_order (market_price x) b)"
  by (auto simp: add_order_def admitted_def Let_def)

lemma add_order_not_admitted:
  assumes "\<not> admitted x b"
  shows "\<exists>b' r. add_order x b = Some (b', r) \<and> same_book b b' \<and> trade_log b' = trade_log b \<and> \<not> r_success r \<and>
    r_reject_reason r \<noteq> RejNone \<and> r_order_id r = o_id x \<and> r_filled_qty r = 0 \<and> (batch_ok b \<longrightarrow> batch_ok b') \<and>
    (b_out b' = b_out b \<or> r_reject_reason r = WouldCross)"
  using assms
  by (auto simp: add_order_def admitted_def Let_def reject_def init_result_def same_emit_report)

lemma same_static_events:
  "same_static b (flush_trades b)" "same_static b (emit_execution_report x q avg b)" "same_static b (maybe_emit_bbo b)"
  by (simp_all add: same_static_def)

lemma finish_add_spec:
  assumes inv: "book_inv b" and fresh: "map_of (b_orders b) (o_id x) = None"
    and p: "rests x \<longrightarrow> o_price x < INVALID_PRICE" and f: "o_filled_qty x \<le> o_quantity x"
  shows "book_inv (fst (finish_add x b))"
    and "entries (o_side x) (fst (finish_add x b)) =
      (if \<not> is_filled x \<and> rests x then insert_entry (o_side x) (o_price x, o_id x, remaining x) (entries (o_side x) b)
       else entries (o_side x) b)"
    and "s \<noteq> o_side x \<Longrightarrow> entries s (fst (finish_add x b)) = entries s b"
    and "map_of (b_orders (fst (finish_add x b))) =
      (if \<not> is_filled x \<and> rests x then (map_of (b_orders b))(o_id x \<mapsto> x) else map_of (b_orders b))"
    and "same_static b (fst (finish_add x b))" "trade_log (fst (finish_add x b)) = trade_log b"
    and "r_order_id (snd (finish_add x b)) = o_id x"
    and "r_success (snd (finish_add x b)) \<longleftrightarrow> is_ioc x \<or> \<not> is_fok x \<or> is_filled x"
    and "r_filled_qty (snd (finish_add x b)) = (if is_ioc x \<or> \<not> is_fok x \<or> is_filled x then o_filled_qty x else 0)"
proof -
  define b1 where "b1 = (if \<not> is_filled x \<and> rests x then insert_resting_order x b else b)"
  have ins: "\<not> is_filled x \<Longrightarrow> o_filled_qty x < o_quantity x" by (simp add: is_filled_def)
  note spec = insert_spec [OF inv fresh]
  have b1: "book_inv b1"
    "entries (o_side x) b1 = (if \<not> is_filled x \<and> rests x
       then insert_entry (o_side x) (o_price x, o_id x, remaining x) (entries (o_side x) b) else entries (o_side x) b)"
    "s \<noteq> o_side x \<Longrightarrow> entries s b1 = entries s b"
    "map_of (b_orders b1) = (if \<not> is_filled x \<and> rests x then (map_of (b_orders b))(o_id x \<mapsto> x) else map_of (b_orders b))"
    "same_static b b1" "trade_log b1 = trade_log b" for s
    using spec p ins inv by (auto simp: b1_def)
  have sim: "same_book b1 (fst (finish_add x b)) \<and> (batch_ok b1 \<longrightarrow> batch_ok (fst (finish_add x b))) \<and>
     trade_log (fst (finish_add x b)) = trade_log b1"
  proof -
    let ?E = "\<lambda>b. emit_execution_report x (o_filled_qty x) (avg_fill_price x) b"
    have E: "same_book b (?E b)" for b by (rule same_emit_report)
    have F: "same_book b (flush_trades b)" for b by (rule same_flush)
    have "same_book b (?E (?E b))" "same_book b (flush_trades (?E b))" "same_book b (flush_trades (?E (?E b)))" for b
      by (blast intro: E F same_book_trans)+
    with E F show ?thesis
      by (auto simp: finish_add_def Let_def b1_def rests_def)
  qed
  then have sb: "same_book b1 (fst (finish_add x b))" by blast
  show "book_inv (fst (finish_add x b))"
    using book_inv_same [OF b1(1) sb] sim book_inv_batch [OF b1(1)] by blast
  show "entries (o_side x) (fst (finish_add x b)) =
      (if \<not> is_filled x \<and> rests x then insert_entry (o_side x) (o_price x, o_id x, remaining x) (entries (o_side x) b)
       else entries (o_side x) b)"
    "s \<noteq> o_side x \<Longrightarrow> entries s (fst (finish_add x b)) = entries s b"
    using b1(2,3) by (simp_all add: entries_same [OF sb])
  show "map_of (b_orders (fst (finish_add x b))) =
      (if \<not> is_filled x \<and> rests x then (map_of (b_orders b))(o_id x \<mapsto> x) else map_of (b_orders b))"
    using b1(4) by (simp add: same_bookD [OF sb])
  show "same_static b (fst (finish_add x b))"
    using b1(5) same_bookD [OF sb] by (simp add: same_static_def)
  show "trade_log (fst (finish_add x b)) = trade_log b" using sim b1(6) by simp
  show "r_order_id (snd (finish_add x b)) = o_id x"
    "r_success (snd (finish_add x b)) \<longleftrightarrow> is_ioc x \<or> \<not> is_fok x \<or> is_filled x"
    "r_filled_qty (snd (finish_add x b)) = (if is_ioc x \<or> \<not> is_fok x \<or> is_filled x then o_filled_qty x else 0)"
    by (auto simp: finish_add_def Let_def init_result_def)
qed

lemma same_order_flags:
  assumes "same_order x y"
  shows "is_fok y = is_fok x" "is_ioc y = is_ioc x" "rests y = rests x" "o_id y = o_id x" "o_side y = o_side x"
    "o_price y = o_price x" "o_quantity y = o_quantity x"
  using assms by (simp_all add: same_order_def is_fok_def is_ioc_def rests_def)

lemma fresh_not_entry:
  assumes "linked s b" "map_of (b_orders b) i = None"
  shows "i \<notin> entry_id ` set (entries s b)"
  using assms by (force dest: linkedD)

lemma add_order_spec:
  assumes inv: "book_inv b" and adm: "admitted x b" and wf: "order_wf x" and stp: "stp_defined b (market_price x)"
  shows "\<exists>b' r fs. add_order x b = Some (b', r) \<and> book_inv b' \<and> same_static b b' \<and>
     spec_add (stp_hit b x) (market_price x) (entries (o_side x) b) (entries (opposite (o_side x)) b) =
       (fs, entries (o_side x) b', entries (opposite (o_side x)) b') \<and>
     map view (trade_log b') = map view (trade_log b) @ (if b_on_trade b = None then [] else map (fill_view x) fs) \<and>
     r_order_id r = o_id x \<and>
     r_success r = (is_ioc x \<or> \<not> is_fok x \<or> filled_by fs = o_quantity x) \<and>
     r_filled_qty r = (if r_success r then filled_by fs else 0) \<and>
     map_of (b_orders b') (o_id x) = None = (\<not> (rests x \<and> filled_by fs \<noteq> o_quantity x))"
proof -
  let ?m = "market_price x" and ?o = "opposite (o_side x)"
  have f0: "o_filled_qty x = 0" and rem: "remaining x = o_quantity x"
    using wf by (simp_all add: order_wf_def remaining_def)
  from match_order_spec [OF inv _ stp] f0 obtain b1 x1 fs where
    m: "match_order ?m b = Some (b1, x1)" "book_inv b1" "matched b ?m fs b1 x1"
       "sweep (stp_hit b x) (crosses ?m) (o_quantity x) (entries ?o b) = (fs, entries ?o b1, remaining x1)"
       "entries (o_side x) b1 = entries (o_side x) b"
    by (auto simp: rem)
  have so: "same_order ?m x1" and ss: "same_static b b1" and le: "o_filled_qty x1 \<le> o_quantity x1"
    using m(3) by (simp_all add: matched_def)
  note fl = same_order_flags [OF so, simplified]
  have "o_id x \<notin> entry_id ` set fs"
    using sweep_ids [OF m(4)] fresh_not_entry [of ?o b "o_id x"] inv adm
    by (auto simp: book_inv_side core_inv_side admitted_def)
  then have fresh: "map_of (b_orders b1) (o_id x1) = None"
    using m(3) adm by (simp add: matched_def fl admitted_def)
  have p: "rests x1 \<longrightarrow> o_price x1 < INVALID_PRICE"
    using wf rests_not_market [of x] by (auto simp: fl order_wf_def)
  note fin = finish_add_spec [OF m(2) fresh p le]
  have res: "add_order x b = Some (finish_add x1 b1)" using add_order_admitted [OF adm] m(1) by simp
  have filled: "is_filled x1 \<longleftrightarrow> remaining x1 = 0"
    using le by (auto simp: is_filled_def remaining_def)
  have q: "filled_by fs + remaining x1 = o_quantity x"
  proof -
    have "unat (filled_by fs + remaining x1) = unat (o_quantity x) mod 2 ^ 32"
      using sweep_conserves [OF m(4)] unat_sum_list_words [of "map (snd \<circ> snd) fs"]
      by (simp add: filled_by_def unat_word_ariths comp_def mod_add_left_eq)
    also have "\<dots> = unat (o_quantity x)" using unsigned_less [of "o_quantity x", where ?'a = nat] by simp
    finally show ?thesis by (simp add: word_unat_eq_iff)
  qed
  then have fq: "filled_by fs = o_filled_qty x1" "o_filled_qty x1 = o_quantity x \<longleftrightarrow> remaining x1 = 0"
    using fl(7) by (auto simp: remaining_def)
  have "rests x \<Longrightarrow> o_price x1 = o_price x" using rests_not_market [of x] by (simp add: fl)
  then have own: "entries (o_side x) (fst (finish_add x1 b1)) =
      (if remaining x1 \<noteq> 0 \<and> rests x then insert_entry (o_side x) (o_price ?m, o_id x, remaining x1) (entries (o_side x) b)
       else entries (o_side x) b)"
    using fin(2) by (simp add: fl filled m(5) rests_not_market)
  have opp: "entries ?o (fst (finish_add x1 b1)) = entries ?o b1" using fin(3) [of ?o] by (simp add: fl)
  have tl: "map view (trade_log (fst (finish_add x1 b1))) = map view (trade_log b) @ (if b_on_trade b = None then [] else map (fill_view x) fs)"
    using m(3) fin(6) by (simp add: matched_def)
  show ?thesis
    using fin(1,4,5,7,8,9) fresh ss
    by (intro exI [of _ "fst (finish_add x1 b1)"] exI [of _ "snd (finish_add x1 b1)"] exI [of _ fs])
      (auto simp: res spec_add_def m(4) own opp tl fl filled fq intro: same_static_trans)
qed

end
