(* ===== verification/Replacing.thy ===== *)
theory Replacing
  imports Adding
begin

text \<open>
  \<^verbatim>\<open>OrderBook::replace_order\<close>: the in-place branch (same price) and the branch that cancels and
  adds again. \<open>amend_inv_iff\<close> characterises when the in-place branch keeps the book consistent.
\<close>

definition amend_entry :: "order_id \<Rightarrow> quantity \<Rightarrow> entry \<Rightarrow> entry" where
  "amend_entry i q e = (if entry_id e = i then (fst e, i, q) else e)"

lemma amend_level_entries:
  "contents L' = map (\<lambda>e. if fst e = i then (i, q) else e) (contents L) \<Longrightarrow>
     level_entries (p, L') = map (amend_entry i q) (level_entries (p, L))"
  by (auto simp: level_entries_def amend_entry_def)

lemma map_middle:
  assumes "distinct (map f (xs @ ys @ zs))" "i \<in> f ` set ys" "\<And>e. f e \<noteq> i \<Longrightarrow> g e = e"
  shows "map g (xs @ ys @ zs) = xs @ map g ys @ zs"
proof -
  have "\<forall>e \<in> set xs. f e \<noteq> i" "\<forall>e \<in> set zs. f e \<noteq> i" using assms(1,2) by auto
  then have "\<forall>e \<in> set xs. g e = e" "\<forall>e \<in> set zs. g e = e" using assms(3) by blast+
  then show ?thesis by (simp add: map_idI)
qed

lemma amend_map_ids [simp]: "map entry_id (map (amend_entry i q) es) = map entry_id es"
  by (auto simp: amend_entry_def)

text \<open>What the in-place branch of \<^verbatim>\<open>replace_order\<close> does to the book, before any assumption on the quantities.\<close>

lemma amend_effect:
  assumes inv: "book_inv b" and x: "map_of (b_orders b) i = Some x"
  shows "\<exists>b2. replace_order junk i (o_price x) q b = Some (maybe_emit_bbo b2, junk\<lparr>r_success := True\<rparr>) \<and>
    (\<forall>s. entries s b2 = map (amend_entry i q) (entries s b) \<and> levels_ok (levels s b2) \<and> no_empty (levels s b2) \<and>
       best_price s b2 = best_price s b \<and> top_price s b2 = top_price s b) \<and>
    b_orders b2 = om_put i (x\<lparr>o_quantity := q\<rparr>) (b_orders b) \<and> same_static b b2 \<and>
    b_pending_trades b2 = b_pending_trades b \<and> b_out b2 = b_out b"
proof -
  let ?s = "o_side x" and ?p = "o_price x"
  let ?m = "levels ?s b"
  have core: "core_inv b" and ne: "\<And>s. no_empty (levels s b)" using inv by (auto simp: book_inv_side)
  then have lo: "\<And>s. levels_ok (levels s b)" and lk: "\<And>s. linked s b" by (auto simp: core_inv_side)
  then have srt: "om_sorted ?m" by (simp add: levels_ok_def)
  have "(?p, i, remaining x) \<in> set (entries ?s b)" using lk [of ?s] x by (auto simp: linked_def)
  then obtain L where L: "map_of ?m ?p = Some L" "(i, remaining x) \<in> set (contents L)"
    using srt by (auto simp: entries_set om_find_iff)
  obtain xs ol ys where sp: "prio ?s ?m = xs @ ol @ ys" "\<forall>L. prio ?s (om_put ?p L ?m) = xs @ (?p, L) # ys"
    "ol = (case map_of ?m ?p of None \<Rightarrow> [] | Some L \<Rightarrow> [(?p, L)])"
    by (rule level_split [OF srt, of ?s ?p])
  define L1 where "L1 = snd (pl_modify_quantity i q L)"
  have Li: "lvl_inv L" "pl_price L = ?p" "?p \<noteq> INVALID_PRICE" "contents L \<noteq> []"
    using lo [of ?s] L srt by (auto simp: levels_ok_def om_find_iff)
  then have L1: "lvl_inv L1" "contents L1 = map (\<lambda>e. if fst e = i then (i, q) else e) (contents L)" "pl_price L1 = ?p"
    by (simp_all add: L1_def lq.modify_inv lq.modify_queue)
  define b2 where "b2 = (set_levels ?s (om_put ?p L1 ?m) b)\<lparr>b_orders := om_put i (x\<lparr>o_quantity := q\<rparr>) (b_orders b)\<rparr>"
  have lv: "levels ?s b2 = om_put ?p L1 ?m" "s \<noteq> ?s \<Longrightarrow> levels s b2 = levels s b" for s by (simp_all add: b2_def)
  have ent: "entries ?s b = concat (map level_entries xs) @ level_entries (?p, L) @ concat (map level_entries ys)"
    using sp(1,3) L by (simp add: entries_def)
  have d: "distinct (map entry_id (entries ?s b))" using lk [of ?s] by (simp add: linked_def)
  have "i \<in> entry_id ` set (level_entries (?p, L))" using L(2) by (force simp: level_entries_def)
  then have "map (amend_entry i q) (entries ?s b) = concat (map level_entries xs) @ level_entries (?p, L1) @ concat (map level_entries ys)"
    using d unfolding ent amend_level_entries [OF L1(2)] by (intro map_middle [where f = entry_id]) (auto simp: amend_entry_def)
  then have own: "entries ?s b2 = map (amend_entry i q) (entries ?s b)" using sp(2) by (simp add: entries_def lv)
  have oth: "entries s b2 = map (amend_entry i q) (entries s b)" if "s \<noteq> ?s" for s
  proof -
    have "\<forall>e \<in> set (entries s b). entry_id e \<noteq> i" using that lk [of s] x by (fastforce dest: linkedD)
    then have "map (amend_entry i q) (entries s b) = entries s b" by (intro map_idI) (simp add: amend_entry_def)
    then show ?thesis using that by (simp add: entries_def lv)
  qed
  have ne1: "no_empty (om_put ?p L1 ?m)"
  proof -
    have "z = (?p, L1) \<or> z \<in> set ?m" if "z \<in> set (om_put ?p L1 ?m)" for z
      using that sp(1) prio_simps(3) [of ?s ?m] prio_simps(3) [of ?s "om_put ?p L1 ?m"] by (auto simp: sp(2))
    then show ?thesis using ne [of ?s] L1(2) Li(4) by (fastforce simp: no_empty_def)
  qed
  have top: "top_price ?s b2 = top_price ?s b"
    using sp L(1) by (cases xs) (simp_all add: top_price_def lv)
  have "replace_order junk i ?p q b = Some (maybe_emit_bbo b2, junk\<lparr>r_success := True\<rparr>)"
    by (simp add: replace_order_unfold x L Let_def b2_def L1_def)
  moreover have "entries s b2 = map (amend_entry i q) (entries s b)" for s
    using own oth by (cases "s = ?s") simp_all
  moreover have "levels_ok (levels s b2)" for s
    using lo L1 Li by (cases "s = ?s") (simp_all add: lv levels_ok_put)
  moreover have "no_empty (levels s b2)" for s
    using ne ne1 by (cases "s = ?s") (simp_all add: lv)
  moreover have "top_price s b2 = top_price s b" for s
    using top by (cases "s = ?s") (simp_all add: top_price_def lv)
  ultimately show ?thesis
    by (intro exI [of _ b2]) (simp add: b2_def same_static_def)
qed

text \<open>
  The in-place branch keeps the book consistent exactly when the order has had no fill and the new
  quantity is not zero.
\<close>

lemma amend_inv_iff:
  assumes inv: "book_inv b" and x: "map_of (b_orders b) i = Some x"
    and r: "replace_order junk i (o_price x) q b = Some (b', r)"
  shows "book_inv b' \<longleftrightarrow> o_filled_qty x = 0 \<and> q \<noteq> 0"
proof -
  let ?y = "x\<lparr>o_quantity := q\<rparr>"
  have core: "core_inv b" using inv by (simp add: book_inv_def)
  then have lk: "linked s b" for s by (simp add: core_inv_side)
  from amend_effect [OF inv x, of junk q] r obtain b2 where b': "b' = maybe_emit_bbo b2"
    and ent: "\<And>s. entries s b2 = map (amend_entry i q) (entries s b)"
    and lv: "\<And>s. levels_ok (levels s b2)" "\<And>s. no_empty (levels s b2)"
    and best: "\<And>s. best_price s b2 = best_price s b" "\<And>s. top_price s b2 = top_price s b"
    and ob: "b_orders b2 = om_put i ?y (b_orders b)" and ss: "same_static b b2"
    and pend: "b_pending_trades b2 = b_pending_trades b" by auto
  have mem: "(o_price x, i, remaining x) \<in> set (entries (o_side x) b)" using lk [of "o_side x"] x by (auto simp: linked_def)
  have e2: "entries s b' = entries s b2" for s by (simp add: b')
  show ?thesis
  proof
    assume "book_inv b'"
    then have c: "linked (o_side x) b'" "orders_ok (b_orders b')" by (auto simp: book_inv_def core_inv_side)
    from mem have "(o_price x, i, q) \<in> set (entries (o_side x) b')" by (force simp: e2 ent amend_entry_def)
    then have "remaining ?y = q" using c(1) by (auto dest!: linkedD simp: b' ob)
    then have "o_filled_qty x = 0" by (simp add: remaining_def)
    moreover have "map_of (b_orders b') i = Some ?y" by (simp add: b' ob)
    then have "o_filled_qty ?y < o_quantity ?y" using c(2) unfolding orders_ok_def by blast
    ultimately show "o_filled_qty x = 0 \<and> q \<noteq> 0" by auto
  next
    assume q: "o_filled_qty x = 0 \<and> q \<noteq> 0"
    have "linked s b2" for s
      unfolding linked_def
    proof (intro conjI allI)
      show "distinct (map entry_id (entries s b2))" unfolding ent amend_map_ids using lk [of s] by (simp add: linked_def)
      fix p j a
      show "(p, j, a) \<in> set (entries s b2) \<longleftrightarrow>
        (\<exists>y. map_of (b_orders b2) j = Some y \<and> o_side y = s \<and> o_price y = p \<and> remaining y = a)"
      proof (cases "j = i")
        case True
        have "(p, i, a) \<in> set (entries s b2) \<longleftrightarrow> a = q \<and> (\<exists>a0. (p, i, a0) \<in> set (entries s b))"
          by (force simp: ent amend_entry_def)
        also have "\<dots> \<longleftrightarrow> a = q \<and> o_side x = s \<and> o_price x = p" using lk [of s] x by (auto simp: linked_def)
        finally show ?thesis using True q by (auto simp: ob remaining_def)
      next
        case False
        have "(p, j, a) \<in> set (entries s b2) \<longleftrightarrow> (p, j, a) \<in> set (entries s b)"
          using False by (force simp: ent amend_entry_def)
        then show ?thesis using False lk [of s] by (simp add: ob linked_def)
      qed
    qed
    moreover have "orders_ok (b_orders b2)"
      using core x q by (auto simp: ob orders_ok_def core_inv_side word_gt_0)
    ultimately have "core_inv b2" using core lv ss by (simp add: core_inv_side same_static_def pend)
    then have "book_inv b2" using inv lv best by (simp add: book_inv_side)
    then show "book_inv b'" by (simp add: b')
  qed
qed

lemma move_effect:
  assumes x: "map_of (b_orders b) i = Some x" and p: "o_price x \<noteq> p"
  shows "replace_order junk i p q b =
    add_order (mk_order i (o_symbol x) (o_side x) p q (o_type x) (o_tif x)) (fst (cancel_order i b))"
  by (simp add: replace_order_unfold x p Let_def cancel_order_def cancel_order_with_def split_beta)

end
