(* ===== verification/Book_Reach.thy ===== *)
theory Book_Reach
  imports Replacing
begin

text \<open>
  Two notions of a history of a book. \<open>built\<close>: any public calls with any arguments. \<open>reachable\<close>: calls
  that respect a contract the code does not check. Books of the second kind satisfy the invariant,
  have positive prices and, when self-trade prevention is off, two sides that do not cross. The
  fill-or-kill pre-check is related to what matching then fills.
\<close>

section \<open>Any history\<close>

text \<open>
  Every public operation that changes a book, with any order, id, price, quantity and callback,
  whatever a replace finds in its uninitialised result and whatever the read of the erased order
  gives. A call that does not return, or meets the undefined absolute value of self-trade
  prevention, ends the history.
\<close>

inductive built :: "book_config \<Rightarrow> book \<Rightarrow> bool" for cfg where
  built_new: "built cfg (new_book sm cfg clock)"
| built_on_trade: "built cfg b \<Longrightarrow> built cfg (set_trade_callback cb b)"
| built_on_execution: "built cfg b \<Longrightarrow> built cfg (set_execution_callback cb b)"
| built_on_bbo: "built cfg b \<Longrightarrow> built cfg (set_bbo_callback cb b)"
| built_flush: "built cfg b \<Longrightarrow> built cfg (flush_pending b)"
| built_add: "built cfg b \<Longrightarrow> add_order x b = Some (b', r) \<Longrightarrow> built cfg b'"
| built_cancel: "built cfg b \<Longrightarrow> built cfg (fst (cancel_order_with stale i b))"
| built_replace: "built cfg b \<Longrightarrow> replace_order_with stale junk i p q b = Some (b', r) \<Longrightarrow> built cfg b'"

section \<open>Histories that respect the contract\<close>

text \<open>
  The contract of a book, none of which \<^verbatim>\<open>order_book.cpp\<close> checks: an order arrives without fills; an
  order that comes to rest has a positive price below the sentinel; a replace at the same price is for
  an order without fills and not to quantity 0. (With self-trade prevention on, also no two
  ids are \<open>2 ^ 63\<close> apart.) Each clause is needed: \<open>post_only_price_unchecked\<close>, \<open>sentinel_price_hides_order\<close>,
  \<open>zero_price_blocks_matching\<close>, \<open>replace_in_place\<close> and \<open>zero_quantity_trade\<close> show what happens without it.
  Cancels are those whose read of the erased order gives its side; see \<open>cancel_stale_side\<close>.
\<close>

text \<open>An order within the contract, for the book it is sent to. Nothing in the code tests this.\<close>

definition valid_order :: "book \<Rightarrow> order \<Rightarrow> bool" where
  "valid_order b x \<longleftrightarrow> order_wf x \<and> (rests x \<longrightarrow> 0 < o_price x) \<and> stp_defined b (market_price x)"

inductive reachable :: "book_config \<Rightarrow> book \<Rightarrow> bool" for cfg where
  reach_new: "reachable cfg (new_book sm cfg clock)"
| reach_on_trade: "reachable cfg b \<Longrightarrow> reachable cfg (set_trade_callback cb b)"
| reach_on_execution: "reachable cfg b \<Longrightarrow> reachable cfg (set_execution_callback cb b)"
| reach_on_bbo: "reachable cfg b \<Longrightarrow> reachable cfg (set_bbo_callback cb b)"
| reach_flush: "reachable cfg b \<Longrightarrow> reachable cfg (flush_pending b)"
| reach_add: "reachable cfg b \<Longrightarrow> valid_order b x \<Longrightarrow> add_order x b = Some (b', r) \<Longrightarrow> reachable cfg b'"
| reach_cancel: "reachable cfg b \<Longrightarrow> reachable cfg (fst (cancel_order i b))"
| reach_amend: "reachable cfg b \<Longrightarrow> map_of (b_orders b) i = Some x \<Longrightarrow> o_filled_qty x = 0 \<Longrightarrow> q \<noteq> 0 \<Longrightarrow>
    replace_order junk i (o_price x) q b = Some (b', r) \<Longrightarrow> reachable cfg b'"
| reach_move: "reachable cfg b \<Longrightarrow> map_of (b_orders b) i = Some x \<Longrightarrow> o_price x \<noteq> p \<Longrightarrow>
    valid_order (fst (cancel_order i b)) (mk_order i (o_symbol x) (o_side x) p q (o_type x) (o_tif x)) \<Longrightarrow>
    replace_order junk i p q b = Some (b', r) \<Longrightarrow> reachable cfg b'"

definition positive :: "book \<Rightarrow> bool" where
  "positive b \<longleftrightarrow> (\<forall>s. \<forall>e \<in> set (entries s b). 0 < fst e \<and> fst e < INVALID_PRICE)"

definition uncrossed :: "book \<Rightarrow> bool" where
  "uncrossed b \<longleftrightarrow> (\<forall>e \<in> set (entries Buy b). \<forall>f \<in> set (entries Sell b). fst e < fst f)"

definition sound_book :: "book \<Rightarrow> bool" where
  "sound_book b \<longleftrightarrow> book_inv b \<and> positive b \<and> (\<not> c_enable_self_trade_prevention (b_config b) \<longrightarrow> uncrossed b)"

lemma sound_prices:
  assumes "sound_book b" "book_inv b'" "b_config b' = b_config b"
    "\<And>s. fst ` set (entries s b') \<subseteq> fst ` set (entries s b)"
  shows "sound_book b'"
proof -
  have 1: "\<exists>f \<in> set (entries s b). fst f = fst e" if "e \<in> set (entries s b')" for e s
  proof -
    have "fst e \<in> fst ` set (entries s b)" using assms(4) [of s] that by blast
    then show ?thesis by (metis imageE)
  qed
  then have "positive b'" using assms(1) unfolding positive_def sound_book_def by metis
  moreover have "uncrossed b \<Longrightarrow> uncrossed b'" unfolding uncrossed_def using 1 by metis
  ultimately show ?thesis using assms(1-3) by (auto simp: sound_book_def)
qed

lemma sound_same:
  assumes "sound_book b" "same_book b b'" "batch_ok b'"
  shows "sound_book b'"
  using assms book_inv_same [OF _ assms(2,3)]
  by (intro sound_prices [OF assms(1)]) (auto simp: sound_book_def entries_same same_bookD)

lemma new_book_inv: "book_inv (new_book sm cfg clock)"
  by (auto simp: book_inv_def core_inv_def new_book_def levels_ok_def orders_ok_def linked_def entries_def no_empty_def top_price_def)

lemma new_book_entries [simp]: "entries s (new_book sm cfg clock) = []"
  by (cases s) (simp_all add: new_book_def entries_def)

lemma new_book_sound: "sound_book (new_book sm cfg clock)"
  by (simp add: sound_book_def new_book_inv positive_def uncrossed_def)

lemma sweep_prices:
  assumes "sweep stp ok q es = (fs, es', q')"
  shows "fst ` set es' \<subseteq> fst ` set es"
  using sweep_prefix [OF assms] by (elim disjE exE conjE) (simp_all add: image_Un le_supI2 subset_insertI2)

lemma spec_add_cases:
  assumes "spec_add stp (market_price x) own opp = (fs, own', opp')"
  obtains q where "sweep stp (crosses (market_price x)) (o_quantity x) opp = (fs, opp', q)"
    "own' = (if q \<noteq> 0 \<and> rests x then insert_entry (o_side x) (o_price x, o_id x, q) own else own)"
proof -
  obtain gs zs z where "sweep stp (crosses (market_price x)) (o_quantity x) opp = (gs, zs, z)" by (metis prod_cases3)
  then show ?thesis using assms rests_not_market [of x] by (intro that [of z]) (auto simp: spec_add_def)
qed

lemma stp_off: "\<not> c_enable_self_trade_prevention (b_config b) \<Longrightarrow> stp_hit b x = (\<lambda>_. False) \<and> stp_defined b x"
  by (auto simp: stp_hit_def stp_defined_def)

lemma opposite_opposite [simp]: "opposite (opposite s) = s"
  by (cases s) simp_all

lemma uncrossed_side: "uncrossed b \<longleftrightarrow> (\<forall>e \<in> set (entries s b). \<forall>f \<in> set (entries (opposite s) b). better (opposite s) (fst e) (fst f))"
  by (cases s) (auto simp: uncrossed_def better_def)

lemma entry_price_valid: "levels_ok (levels s b) \<Longrightarrow> e \<in> set (entries s b) \<Longrightarrow> fst e \<noteq> INVALID_PRICE"
  by (cases e) (auto simp: entries_set levels_ok_def)

lemma not_crosses_better:
  assumes "\<not> crosses x p" "p \<noteq> 0" "p \<noteq> INVALID_PRICE" "o_type x \<noteq> Market"
  shows "better (opposite (o_side x)) (o_price x) p"
  using assms by (cases "o_side x") (auto simp: crosses_def would_cross_def better_def)

text \<open>With self-trade prevention off, matching before resting keeps the two sides apart.\<close>

lemma add_uncrossed:
  assumes unc: "uncrossed b" and pos: "0 \<notin> fst ` set (entries (opposite (o_side x)) b)"
    and off: "\<not> c_enable_self_trade_prevention (b_config b)"
    and sa: "spec_add (stp_hit b x) (market_price x) (entries (o_side x) b) (entries (opposite (o_side x)) b) =
       (fs, entries (o_side x) b', entries (opposite (o_side x)) b')"
    and lo: "levels_ok (levels (opposite (o_side x)) b')"
  shows "uncrossed b'"
proof -
  let ?s = "o_side x" and ?o = "opposite (o_side x)"
  define es' where o: "es' = entries ?o b'"
  obtain q where sw: "sweep (\<lambda>_. False) (crosses (market_price x)) (o_quantity x) (entries ?o b) = (fs, es', q)"
    and s: "entries ?s b' = (if q \<noteq> 0 \<and> rests x then insert_entry ?s (o_price x, o_id x, q) (entries ?s b) else entries ?s b)"
    using spec_add_cases [OF sa [unfolded stp_off [OF off, THEN conjunct1]]] unfolding o by blast
  note o = o [symmetric]
  have old: "\<forall>e \<in> set (entries ?s b). \<forall>f \<in> set es'. better ?o (fst e) (fst f)"
  proof (intro ballI)
    fix e f
    assume e: "e \<in> set (entries ?s b)" and f: "f \<in> set es'"
    obtain g where "g \<in> set (entries ?o b)" "fst f = fst g"
      using subsetD [OF sweep_prices [OF sw] imageI [OF f]] by (rule imageE)
    then show "better ?o (fst e) (fst f)"
      using unc [unfolded uncrossed_side [of b ?s], THEN bspec, OF e] by simp
  qed
  have "\<forall>f \<in> set es'. better ?o (o_price x) (fst f)" if r: "q \<noteq> 0" "rests x"
  proof (cases es')
    case (Cons h t)
    have ho: "h \<in> set (entries ?o b')" by (simp add: o Cons)
    then have "fst h \<noteq> INVALID_PRICE"
      using lo by (rule entry_price_valid [rotated])
    moreover have "fst h \<noteq> 0"
    proof -
      have "h \<in> set es'" using Cons by simp
      then have "fst h \<in> fst ` set (entries ?o b)" using sweep_prices [OF sw] by blast
      then show ?thesis using pos by metis
    qed
    moreover have "\<not> crosses x (fst h)"
      using sweep_stop [OF sw r(1)] Cons r(2) by (simp add: rests_not_market)
    ultimately have "better ?o (o_price x) (fst h)" using r(2) by (intro not_crosses_better) (simp_all add: rests_not_market)
    moreover have "\<forall>f \<in> set t. \<not> better ?o (fst f) (fst h)"
      using entries_sorted [OF lo] by (simp add: o Cons)
    moreover have "better ?o p a \<Longrightarrow> \<not> better ?o c a \<Longrightarrow> better ?o p c" for p a c
      by (cases "o_side x") (simp_all add: better_def)
    ultimately show ?thesis unfolding Cons list.set ball_simps by blast
  qed simp
  then show ?thesis using old unfolding uncrossed_side [of b' ?s] o s
    by (simp split: if_split)
qed

text \<open>Prices come from the order or were there before.\<close>

lemma spec_add_prices:
  assumes "spec_add stp (market_price x) own opp = (fs, own', opp')"
  shows "fst ` set opp' \<subseteq> fst ` set opp" "fst ` set own' \<subseteq> fst ` set own \<union> (if rests x then {o_price x} else {})"
proof -
  obtain q where sw: "sweep stp (crosses (market_price x)) (o_quantity x) opp = (fs, opp', q)"
    and s: "own' = (if q \<noteq> 0 \<and> rests x then insert_entry (o_side x) (o_price x, o_id x, q) own else own)"
    using spec_add_cases [OF assms] by blast
  show "fst ` set opp' \<subseteq> fst ` set opp" by (rule sweep_prices [OF sw])
  show "fst ` set own' \<subseteq> fst ` set own \<union> (if rests x then {o_price x} else {})" by (auto simp: s)
qed

lemma add_consistent:
  assumes inv: "book_inv b" and wf: "order_wf x" and stp: "stp_defined b (market_price x)"
  shows "\<exists>b' r. add_order x b = Some (b', r) \<and> book_inv b' \<and> b_config b' = b_config b \<and>
    (\<forall>s. fst ` set (entries s b') \<subseteq> fst ` set (entries s b) \<union> (if s = o_side x \<and> rests x then {o_price x} else {})) \<and>
    (\<not> c_enable_self_trade_prevention (b_config b) \<and> uncrossed b \<and> 0 \<notin> fst ` set (entries (opposite (o_side x)) b) \<longrightarrow> uncrossed b')"
proof (cases "admitted x b")
  case False
  with add_order_not_admitted [OF this] obtain b' r where
    1: "add_order x b = Some (b', r)" "same_book b b'" "batch_ok b \<longrightarrow> batch_ok b'" by blast
  then have "book_inv b'" using inv book_inv_batch book_inv_same by blast
  with 1 show ?thesis by (auto simp: entries_same same_bookD uncrossed_def)
next
  case True
  let ?s = "o_side x" and ?o = "opposite (o_side x)"
  from add_order_spec [OF inv True wf stp] obtain b' r fs where 1: "add_order x b = Some (b', r)" "book_inv b'" "same_static b b'"
    and sa: "spec_add (stp_hit b x) (market_price x) (entries ?s b) (entries ?o b) = (fs, entries ?s b', entries ?o b')" by blast
  note p = spec_add_prices [OF sa]
  have pr: "fst ` set (entries s b') \<subseteq> fst ` set (entries s b) \<union> (if s = ?s \<and> rests x then {o_price x} else {})" for s
  proof (cases "s = ?s")
    case False
    then have "s = ?o" by (cases s; cases ?s) auto
    then show ?thesis using p(1) by auto
  qed (use p(2) in simp)
  have "levels_ok (levels ?o b')" using 1(2) by (simp add: book_inv_side core_inv_side)
  with 1 pr add_uncrossed [OF _ _ _ sa] show ?thesis by (auto simp: same_static_def)
qed

lemma add_sound:
  assumes snd: "sound_book b" and v: "valid_order b x" and a: "add_order x b = Some (b', r)"
  shows "sound_book b' \<and> b_config b' = b_config b"
proof -
  have pos: "positive b" and "book_inv b" "order_wf x" "stp_defined b (market_price x)"
    using snd v by (auto simp: sound_book_def valid_order_def)
  from add_consistent [OF this(2-4)] a have 1: "book_inv b'" "b_config b' = b_config b"
    and pr: "\<And>s. fst ` set (entries s b') \<subseteq> fst ` set (entries s b) \<union> (if s = o_side x \<and> rests x then {o_price x} else {})"
    and un: "\<not> c_enable_self_trade_prevention (b_config b) \<and> uncrossed b \<and> 0 \<notin> fst ` set (entries (opposite (o_side x)) b) \<longrightarrow> uncrossed b'"
    by auto
  have old: "\<forall>p \<in> fst ` set (entries s b). 0 < p \<and> p < INVALID_PRICE" for s
    using pos unfolding positive_def by blast
  have new: "rests x \<longrightarrow> 0 < o_price x \<and> o_price x < INVALID_PRICE" using v by (simp add: valid_order_def order_wf_def)
  have "0 < fst e \<and> fst e < INVALID_PRICE" if "e \<in> set (entries s b')" for e s
  proof -
    have "fst e \<in> fst ` set (entries s b) \<union> (if s = o_side x \<and> rests x then {o_price x} else {})" using pr [of s] that by blast
    then show ?thesis using old [of s] new by (auto split: if_splits)
  qed
  then have "positive b'" by (simp add: positive_def)
  moreover have "0 \<notin> fst ` set (entries (opposite (o_side x)) b)" using old [of "opposite (o_side x)"] by force
  ultimately show ?thesis using 1 un snd by (simp add: sound_book_def)
qed

lemma cancel_absent: "map_of (b_orders b) i = None \<Longrightarrow> cancel_order i b = (b, reject i OrderNotFound)"
  by (simp add: cancel_order_def cancel_order_with_def)

lemma cancel_sound: "sound_book b \<Longrightarrow> sound_book (fst (cancel_order i b)) \<and> b_config (fst (cancel_order i b)) = b_config b"
proof (cases "map_of (b_orders b) i")
  case (Some x)
  assume s: "sound_book b"
  then have inv: "book_inv b" by (simp add: sound_book_def)
  note c = cancel_spec [where stale = o_side, OF inv Some refl, folded cancel_order_def]
  have cfg: "b_config (fst (cancel_order i b)) = b_config b" using c(4) by (simp add: same_static_def)
  have "sound_book (fst (cancel_order i b))" by (rule sound_prices [OF s c(1) cfg]) (auto simp: c(2))
  with cfg show ?thesis by simp
qed (simp add: cancel_absent)

lemma amend_sound:
  assumes "sound_book b" "map_of (b_orders b) i = Some x" "o_filled_qty x = 0" "q \<noteq> 0"
    "replace_order junk i (o_price x) q b = Some (b', r)"
  shows "sound_book b' \<and> b_config b' = b_config b"
proof -
  have inv: "book_inv b" using assms(1) by (simp add: sound_book_def)
  obtain b2 where "b' = maybe_emit_bbo b2" "\<And>s. entries s b2 = map (amend_entry i q) (entries s b)" "same_static b b2"
    using amend_effect [OF inv assms(2), of junk q] assms(5) by auto
  moreover from this have "b_config b' = b_config b" by (simp add: same_static_def)
  moreover have "book_inv b'" using amend_inv_iff [OF inv assms(2,5)] assms(3,4) by simp
  moreover have "fst ` set (map (amend_entry i q) es) = fst ` set es" for es
    unfolding set_map image_image by (intro image_cong) (simp_all add: amend_entry_def)
  ultimately show ?thesis by (intro conjI sound_prices [OF assms(1)]) simp_all
qed

lemma callback_same:
  assumes "sound_book b"
  shows "sound_book (set_trade_callback cb b)" "sound_book (set_execution_callback cb b)" "sound_book (set_bbo_callback cb b)"
proof -
  have 1: "sound_book b'" if "core_inv b'" "\<And>s. levels s b' = levels s b" "\<And>s. best_price s b' = best_price s b" "b_config b' = b_config b" for b'
    using assms that by (simp add: sound_book_def book_inv_side top_price_def positive_def uncrossed_def entries_def)
  have c: "core_inv b" using assms by (simp add: sound_book_def book_inv_def)
  have lv: "levels s (set_trade_callback cb b) = levels s b \<and> levels s (set_execution_callback cb b) = levels s b \<and>
      levels s (set_bbo_callback cb b) = levels s b \<and> best_price s (set_trade_callback cb b) = best_price s b \<and>
      best_price s (set_execution_callback cb b) = best_price s b \<and> best_price s (set_bbo_callback cb b) = best_price s b" for s
    by (cases s) (simp_all add: set_trade_callback_def set_execution_callback_def set_bbo_callback_def)
  have fr: "b_orders (set_trade_callback cb b) = b_orders b \<and> b_config (set_trade_callback cb b) = b_config b \<and>
      b_pending_trades (set_trade_callback cb b) = b_pending_trades b"
    "b_orders (set_execution_callback cb b) = b_orders b \<and> b_config (set_execution_callback cb b) = b_config b \<and>
      b_pending_trades (set_execution_callback cb b) = b_pending_trades b"
    "b_orders (set_bbo_callback cb b) = b_orders b \<and> b_config (set_bbo_callback cb b) = b_config b \<and>
      b_pending_trades (set_bbo_callback cb b) = b_pending_trades b"
    by (simp_all add: set_trade_callback_def set_execution_callback_def set_bbo_callback_def)
  show "sound_book (set_trade_callback cb b)"
    by (rule 1 [OF core_inv_cong [OF c]]) (use lv fr in auto)
  show "sound_book (set_execution_callback cb b)"
    by (rule 1 [OF core_inv_cong [OF c]]) (use lv fr in auto)
  show "sound_book (set_bbo_callback cb b)"
    by (rule 1 [OF core_inv_cong [OF c]]) (use lv fr in auto)
qed

lemma callback_config: "b_config (set_trade_callback cb b) = b_config b" "b_config (set_execution_callback cb b) = b_config b"
  "b_config (set_bbo_callback cb b) = b_config b" "b_config (new_book sm cfg clock) = cfg"
  by (simp_all add: set_trade_callback_def set_execution_callback_def set_bbo_callback_def new_book_def)

lemma reachable_sound: "reachable cfg b \<Longrightarrow> sound_book b \<and> b_config b = cfg"
proof (induction rule: reachable.induct)
  case (reach_move b i x p q junk b' r)
  have "add_order (mk_order i (o_symbol x) (o_side x) p q (o_type x) (o_tif x)) (fst (cancel_order i b)) = Some (b', r)"
    using move_effect [OF reach_move(2,3)] reach_move(5) by simp
  with reach_move add_sound cancel_sound show ?case by metis
next
  case (reach_flush b)
  then have "batch_ok (flush_pending b)" by (simp add: sound_book_def book_inv_batch flush_pending_def)
  then show ?case using reach_flush sound_same [of b "flush_pending b"] same_flush [of b] by (simp add: flush_pending_def)
qed (auto simp: new_book_sound callback_same callback_config dest: add_sound cancel_sound amend_sound)

lemma reachable_built: "reachable cfg b \<Longrightarrow> built cfg b"
proof (induction rule: reachable.induct)
  case (reach_cancel b i)
  then show ?case unfolding cancel_order_def by (intro built_cancel)
next
  case (reach_amend b i x q junk b' r)
  then show ?case unfolding replace_order_def by (blast intro: built_replace)
next
  case (reach_move b i x p q junk b' r)
  then show ?case unfolding replace_order_def by (blast intro: built_replace)
qed (blast intro: built.intros)+

section \<open>The fill-or-kill pre-check\<close>

definition amount :: "entry list \<Rightarrow> nat" where
  "amount es = sum_list (map (\<lambda>e. unat (snd (snd e))) es)"

lemma amount_append [simp]: "amount (xs @ ys) = amount xs + amount ys" "amount [] = 0"
  by (simp_all add: amount_def)

lemma amount_level: "amount (level_entries e) = sum_list (map (unat \<circ> snd) (contents (snd e)))"
  by (simp add: amount_def level_entries_def comp_def case_prod_beta)

lemma fok_available_le:
  assumes "\<forall>(p, L) \<in> set ls. lvl_inv L"
  shows "unat (fok_available x ls a) \<le>
    unat a + amount (concat (map level_entries (filter (\<lambda>l. o_type x = Market \<or> would_cross x (fst l)) ls)))"
  using assms
proof (induction x ls a rule: fok_available.induct)
  case (2 x p L ls a)
  let ?P = "o_type x = Market \<or> would_cross x p"
  have "unat (pl_total_quantity L) \<le> amount (level_entries (p, L))"
    using 2(2) lq.total_bound [of L] by (simp add: amount_level)
  moreover have "unat (a + pl_total_quantity L) \<le> unat a + unat (pl_total_quantity L)"
    by (simp add: unat_word_ariths)
  ultimately have 1: "unat (if ?P then a + pl_total_quantity L else a) \<le> unat a + (if ?P then amount (level_entries (p, L)) else 0)"
    by (cases ?P) simp_all
  show ?case using 1 2 by (auto simp: Let_def split: if_splits)
qed simp

lemma amount_rev: "amount (concat (map f (rev xs))) = amount (concat (map f xs))"
  by (induction xs) simp_all

lemma filter_level_entries:
  "filter (\<lambda>e. P (fst e)) (concat (map level_entries ls)) = concat (map level_entries (filter (\<lambda>l. P (fst l)) ls))"
  by (induction ls) (auto simp: level_entries_def filter_True filter_empty_conv case_prod_beta)

lemma fok_enough:
  assumes snd: "sound_book b" and a: "o_quantity x \<le> fok_available x (levels s b) 0" and s: "s = opposite (o_side x)"
    and sw: "sweep (\<lambda>_. False) (crosses x) (o_quantity x) (entries s b) = (fs, es', q)"
  shows "q = 0"
proof (rule sweep_amount [OF sw])
  have core: "core_inv b" and pos: "positive b" using snd by (auto simp: sound_book_def book_inv_def)
  then have lo: "levels_ok (levels s b)" by (simp add: core_inv_side)
  let ?P = "\<lambda>p. o_type x = Market \<or> would_cross x p"
  have cr: "crosses x (fst e) \<longleftrightarrow> ?P (fst e)" if "e \<in> set (entries s b)" for e
  proof -
    have "fst e \<noteq> INVALID_PRICE" using lo that by (rule entry_price_valid)
    moreover have "fst e \<noteq> 0" using pos that by (fastforce simp: positive_def)
    ultimately show ?thesis by (simp add: crosses_def)
  qed
  have "takeWhile (\<lambda>e. crosses x (fst e)) (entries s b) = filter (\<lambda>e. crosses x (fst e)) (entries s b)"
  proof (rule prefix_filter [OF entries_sorted [OF lo]])
    fix e f
    assume "\<not> better s (fst f) (fst e)" "e \<in> set (entries s b)" "f \<in> set (entries s b)" "crosses x (fst f)"
    then show "crosses x (fst e)" using s by (cases "o_side x") (auto simp: cr better_def would_cross_def)
  qed
  also have "\<dots> = filter (\<lambda>e. ?P (fst e)) (entries s b)" using cr by (intro filter_cong) auto
  also have "amount \<dots> = amount (concat (map level_entries (filter (\<lambda>l. ?P (fst l)) (levels s b))))"
    by (cases s) (simp_all add: entries_def filter_level_entries [where P = ?P] amount_rev rev_filter [symmetric])
  finally have am: "amount (takeWhile (\<lambda>e. crosses x (fst e)) (entries s b)) = \<dots>" by simp
  have "unat (o_quantity x) \<le> unat (fok_available x (levels s b) 0)" using a by (simp add: word_le_nat_alt)
  also have "\<dots> \<le> amount (concat (map level_entries (filter (\<lambda>l. ?P (fst l)) (levels s b))))"
    using fok_available_le [of "levels s b" x 0] lo by (auto simp: levels_ok_def)
  finally show "unat (o_quantity x) \<le> sum_list (map (\<lambda>e. unat (snd (snd e))) (takeWhile (\<lambda>e. crosses x (fst e)) (entries s b)))"
    using am by (simp add: amount_def)
qed

lemma fok_fills:
  assumes snd: "sound_book b" and off: "\<not> c_enable_self_trade_prevention (b_config b)" and adm: "admitted x b"
    and v: "valid_order b x" and fok: "is_fok x"
  shows "\<exists>b' r. add_order x b = Some (b', r) \<and> r_success r \<and> r_filled_qty r = o_quantity x"
proof -
  let ?s = "opposite (o_side x)"
  have inv: "book_inv b" using snd by (simp add: sound_book_def)
  have "order_wf x" "stp_defined b (market_price x)" using v by (simp_all add: valid_order_def)
  from add_order_spec [OF inv adm this] obtain b' r fs where a: "add_order x b = Some (b', r)"
    and sa: "spec_add (stp_hit b x) (market_price x) (entries (o_side x) b) (entries ?s b) = (fs, entries (o_side x) b', entries ?s b')"
    and r: "r_success r = (is_ioc x \<or> \<not> is_fok x \<or> filled_by fs = o_quantity x)" "r_filled_qty r = (if r_success r then filled_by fs else 0)"
    by blast
  obtain q where sw: "sweep (\<lambda>_. False) (crosses (market_price x)) (o_quantity (market_price x)) (entries ?s b) = (fs, entries ?s b', q)"
    using spec_add_cases [OF sa [unfolded stp_off [OF off, THEN conjunct1]]] by auto
  have "o_quantity x \<le> fok_available (market_price x) (levels ?s b) 0" using adm fok by (auto simp: admitted_def not_less)
  then have "q = 0" by (rule fok_enough [OF snd _ _ sw, unfolded market_price_simps, OF _ refl])
  then have "amount fs = unat (o_quantity x)" using sweep_conserves [OF sw] by (simp add: amount_def)
  then have "unat (filled_by fs) = unat (o_quantity x) mod 2 ^ 32"
    using unat_sum_list_words [of "map (snd \<circ> snd) fs"] by (simp add: filled_by_def amount_def comp_def)
  then have "filled_by fs = o_quantity x"
    using unsigned_less [of "o_quantity x", where ?'a = nat] by (simp add: word_unat_eq_iff)
  with a r show ?thesis by auto
qed

text \<open>From below: as long as the sum fits in 32 bits, the pre-check refuses no order the book can fill.\<close>

lemma fok_available_ge:
  assumes "\<forall>(p, L) \<in> set ls. lvl_inv L"
    "unat a + amount (concat (map level_entries (filter (\<lambda>l. o_type x = Market \<or> would_cross x (fst l)) ls))) < 2 ^ 32"
  shows "o_quantity x \<le> fok_available x ls a \<or>
    unat (fok_available x ls a) = unat a + amount (concat (map level_entries (filter (\<lambda>l. o_type x = Market \<or> would_cross x (fst l)) ls)))"
  using assms
proof (induction x ls a rule: fok_available.induct)
  case (2 x p L ls a)
  let ?P = "o_type x = Market \<or> would_cross x p"
  let ?a = "if ?P then a + pl_total_quantity L else a"
  let ?r = "amount (concat (map level_entries (filter (\<lambda>l. o_type x = Market \<or> would_cross x (fst l)) ls)))"
  have t: "unat (pl_total_quantity L) = amount (level_entries (p, L)) mod 2 ^ 32"
    using 2(2) lq.total_queue [of L] unat_sum_list_words [of "map snd (contents L)"] by (simp add: amount_level comp_def)
  have sum: "unat a + (if ?P then amount (level_entries (p, L)) else 0) + ?r < 2 ^ 32" using 2(3) by (cases ?P) simp_all
  then have a: "unat ?a = unat a + (if ?P then amount (level_entries (p, L)) else 0)"
    using t by (cases ?P) (simp_all add: unat_word_ariths)
  show ?case
  proof (cases "o_quantity x \<le> ?a")
    case True
    then show ?thesis by (simp add: Let_def)
  next
    case False
    have "o_quantity x \<le> fok_available x ls ?a \<or> unat (fok_available x ls ?a) = unat ?a + ?r"
      by (rule 2(1) [OF refl False]) (use 2(2) sum a in auto)
    then show ?thesis using False a by (cases ?P) (simp_all add: Let_def add.assoc)
  qed
qed simp

lemma crossing_amount:
  "amount (concat (map level_entries (filter (\<lambda>l. P (fst l)) (levels s b)))) = amount (filter (\<lambda>e. P (fst e)) (entries s b))"
  by (cases s) (simp_all add: entries_def filter_level_entries [where P = P] amount_rev rev_filter [symmetric])

lemma fok_admits:
  assumes inv: "book_inv b" and q: "unat (o_quantity x) \<le> amount (filter (\<lambda>e. o_type x = Market \<or> would_cross x (fst e)) (entries s b))"
    and w: "amount (filter (\<lambda>e. o_type x = Market \<or> would_cross x (fst e)) (entries s b)) < 2 ^ 32"
  shows "\<not> fok_available x (levels s b) 0 < o_quantity x"
proof -
  have "\<forall>(p, L) \<in> set (levels s b). lvl_inv L" using inv by (auto simp: book_inv_side core_inv_side levels_ok_def)
  from fok_available_ge [OF this, of 0 x] show ?thesis
    using q w crossing_amount [of "\<lambda>p. o_type x = Market \<or> would_cross x p" s b] by (auto simp: word_less_nat_alt word_le_nat_alt)
qed

lemma fok_within:
  assumes inv: "book_inv b" and a: "\<not> fok_available x (levels s b) 0 < o_quantity x"
  shows "unat (o_quantity x) \<le> amount (filter (\<lambda>e. o_type x = Market \<or> would_cross x (fst e)) (entries s b))"
proof -
  have "\<forall>(p, L) \<in> set (levels s b). lvl_inv L" using inv by (auto simp: book_inv_side core_inv_side levels_ok_def)
  from fok_available_le [OF this, of x 0] show ?thesis
    using a crossing_amount [of "\<lambda>p. o_type x = Market \<or> would_cross x p" s b] by (simp add: word_less_nat_alt)
qed

end
