(* ===== verification/Market_Depth.thy ===== *)
theory Market_Depth
  imports Book_Reach
begin

text \<open>
  \<^verbatim>\<open>get_bids\<close>, \<^verbatim>\<open>get_asks\<close>, \<^verbatim>\<open>order_count\<close> and \<^verbatim>\<open>level_count\<close> against the entries of the
  book: one line per price with the sum and the number of the orders that rest there.
\<close>

section \<open>Depth\<close>

text \<open>The aggregated view of one side: one line per price, best price first.\<close>

definition depth_of :: "side \<Rightarrow> book \<Rightarrow> price_level_update list" where
  "depth_of s b = map (\<lambda>p. \<lparr>u_price = p,
       u_quantity = sum_list (map (snd \<circ> snd) (filter (\<lambda>e. fst e = p) (entries s b))),
       u_order_count = of_nat (length (filter (\<lambda>e. fst e = p) (entries s b)))\<rparr>)
     (remdups_adj (map fst (entries s b)))"

lemma remdups_adj_block: "remdups_adj (replicate (Suc n) p @ ys) = (if ys \<noteq> [] \<and> hd ys = p then remdups_adj ys else p # remdups_adj ys)"
proof (induction n)
  case 0
  then show ?case by (cases ys) auto
next
  case (Suc n)
  then show ?case by simp
qed

lemma level_entries_prices: "map fst (level_entries l) = replicate (length (contents (snd l))) (fst l)"
  by (simp add: level_entries_def comp_def case_prod_beta map_replicate_const)

lemma block_prices_sub: "fst ` set (concat (map level_entries ls)) \<subseteq> fst ` set ls"
  by (induction ls) (auto simp: level_entries_def)

lemma blocks_prices:
  assumes "distinct (map fst ls)" "\<forall>l \<in> set ls. contents (snd l) \<noteq> []"
  shows "remdups_adj (map fst (concat (map level_entries ls))) = map fst ls"
  using assms
proof (induction ls)
  case (Cons l ls)
  let ?ys = "map fst (concat (map level_entries ls))"
  obtain n where n: "length (contents (snd l)) = Suc n" using Cons.prems(2) by (cases "contents (snd l)") auto
  have "fst l \<notin> set ?ys" using Cons.prems(1) block_prices_sub [of ls] by (auto simp del: set_concat)
  then have "\<not> (?ys \<noteq> [] \<and> hd ?ys = fst l)" using hd_in_set by metis
  then show ?case using Cons by (simp add: level_entries_prices n del: replicate_Suc) (simp add: remdups_adj_block del: replicate_Suc)
qed simp

lemma blocks_filter:
  assumes "distinct (map fst ls)" "l \<in> set ls"
  shows "filter (\<lambda>e. fst e = fst l) (concat (map level_entries ls)) = level_entries l"
  using assms
proof (induction ls)
  case (Cons k ls)
  show ?case
  proof (cases "l = k")
    case True
    have "filter (\<lambda>e. fst e = fst l) (concat (map level_entries ls)) = []"
      unfolding filter_empty_conv using Cons.prems(1) True block_prices_sub [of ls]
      by (metis distinct.simps(2) image_eqI list.simps(9) set_map subsetD)
    moreover have "filter (\<lambda>e. fst e = fst l) (level_entries l) = level_entries l"
      by (auto simp: filter_id_conv level_entries_def)
    ultimately show ?thesis by (simp add: True)
  next
    case False
    then have "l \<in> set ls" using Cons.prems(2) by simp
    then have "fst l \<noteq> fst k" using Cons.prems(1) by (metis distinct.simps(2) image_eqI list.simps(9) set_map)
    then have "filter (\<lambda>e. fst e = fst l) (level_entries k) = []" by (auto simp: filter_empty_conv level_entries_def)
    then show ?thesis using False Cons by simp
  qed
qed simp

lemma depth_levels:
  assumes "levels_ok (levels s b)" "no_empty (levels s b)"
  shows "depth_of s b = map level_update (prio s (levels s b))"
proof -
  let ?ls = "prio s (levels s b)"
  have d: "distinct (map fst ?ls)" using assms(1) by (cases s) (auto simp: levels_ok_def om_distinct rev_map [symmetric])
  have n: "\<forall>l \<in> set ?ls. contents (snd l) \<noteq> []" using assms(2) by (simp add: no_empty_def)
  have "level_update l = \<lparr>u_price = fst l,
       u_quantity = sum_list (map (snd \<circ> snd) (filter (\<lambda>e. fst e = fst l) (entries s b))),
       u_order_count = of_nat (length (filter (\<lambda>e. fst e = fst l) (entries s b)))\<rparr>" if "l \<in> set ?ls" for l
  proof -
    have "lvl_inv (snd l)" using assms(1) that by (auto simp: levels_ok_def)
    then show ?thesis
      using that by (simp add: entries_def blocks_filter [OF d that] level_update_def level_entries_def lq.total_queue
          count_law comp_def case_prod_beta)
  qed
  then show ?thesis by (simp add: depth_of_def blocks_prices [OF d n] entries_def comp_def)
qed

lemma sort_key_id: "sorted (map f xs) \<Longrightarrow> sort_key f xs = xs"
  by (induction xs) (auto simp: insort_is_Cons)

lemma insort_last: "\<forall>y \<in> set ys. f y < f x \<Longrightarrow> insort_key f x ys = ys @ [x]"
  by (induction ys) auto

lemma sort_key_rev: "sorted_wrt (<) (map f xs) \<Longrightarrow> sort_key (\<lambda>e. - f e :: int) xs = rev xs"
  by (induction xs) (simp_all add: insort_last)

lemma live_levels:
  assumes "levels_ok m" "no_empty m"
  shows "filter (\<lambda>e. \<not> pl_empty (snd e)) m = m"
  unfolding filter_id_conv
proof
  fix e
  assume "e \<in> set m"
  moreover from this have "lvl_inv (snd e)" using assms(1) by (auto simp: levels_ok_def)
  ultimately show "\<not> pl_empty (snd e)" using assms(2) by (simp add: no_empty_def lq.empty_queue)
qed

lemma get_bids_depth:
  assumes "book_inv b"
  shows "get_bids d b = take d (depth_of Buy b)"
proof -
  have lo: "levels_ok (levels Buy b)" and ne: "no_empty (levels Buy b)" using assms by (auto simp: book_inv_def core_inv_def)
  have "filter (\<lambda>e. \<not> pl_empty (snd e)) (b_bid_levels b) = b_bid_levels b"
    using live_levels [OF lo ne] by simp
  moreover have "sort_key (\<lambda>e. - fst e) (b_bid_levels b) = rev (b_bid_levels b)"
    using lo by (intro sort_key_rev) (simp add: levels_ok_def om_sorted_def)
  ultimately show ?thesis by (simp add: get_bids_def Let_def depth_levels [OF lo ne] take_map min_def)
qed

lemma get_asks_depth:
  assumes "book_inv b"
  shows "get_asks d b = take d (depth_of Sell b)"
proof -
  have lo: "levels_ok (levels Sell b)" and ne: "no_empty (levels Sell b)" using assms by (auto simp: book_inv_def core_inv_def)
  have "filter (\<lambda>e. \<not> pl_empty (snd e)) (b_ask_levels b) = b_ask_levels b"
    using live_levels [OF lo ne] by simp
  moreover have "sort_key fst (b_ask_levels b) = b_ask_levels b"
    using lo by (intro sort_key_id) (simp add: levels_ok_def om_sorted_def strict_sorted_imp_sorted)
  ultimately show ?thesis by (simp add: get_asks_def Let_def depth_levels [OF lo ne] take_map min_def)
qed

section \<open>Counts\<close>

lemma order_count_entries:
  assumes "book_inv b"
  shows "order_count b = length (entries Buy b) + length (entries Sell b)"
proof -
  let ?B = "map entry_id (entries Buy b)" and ?S = "map entry_id (entries Sell b)"
  have core: "core_inv b" using assms by (simp add: book_inv_def)
  then have lk: "linked Buy b" "linked Sell b" and srt: "om_sorted (b_orders b)" by (auto simp: core_inv_def orders_ok_def)
  have B: "set ?B = {i. \<exists>x. map_of (b_orders b) i = Some x \<and> o_side x = Buy}"
    using lk(1) by (force simp: linked_def image_iff)
  have S: "set ?S = {i. \<exists>x. map_of (b_orders b) i = Some x \<and> o_side x = Sell}"
    using lk(2) by (force simp: linked_def image_iff)
  have "dom (map_of (b_orders b)) = set ?B \<union> set ?S"
    unfolding B S by (auto simp: dom_def) (metis side.exhaust)
  moreover have "set ?B \<inter> set ?S = {}" unfolding B S by auto
  ultimately have "card (dom (map_of (b_orders b))) = card (set ?B) + card (set ?S)" by (simp add: card_Un_disjoint)
  also have "\<dots> = length ?B + length ?S"
    using lk by (simp only: linked_def distinct_card)
  finally show ?thesis using om.size_dom [OF srt] by (simp add: order_count_def)
qed

lemma level_count_prices:
  assumes "book_inv b"
  shows "level_count s b = card (fst ` set (entries s b))"
proof -
  have lo: "levels_ok (levels s b)" and ne: "no_empty (levels s b)" using assms by (auto simp: book_inv_side core_inv_side)
  have "fst ` set (entries s b) = fst ` set (levels s b)"
  proof
    show "fst ` set (levels s b) \<subseteq> fst ` set (entries s b)"
    proof
      fix p
      assume "p \<in> fst ` set (levels s b)"
      then obtain L where "(p, L) \<in> set (levels s b)" by force
      moreover from this have "contents L \<noteq> []" using ne by (force simp: no_empty_def)
      moreover from this obtain i q where "(i, q) \<in> set (contents L)" by (cases "contents L") auto
      ultimately have "(p, i, q) \<in> set (entries s b)" by (auto simp: entries_set)
      then show "p \<in> fst ` set (entries s b)" by force
    qed
  qed (force simp: entries_set)
  then show ?thesis using lo om_distinct [of "levels s b"] distinct_card [of "map fst (levels s b)"]
    by (simp add: level_count_def levels_ok_def)
qed

end
