(* ===== verification/Demo_Book.thy ===== *)
theory Demo_Book
  imports Market_Depth
begin

text \<open>
  One small reachable book, built by \<^verbatim>\<open>add_order\<close>, at which the properties of the order book
  are instantiated.
\<close>

section \<open>A small book for the witnesses\<close>

definition demo_symbol :: symbol where
  "demo_symbol = symbol_of_cstr [65, 66, 67]"

definition demo_order :: "order_id \<Rightarrow> side \<Rightarrow> price \<Rightarrow> quantity \<Rightarrow> order_type \<Rightarrow> time_in_force \<Rightarrow> order" where
  "demo_order i s p q ty tif = mk_order i demo_symbol s p q ty tif"

text \<open>A batched trade callback, then three asks at two prices and one bid.\<close>

definition demo_add :: "order \<Rightarrow> book \<Rightarrow> book" where
  "demo_add x b = (case add_order x b of Some (b', r) \<Rightarrow> b' | None \<Rightarrow> b)"

definition demo_start :: "book_config \<Rightarrow> book" where
  "demo_start cfg = set_trade_callback (Some 0) (new_book demo_symbol cfg (\<lambda>n. of_nat n))"

definition demo_book :: book where
  "demo_book =
     demo_add (demo_order 4 Buy 98 70 Limit Day)
      (demo_add (demo_order 3 Sell 101 40 Limit Day)
        (demo_add (demo_order 2 Sell 100 30 Limit Day)
          (demo_add (demo_order 1 Sell 100 50 Limit Day) (demo_start default_config))))"

lemma demo_reach_step:
  assumes "reachable cfg b" "valid_order b x" "add_order x b \<noteq> None"
  shows "reachable cfg (demo_add x b)"
proof -
  obtain b' r where "add_order x b = Some (b', r)" using assms(3) by (cases "add_order x b") auto
  with assms(1,2) show ?thesis by (auto simp: demo_add_def intro: reach_add)
qed

lemma valid_order_off:
  assumes "reachable cfg b" "\<not> c_enable_self_trade_prevention cfg" "order_wf x" "rests x \<longrightarrow> 0 < o_price x"
  shows "valid_order b x"
  using assms reachable_sound [OF assms(1)] by (simp add: valid_order_def stp_off)

lemma default_config_off [simp]: "\<not> c_enable_self_trade_prevention default_config"
  by (simp add: default_config_def)

lemma demo_orders_wf:
  "order_wf (demo_order 4 Buy 98 70 Limit Day)" "order_wf (demo_order 3 Sell 101 40 Limit Day)"
  "order_wf (demo_order 2 Sell 100 30 Limit Day)" "order_wf (demo_order 1 Sell 100 50 Limit Day)"
  "order_wf (demo_order 9 Buy 100 60 Limit Day)"
  by code_simp+

lemma add_total:
  assumes "reachable cfg b" "valid_order b x"
  shows "add_order x b \<noteq> None"
proof (cases "admitted x b")
  case True
  have "book_inv b" using reachable_sound [OF assms(1)] by (simp add: sound_book_def)
  from add_order_spec [OF this True] assms(2) show ?thesis by (auto simp: valid_order_def)
next
  case False
  from add_order_not_admitted [OF this] show ?thesis by auto
qed

lemma demo_reach:
  assumes "reachable default_config b" "order_wf x" "rests x \<longrightarrow> 0 < o_price x"
  shows "reachable default_config (demo_add x b)"
proof -
  have v: "valid_order b x" using assms default_config_off valid_order_off by blast
  show ?thesis by (rule demo_reach_step [OF assms(1) v add_total [OF assms(1) v]])
qed

lemma demo_limit:
  assumes r: "reachable default_config b" and x: "x = demo_order i s p q Limit Day" "0 < p" "p < INVALID_PRICE" "q \<noteq> 0"
    and f: "\<forall>t. \<forall>e \<in> set (entries t b). entry_id e \<noteq> i"
  shows "reachable default_config (demo_add x b)"
    and "\<exists>fs. spec_add (\<lambda>_. False) x (entries s b) (entries (opposite s) b) =
      (fs, entries s (demo_add x b), entries (opposite s) (demo_add x b))"
    and "b_on_trade (demo_add x b) = b_on_trade b"
proof -
  have flags: "rests x" "o_id x = i" "o_side x = s" "market_price x = x" "order_wf x" "o_price x = p" "o_quantity x = q" "o_type x = Limit" "\<not> is_fok x"
    using x by (auto simp: demo_order_def mk_order_def rests_def is_ioc_def is_fok_def order_wf_def)
  show "reachable default_config (demo_add x b)" using r flags x by (intro demo_reach) simp_all
  have inv: "book_inv b" and off: "\<not> c_enable_self_trade_prevention (b_config b)"
    using reachable_sound [OF r] by (auto simp: sound_book_def)
  have "map_of (b_orders b) i = None"
  proof (rule ccontr)
    assume "map_of (b_orders b) i \<noteq> None"
    then obtain y where "map_of (b_orders b) i = Some y" by auto
    then have "(o_price y, i, remaining y) \<in> set (entries (o_side y) b)"
      using inv by (auto simp: book_inv_side core_inv_side linked_def)
    then show False using f by force
  qed
  then have adm: "admitted x b" using x flags by (simp add: admitted_def)
  from add_order_spec [OF inv adm] obtain b' r fs where "add_order x b = Some (b', r)"
    "spec_add (stp_hit b x) x (entries s b) (entries (opposite s) b) = (fs, entries s b', entries (opposite s) b')" "same_static b b'"
    using flags stp_off [OF off] by auto
  then show "\<exists>fs. spec_add (\<lambda>_. False) x (entries s b) (entries (opposite s) b) =
      (fs, entries s (demo_add x b), entries (opposite s) (demo_add x b))"
    "b_on_trade (demo_add x b) = b_on_trade b"
    using stp_off [OF off] by (auto simp: demo_add_def same_static_def)
qed

definition demo_state :: "book \<Rightarrow> entry list \<times> entry list \<Rightarrow> bool" where
  "demo_state b e \<longleftrightarrow> reachable default_config b \<and> entries Buy b = fst e \<and> entries Sell b = snd e \<and> b_on_trade b \<noteq> None"

definition demo_cond :: "order_id \<Rightarrow> price \<Rightarrow> quantity \<Rightarrow> entry list \<times> entry list \<Rightarrow> bool" where
  "demo_cond i p q e \<longleftrightarrow> 0 < p \<and> p < INVALID_PRICE \<and> q \<noteq> 0 \<and> list_all (\<lambda>e. entry_id e \<noteq> i) (fst e @ snd e)"

definition demo_step :: "order_id \<Rightarrow> side \<Rightarrow> price \<Rightarrow> quantity \<Rightarrow> entry list \<times> entry list \<Rightarrow> entry list \<times> entry list" where
  "demo_step i s p q e =
     (case s of
        Buy \<Rightarrow> snd (spec_add (\<lambda>_. False) (demo_order i s p q Limit Day) (fst e) (snd e))
      | Sell \<Rightarrow> prod.swap (snd (spec_add (\<lambda>_. False) (demo_order i s p q Limit Day) (snd e) (fst e))))"

lemma demo_next:
  assumes st: "demo_state b e" and c: "demo_cond i p q e" and e': "demo_step i s p q e = e'"
  shows "demo_state (demo_add (demo_order i s p q Limit Day) b) e'"
proof -
  have f: "\<forall>t. \<forall>x \<in> set (entries t b). entry_id x \<noteq> i"
  proof
    fix t
    show "\<forall>x \<in> set (entries t b). entry_id x \<noteq> i"
      using st c by (cases t) (auto simp: demo_state_def demo_cond_def list_all_iff)
  qed
  have pq: "0 < p" "p < INVALID_PRICE" "q \<noteq> 0" and r: "reachable default_config b" and eb: "entries Buy b = fst e" "entries Sell b = snd e"
    using st c by (auto simp: demo_state_def demo_cond_def)
  note d = demo_limit [OF r refl pq f, of s]
  from d(2) obtain fs where sp: "spec_add (\<lambda>_. False) (demo_order i s p q Limit Day) (entries s b) (entries (opposite s) b) =
      (fs, entries s (demo_add (demo_order i s p q Limit Day) b), entries (opposite s) (demo_add (demo_order i s p q Limit Day) b))"
    by blast
  show ?thesis
  proof (cases s)
    case Buy
    then show ?thesis using d(1,3) st sp eb e' by (auto simp: demo_state_def demo_step_def)
  next
    case Sell
    then show ?thesis using d(1,3) st sp eb e' by (auto simp: demo_state_def demo_step_def)
  qed
qed

lemma demo_start_state: "demo_state (demo_start default_config) ([], [])"
  unfolding demo_state_def demo_start_def
  by (simp add: reach_on_trade reach_new) (simp add: set_trade_callback_def entries_def new_book_def)

lemma demo_book_state: "demo_state demo_book ([(98, 4, 70)], [(100, 1, 50), (100, 2, 30), (101, 3, 40)])"
proof -
  have 1: "demo_state (demo_add (demo_order 1 Sell 100 50 Limit Day) (demo_start default_config)) ([], [(100, 1, 50)])"
    by (rule demo_next [OF demo_start_state]; code_simp)
  note 2 = demo_next [OF 1, of 2 100 30 Sell "([], [(100, 1, 50), (100, 2, 30)])"]
  have 2: "demo_state (demo_add (demo_order 2 Sell 100 30 Limit Day) (demo_add (demo_order 1 Sell 100 50 Limit Day) (demo_start default_config)))
     ([], [(100, 1, 50), (100, 2, 30)])"
    by (rule 2; code_simp)
  note 3 = demo_next [OF 2, of 3 101 40 Sell "([], [(100, 1, 50), (100, 2, 30), (101, 3, 40)])"]
  have 3: "demo_state (demo_add (demo_order 3 Sell 101 40 Limit Day) (demo_add (demo_order 2 Sell 100 30 Limit Day)
     (demo_add (demo_order 1 Sell 100 50 Limit Day) (demo_start default_config)))) ([], [(100, 1, 50), (100, 2, 30), (101, 3, 40)])"
    by (rule 3; code_simp)
  show ?thesis unfolding demo_book_def by (rule demo_next [OF 3]; code_simp)
qed

end
