(* ===== verification/Book_Output.thy ===== *)
theory Book_Output
  imports Book_Reach
begin

text \<open>
  What a book sends out. An invariant of the output needs to be checked for the four event
  functions only: the locale \<open>output_invariant\<close> carries it through matching, resting, cancelling
  and replacing to every book, whatever its clients did. It is used for the sequence numbers, and for
  the symbol every message carries.
\<close>

section \<open>The interface\<close>

definition same_output :: "book \<Rightarrow> book \<Rightarrow> bool" where
  "same_output b b' \<longleftrightarrow>
     b_symbol b' = b_symbol b \<and> b_config b' = b_config b \<and> b_out b' = b_out b \<and> b_pending_trades b' = b_pending_trades b \<and>
     b_next_seq_num b' = b_next_seq_num b"

lemma same_output_simps [simp]:
  "same_output b (b\<lparr>b_orders := m\<rparr>)" "same_output b (set_levels s ls b)" "same_output b (update_best s b)"
  "same_output b (b\<lparr>b_best_bid := p\<rparr>)" "same_output b (b\<lparr>b_best_ask := p\<rparr>)"
  "same_output b (set_trade_callback cb b)" "same_output b (set_execution_callback cb b)" "same_output b (set_bbo_callback cb b)"
  by (simp_all add: same_output_def set_trade_callback_def set_execution_callback_def set_bbo_callback_def)

lemma insert_emits_bbo: "\<exists>b'. insert_resting_order ord b = maybe_emit_bbo b' \<and> same_output b b'"
  by (cases "o_side ord") (auto simp: insert_resting_order_def Let_def same_output_def)

locale output_invariant =
  fixes I :: "book \<Rightarrow> bool"
  assumes fresh: "I (new_book sm cfg clock)"
    and quiet: "I b \<Longrightarrow> same_output b b' \<Longrightarrow> I b'"
    and trade: "I b \<Longrightarrow> I (emit_trade x y p q s b)"
    and report: "I b \<Longrightarrow> I (emit_execution_report x q avg b)"
    and bbo: "I b \<Longrightarrow> I (maybe_emit_bbo b)"
    and flush: "I b \<Longrightarrow> I (flush_trades b)"
begin

lemma quiet_simps [simp]:
  "I b \<Longrightarrow> I (b\<lparr>b_orders := m\<rparr>)" "I b \<Longrightarrow> I (set_levels s ls b)" "I b \<Longrightarrow> I (update_best s b)"
  "I b \<Longrightarrow> I (b\<lparr>b_best_bid := p\<rparr>)" "I b \<Longrightarrow> I (b\<lparr>b_best_ask := p\<rparr>)"
  "I b \<Longrightarrow> I (set_trade_callback cb b)" "I b \<Longrightarrow> I (set_execution_callback cb b)" "I b \<Longrightarrow> I (set_bbo_callback cb b)"
  by (erule quiet, simp)+

lemmas event_simps [simp] = trade report bbo flush

lemma fill_output: "I b \<Longrightarrow> match_fill best ord resting L b = (b1, ord1, L1) \<Longrightarrow> I b1"
  by (auto simp: match_fill_def Let_def)

lemma level_output:
  assumes "match_level best ord L b = Some z"
  shows "I b \<longrightarrow> I (fst z)"
proof (rule match_level.raw_induct [OF _ assms, of "\<lambda>best ord L b z. I b \<longrightarrow> I (fst z)"])
  fix ml and best :: price and ord :: order and L :: price_level and b :: book and z
  assume IH: "\<And>best ord L b z. ml best ord L b = Some z \<Longrightarrow> I b \<longrightarrow> I (fst z)"
    and body: "(if is_filled ord \<or> pl_empty L then Some (b, ord, L, False)
      else (case map_of (b_orders b) (pl_front_order_id L) of None \<Rightarrow> ml best ord (pl_pop_front L) b
      | Some resting \<Rightarrow>
         (case if c_enable_self_trade_prevention (b_config b) then stp_blocks (o_id ord) (o_id resting) else Some False of
            None \<Rightarrow> None
          | Some stop \<Rightarrow> if stop then Some (b, ord, L, True)
              else (case match_fill best ord resting L b of (b1, ord1, L1) \<Rightarrow> ml best ord1 L1 b1)))) = Some z"
  show "I b \<longrightarrow> I (fst z)"
    using body by (auto split: if_splits option.splits prod.splits dest: fill_output dest!: IH)
qed

lemma close_output: "I b \<Longrightarrow> I (close_level s p L b)"
  by (simp add: close_level_def)

lemma order_output:
  assumes "match_order ord b = Some z"
  shows "I b \<longrightarrow> I (fst z)"
proof (rule match_order.raw_induct [OF _ assms, of "\<lambda>ord b z. I b \<longrightarrow> I (fst z)"], rule impI)
  fix mo and ord :: order and b :: book and z
  let ?s = "opposite (o_side ord)"
  let ?p = "best_price ?s b"
  assume IH: "\<And>ord b z. mo ord b = Some z \<Longrightarrow> I b \<longrightarrow> I (fst z)" and b: "I b"
    and body: "(if is_filled ord then Some (b, ord)
      else let s = ?s; best = best_price s b in
         if best = INVALID_PRICE \<or> best = 0 then Some (b, ord)
         else if \<not> (o_type ord = Market \<or> would_cross ord best) then Some (b, ord)
         else (case map_of (levels s b) best of None \<Rightarrow> mo ord (update_best s b)
           | Some L \<Rightarrow> if pl_empty L then mo ord (update_best s b)
               else (case match_level best ord L b of None \<Rightarrow> None
                 | Some (b1, ord1, L1, stopped) \<Rightarrow>
                     (let b2 = close_level s best L1 b1 in if stopped then Some (b2, ord1) else mo ord1 b2)))) = Some z"
  have step: "I (update_best ?s b)" using b by simp
  show "I (fst z)"
  proof (cases "is_filled ord \<or> ?p = INVALID_PRICE \<or> ?p = 0 \<or> \<not> (o_type ord = Market \<or> would_cross ord ?p)")
    case True
    then have "z = (b, ord)" using body by (simp add: Let_def split: if_split_asm)
    then show ?thesis using b by simp
  next
    case go: False
    show ?thesis
    proof (cases "map_of (levels ?s b) ?p")
      case None
      then show ?thesis using body go IH step by (simp add: Let_def)
    next
      case (Some L)
      note body1 = body [unfolded Let_def] Some go
      show ?thesis
      proof (cases "pl_empty L")
        case True
        then show ?thesis using body1 IH step by simp
      next
        case False
        with body1 obtain b1 ord1 L1 stopped where m: "match_level ?p ord L b = Some (b1, ord1, L1, stopped)"
          "(if stopped then Some (close_level ?s ?p L1 b1, ord1) else mo ord1 (close_level ?s ?p L1 b1)) = Some z"
          by (cases "match_level ?p ord L b") auto
        have "I (close_level ?s ?p L1 b1)" using level_output [OF m(1)] b close_output by simp
        then show ?thesis using m(2) IH by (auto split: if_split_asm)
      qed
    qed
  qed
qed

lemma insert_output: "I b \<Longrightarrow> I (insert_resting_order ord b)"
  using insert_emits_bbo [of ord b] quiet bbo by metis

lemma finish_output: "I b \<Longrightarrow> I (fst (finish_add ord b))"
  by (simp add: finish_add_def Let_def insert_output)

lemma add_output: "add_order ord b = Some z \<Longrightarrow> I b \<Longrightarrow> I (fst z)"
  by (auto simp: add_order_def Let_def finish_output split: if_splits dest: order_output)

lemma remove_output: "I b \<Longrightarrow> I (remove_order_from_level i s p b)"
  by (simp add: remove_order_from_level_def Let_def split: option.split)

lemma cancel_output: "I b \<Longrightarrow> I (fst (cancel_order_with stale i b))"
  using quiet_simps(3) [where s = Buy] quiet_simps(3) [where s = Sell]
  by (simp add: cancel_order_with_def Let_def remove_output split: option.split)

lemma replace_output: "replace_order_with stale junk i p q b = Some z \<Longrightarrow> I b \<Longrightarrow> I (fst z)"
  using cancel_output [where stale = stale]
  by (auto simp: replace_order_with_def Let_def split_beta split: if_splits option.splits dest: add_output)

lemma built_output: "built cfg b \<Longrightarrow> I b"
  by (induction rule: built.induct)
    (auto simp: fresh cancel_output flush_pending_def dest: add_output replace_output)

end

section \<open>Sequence numbers\<close>

text \<open>
  Trades and execution reports draw on one counter. \<open>numbered\<close>: the numbers used so far are exactly
  those below the counter, each used once, and each kind of message has its own in increasing order.
\<close>

fun report_ids :: "event list \<Rightarrow> order_id list" where
  "report_ids [] = []"
| "report_ids (ExecEvent cb r # es) = er_exec_id r # report_ids es"
| "report_ids (e # es) = report_ids es"

lemma report_ids_append [simp]: "report_ids (xs @ ys) = report_ids xs @ report_ids ys"
  by (induction xs rule: report_ids.induct) auto

lemma report_ids_trades [simp]: "report_ids (map (TradeEvent cb) ts) = []"
  by (induction ts) auto

definition splits_numbers :: "nat \<Rightarrow> nat list \<Rightarrow> nat list \<Rightarrow> bool" where
  "splits_numbers n ts rs \<longleftrightarrow>
     0 < n \<and> sorted_wrt (<) ts \<and> sorted_wrt (<) rs \<and> set ts \<inter> set rs = {} \<and> set ts \<union> set rs = {1..<n}"

lemma splits_step:
  assumes "splits_numbers n ts rs"
  shows "splits_numbers (Suc n) (ts @ [n]) rs" "splits_numbers (Suc n) ts (rs @ [n])"
proof -
  have "k < n" if "k \<in> set ts \<union> set rs" for k using assms that unfolding splits_numbers_def by auto
  moreover have "{1..<Suc n} = insert n {1..<n}" using assms by (auto simp: splits_numbers_def)
  ultimately show "splits_numbers (Suc n) (ts @ [n]) rs" "splits_numbers (Suc n) ts (rs @ [n])"
    using assms by (auto simp: splits_numbers_def sorted_wrt_append)
qed

definition numbered :: "book \<Rightarrow> bool" where
  "numbered b \<longleftrightarrow> batch_ok b \<and>
     (\<exists>n ts rs. splits_numbers n ts rs \<and> b_next_seq_num b = of_nat n \<and>
        map t_seq_num (trade_log b) = map of_nat ts \<and> report_ids (b_out b) = map of_nat rs)"

lemma numbered_quiet: "numbered b \<Longrightarrow> same_output b b' \<Longrightarrow> numbered b'"
  by (simp add: numbered_def same_output_def batch_ok_def trade_log_def)

lemma seq_emit:
  assumes "batch_ok b" "b_on_trade b \<noteq> None"
  shows "map t_seq_num (trade_log (emit_trade x y p q s b)) = map t_seq_num (trade_log b) @ [b_next_seq_num b]"
    "b_next_seq_num (emit_trade x y p q s b) = b_next_seq_num b + 1"
    "report_ids (b_out (emit_trade x y p q s b)) = report_ids (b_out b)"
  using assms by (auto simp: emit_trade_def trade_log_def now_ns_def flush_trades_def Let_def batch_ok_def split: option.split)

lemma seq_report:
  assumes "b_on_execution b \<noteq> None"
  shows "b_next_seq_num (emit_execution_report x q avg b) = b_next_seq_num b + 1"
    "report_ids (b_out (emit_execution_report x q avg b)) = report_ids (b_out b) @ [b_next_seq_num b]"
  using assms by (auto simp: emit_execution_report_def now_ns_def Let_def)

lemma numbered_emit: "numbered b \<Longrightarrow> numbered (emit_trade x y p q s b)"
proof (cases "b_on_trade b")
  case (Some cb)
  assume b: "numbered b"
  then obtain n ts rs where n: "batch_ok b" "splits_numbers n ts rs" "b_next_seq_num b = of_nat n"
    "map t_seq_num (trade_log b) = map of_nat ts" "report_ids (b_out b) = map of_nat rs" by (auto simp: numbered_def)
  have "batch_ok (emit_trade x y p q s b)" using n(1) by simp
  then show ?thesis
    unfolding numbered_def using splits_step(1) [OF n(2)] n Some
    by (intro conjI exI [of _ "Suc n"] exI [of _ "ts @ [n]"] exI [of _ rs]) (simp_all add: seq_emit add.commute)
qed (simp add: emit_trade_def)

lemma numbered_report: "numbered b \<Longrightarrow> numbered (emit_execution_report x q avg b)"
proof (cases "b_on_execution b")
  case (Some cb)
  assume b: "numbered b"
  then obtain n ts rs where n: "batch_ok b" "splits_numbers n ts rs" "b_next_seq_num b = of_nat n"
    "map t_seq_num (trade_log b) = map of_nat ts" "report_ids (b_out b) = map of_nat rs" by (auto simp: numbered_def)
  have "batch_ok (emit_execution_report x q avg b)" using n(1) by simp
  then show ?thesis
    unfolding numbered_def using splits_step(2) [OF n(2)] n Some
    by (intro conjI exI [of _ "Suc n"] exI [of _ ts] exI [of _ "rs @ [n]"]) (simp_all add: seq_report add.commute)
qed (simp add: emit_execution_report_def)

lemma quiet_events [simp]:
  "b_next_seq_num (flush_trades b) = b_next_seq_num b" "report_ids (b_out (flush_trades b)) = report_ids (b_out b)"
  "b_next_seq_num (maybe_emit_bbo b) = b_next_seq_num b" "report_ids (b_out (maybe_emit_bbo b)) = report_ids (b_out b)"
  by (simp_all add: flush_trades_def maybe_emit_bbo_def now_ns_def Let_def split: option.split)

lemma numbered_new: "numbered (new_book sm cfg clock)"
  unfolding numbered_def
  by (intro conjI exI [of _ 1] exI [of _ "[]"]) (simp_all add: splits_numbers_def new_book_def batch_ok_def trade_log_def)

interpretation seqs: output_invariant numbered
  by unfold_locales (auto simp: numbered_new numbered_emit numbered_report intro: numbered_quiet, simp_all add: numbered_def)

section \<open>Messages carry the symbol of the book\<close>

primrec event_symbol_ok :: "symbol \<Rightarrow> event \<Rightarrow> bool" where
  "event_symbol_ok sy (TradeEvent cb t) \<longleftrightarrow> t_symbol t = sy"
| "event_symbol_ok sy (ExecEvent cb r) \<longleftrightarrow> True"
| "event_symbol_ok sy (BboEvent cb u) \<longleftrightarrow> bbo_symbol u = sy"

definition labelled :: "book \<Rightarrow> bool" where
  "labelled b \<longleftrightarrow> list_all (event_symbol_ok (b_symbol b)) (b_out b) \<and> (\<forall>t \<in> set (b_pending_trades b). t_symbol t = b_symbol b)"

lemma labelled_flush: "labelled b \<Longrightarrow> labelled (flush_trades b)"
  by (auto simp: labelled_def flush_trades_def list_all_iff split: option.split)

lemma labelled_emit: "labelled b \<Longrightarrow> labelled (emit_trade x y p q s b)"
  by (auto simp: emit_trade_def now_ns_def Let_def intro!: labelled_flush split: option.split) (auto simp: labelled_def)

lemma labelled_report: "labelled b \<Longrightarrow> labelled (emit_execution_report x q avg b)"
  by (auto simp: labelled_def emit_execution_report_def now_ns_def Let_def split: option.split)

lemma labelled_bbo: "labelled b \<Longrightarrow> labelled (maybe_emit_bbo b)"
  by (auto simp: labelled_def maybe_emit_bbo_def now_ns_def Let_def split: option.split)

interpretation labels: output_invariant labelled
  by unfold_locales
    (simp_all add: labelled_flush labelled_emit labelled_report labelled_bbo, simp_all add: labelled_def same_output_def new_book_def)

lemma labelled_log: "labelled b \<Longrightarrow> t \<in> set (trade_log b) \<Longrightarrow> t_symbol t = b_symbol b"
proof -
  have "list_all (event_symbol_ok sy) es \<Longrightarrow> t \<in> set (trades_of es) \<Longrightarrow> t_symbol t = sy" for es sy
    by (induction es rule: trades_of.induct) auto
  then show "labelled b \<Longrightarrow> t \<in> set (trade_log b) \<Longrightarrow> t_symbol t = b_symbol b"
    by (auto simp: labelled_def trade_log_def)
qed

end
