(* ===== verification/Level_Safety.thy ===== *)
theory Level_Safety
  imports Price_Level
begin

text \<open>
  What a price level keeps whatever its caller does, also when the same id is added twice or an id
  is amended or removed that the level does not hold: the chain of nodes stays intact, the index
  points to live nodes only, the total is the sum of the nodes, and no freed or foreign address is
  touched. The order book relies on this in \<open>Book_Safety\<close>, where its own table and the levels may
  disagree.
\<close>

definition lvl_safe :: "price_level \<Rightarrow> bool" where
  "lvl_safe L \<longleftrightarrow> (\<exists>ps. lvl_chain L ps)"

lemma lvl_inv_safe: "lvl_inv L \<Longrightarrow> lvl_safe L"
  by (auto simp: lvl_inv_def lvl_safe_def repr_chain)

lemma lvl_safe_cases:
  assumes "lvl_safe L"
  obtains (empty) "lvl_chain L []" | (front) p ps where "lvl_chain L (p # ps)"
  using assms unfolding lvl_safe_def by (metis neq_Nil_conv)

lemma lvl_safe_fault: "lvl_safe L \<Longrightarrow> \<not> pl_fault L"
  by (auto simp: lvl_safe_def lvl_chain_def)

lemma chain_count: "lvl_chain L ps \<Longrightarrow> pl_order_count L = length ps"
  by (simp add: lvl_chain_def)

lemma dropped_chain: "dropped L p ps L' \<Longrightarrow> lvl_chain L' ps"
  by (simp add: dropped_def)

lemma safe_new: "lvl_safe (new_level p)"
  by (rule lvl_inv_safe [OF lq.new_inv])

lemma safe_add:
  assumes "lvl_safe L"
  shows "lvl_safe (pl_add_order i q L) \<and> pl_order_count (pl_add_order i q L) = Suc (pl_order_count L)"
proof -
  from assms obtain ps where r: "lvl_chain L ps" by (auto simp: lvl_safe_def)
  note a = add_chain(1) [OF r, of i q]
  then show ?thesis using chain_count [OF a] chain_count [OF r] by (auto simp: lvl_safe_def)
qed

lemma safe_remove:
  assumes "lvl_safe L"
  shows "lvl_safe (snd (pl_remove_order i L)) \<and> pl_order_count (snd (pl_remove_order i L)) \<le> pl_order_count L"
proof (cases "pl_node_index L i")
  case None
  then show ?thesis using assms by (simp add: pl_remove_order_def find_node_def)
next
  case (Some p)
  from assms obtain ps where r: "lvl_chain L ps" by (auto simp: lvl_safe_def)
  from remove_chain [OF r Some] obtain as bs where 1: "ps = as @ p # bs"
    "lvl_chain (snd (pl_remove_order i L)) (as @ bs)" using dropped_chain by metis
  then show ?thesis using chain_count [OF r] chain_count [OF 1(2)] by (auto simp: lvl_safe_def)
qed

lemma safe_modify:
  assumes "lvl_safe L"
  shows "lvl_safe (snd (pl_modify_quantity i q L)) \<and> pl_order_count (snd (pl_modify_quantity i q L)) = pl_order_count L"
proof (cases "pl_node_index L i")
  case None
  then show ?thesis using assms by (simp add: pl_modify_quantity_def find_node_def)
next
  case (Some p)
  from assms obtain ps where r: "lvl_chain L ps" by (auto simp: lvl_safe_def)
  from modify_node [OF r Some, of q] obtain as bs n where 1: "ps = as @ p # bs" "pl_heap L p = Some n"
    "pl_modify_quantity i q L =
      (True, L\<lparr>pl_heap := (pl_heap L)(p \<mapsto> n\<lparr>n_quantity := q\<rparr>), pl_total_quantity := pl_total_quantity L - n_quantity n + q\<rparr>)" .
  show ?thesis using set_quantity_chain(1) [OF r [unfolded 1(1)] 1(2), of q] by (auto simp: 1(3) lvl_safe_def)
qed

lemma safe_pop:
  assumes "lvl_safe L"
  shows "lvl_safe (pl_pop_front L) \<and> pl_order_count (pl_pop_front L) = pl_order_count L - 1"
  using assms
proof (cases rule: lvl_safe_cases)
  case empty
  then have "pl_pop_front L = L" "pl_order_count L = 0" by (auto simp: pl_pop_front_def lvl_chain_def)
  then show ?thesis using assms by simp
next
  case (front p ps)
  note c = dropped_chain [OF pop_chain [OF front]]
  show ?thesis using c chain_count [OF c] chain_count [OF front] by (auto simp: lvl_safe_def)
qed

lemma safe_fill:
  assumes "lvl_safe L"
  shows "lvl_safe (pl_fill_front q L) \<and> pl_order_count (pl_fill_front q L) \<le> pl_order_count L"
  using assms
proof (cases rule: lvl_safe_cases)
  case empty
  then have "pl_fill_front q L = L" by (auto simp: pl_fill_front_def lvl_chain_def)
  then show ?thesis using assms by simp
next
  case (front p ps)
  show ?thesis
  proof (cases "snd (pair_at (pl_heap L) p) \<le> q")
    case True
    then show ?thesis using safe_pop [OF assms] by (simp add: fill_front_pop [OF front])
  next
    case False
    then have "q < snd (pair_at (pl_heap L) p)" by simp
    from fill_front_node [OF front this] obtain n where n: "pl_heap L p = Some n"
      "pl_fill_front q L = L\<lparr>pl_heap := (pl_heap L)(p \<mapsto> n\<lparr>n_quantity := n_quantity n - q\<rparr>),
        pl_total_quantity := pl_total_quantity L - n_quantity n + (n_quantity n - q)\<rparr>" .
    show ?thesis using set_quantity_chain(1) [of L "[]" p ps n "n_quantity n - q"] front n(1)
      by (auto simp: n(2) lvl_safe_def)
  qed
qed

lemmas level_safety = safe_new safe_add safe_remove safe_modify safe_pop safe_fill

end
