(* ===== verification/Book_Safety.thy ===== *)
theory Book_Safety
  imports Book_Output Level_Safety
begin

text \<open>
  What holds for every history of a book, contract or not and whatever the read of an erased order
  gives: every public call returns, no level is left empty, no level ever touches freed memory, and
  a trade has a real price and two different orders. The table, the queues and the cached prices may
  disagree here, so the proofs use the loops of \<^verbatim>\<open>match_order\<close> directly and not the abstract
  book.
\<close>

section \<open>The invariant of every history\<close>

definition safe_levels :: "level_map \<Rightarrow> bool" where
  "safe_levels m \<longleftrightarrow> (\<forall>e \<in> set m. lvl_safe (snd e) \<and> \<not> pl_empty (snd e))"

definition keyed :: "(order_id, order) omap \<Rightarrow> bool" where
  "keyed m \<longleftrightarrow> (\<forall>i x. map_of m i = Some x \<longrightarrow> o_id x = i)"

definition fair_trade :: "trade \<Rightarrow> bool" where
  "fair_trade t \<longleftrightarrow> t_price t \<noteq> 0 \<and> t_price t \<noteq> INVALID_PRICE \<and> t_buy_order_id t \<noteq> t_sell_order_id t"

definition fair :: "book \<Rightarrow> bool" where
  "fair b \<longleftrightarrow> (\<forall>t \<in> set (trade_log b). fair_trade t)"

definition safe_book :: "book \<Rightarrow> bool" where
  "safe_book b \<longleftrightarrow> (\<forall>s. safe_levels (levels s b)) \<and> keyed (b_orders b) \<and> fair b"

text \<open>Self-trade prevention never meets the undefined absolute value.\<close>

definition ids_comparable :: "book \<Rightarrow> order_id \<Rightarrow> bool" where
  "ids_comparable b i \<longleftrightarrow> (c_enable_self_trade_prevention (b_config b) \<longrightarrow>
     (\<forall>j \<in> dom (map_of (b_orders b)). stp_blocks i j \<noteq> None))"

lemma safe_levels_put: "safe_levels m \<Longrightarrow> lvl_safe L \<Longrightarrow> \<not> pl_empty L \<Longrightarrow> safe_levels (om_put p L m)"
proof -
  assume m: "safe_levels m" and L: "lvl_safe L" "\<not> pl_empty L"
  have "e = (p, L) \<or> e \<in> set m" if "e \<in> set (om_put p L m)" for e
    using that by (induction m) (auto split: if_splits)
  then show ?thesis using m L by (fastforce simp: safe_levels_def)
qed

lemma safe_levels_erase: "safe_levels m \<Longrightarrow> safe_levels (om_erase p m)"
  by (auto simp: safe_levels_def om_erase_def)

lemma safe_levels_find: "safe_levels m \<Longrightarrow> map_of m p = Some L \<Longrightarrow> lvl_safe L \<and> \<not> pl_empty L"
  by (fastforce simp: safe_levels_def dest: map_of_SomeD)

lemma keyed_simps [simp]:
  "keyed m \<Longrightarrow> o_id x = i \<Longrightarrow> keyed (om_put i x m)" "keyed m \<Longrightarrow> keyed (om_erase i m)"
  by (auto simp: keyed_def)

text \<open>What the events leave alone.\<close>

lemma fair_events [simp]:
  "fair (flush_trades b) = fair b" "fair (emit_execution_report x q avg b) = fair b" "fair (maybe_emit_bbo b) = fair b"
  by (simp_all add: fair_def)

lemma fair_cong: "b_out b' = b_out b \<Longrightarrow> b_pending_trades b' = b_pending_trades b \<Longrightarrow> fair b' = fair b"
  by (simp add: fair_def trade_log_def)

lemma fair_emit:
  assumes "fair b" "p \<noteq> 0" "p \<noteq> INVALID_PRICE" "o_id x \<noteq> o_id y"
  shows "fair (emit_trade x y p q s b)"
  using assms
  by (auto simp: fair_def emit_trade_def trade_log_def now_ns_def flush_trades_def Let_def fair_trade_def split: option.split)

lemma safe_same:
  assumes "safe_book b" "same_book b b'" "fair b'"
  shows "safe_book b'"
  using assms same_bookD [OF assms(2)] by (simp add: safe_book_def)

lemma safe_events:
  assumes "safe_book b"
  shows "safe_book (flush_trades b)" "safe_book (emit_execution_report x q avg b)" "safe_book (maybe_emit_bbo b)"
  using safe_same [OF assms same_flush] safe_same [OF assms same_emit_report] safe_same [OF assms same_emit_bbo] assms
  by (simp_all add: safe_book_def)

lemma safe_update:
  assumes "safe_book b" "\<And>s. safe_levels (levels s b')" "keyed (b_orders b')" "b_out b' = b_out b"
    "b_pending_trades b' = b_pending_trades b"
  shows "safe_book b'"
  using assms fair_cong [OF assms(4,5)] by (simp add: safe_book_def)

lemma safe_update_best: "safe_book b \<Longrightarrow> safe_book (update_best s b)"
  by (rule safe_update) (simp_all add: safe_book_def)

lemma safe_set_levels: "safe_book b \<Longrightarrow> safe_levels m \<Longrightarrow> safe_book (set_levels s m b)"
proof (rule safe_update)
  fix s'
  assume "safe_book b" "safe_levels m"
  then show "safe_levels (levels s' (set_levels s m b))" by (cases "s' = s") (simp_all add: safe_book_def)
qed (simp_all add: safe_book_def)

lemma safe_set_orders: "safe_book b \<Longrightarrow> keyed m \<Longrightarrow> safe_book (b\<lparr>b_orders := m\<rparr>)"
  by (rule safe_update) (simp_all add: safe_book_def)

section \<open>Matching\<close>

text \<open>What matching keeps of the book around it, and how much the table can still lose.\<close>

definition shrinks :: "book \<Rightarrow> order \<Rightarrow> book \<Rightarrow> order \<Rightarrow> bool" where
  "shrinks b ord b' ord' \<longleftrightarrow> b_config b' = b_config b \<and> same_order ord ord' \<and>
     dom (map_of (b_orders b')) \<subseteq> dom (map_of (b_orders b)) \<and> keyed (b_orders b') \<and> fair b'"

abbreviation same_levels :: "book \<Rightarrow> book \<Rightarrow> bool" where
  "same_levels b b' \<equiv> \<forall>s. levels s b' = levels s b \<and> best_price s b' = best_price s b"

lemma shrinks_refl: "keyed (b_orders b) \<Longrightarrow> fair b \<Longrightarrow> shrinks b ord b ord"
  by (simp add: shrinks_def)

lemma shrinks_trans: "shrinks a x b y \<Longrightarrow> shrinks b y c z \<Longrightarrow> shrinks a x c z"
  by (simp add: shrinks_def) (meson same_order_trans order_trans)

lemma shrinks_comparable: "shrinks b x b' y \<Longrightarrow> ids_comparable b i \<Longrightarrow> ids_comparable b' i"
  unfolding shrinks_def ids_comparable_def by auto

lemma shrinks_absent: "shrinks b x b' y \<Longrightarrow> map_of (b_orders b) i = None \<Longrightarrow> map_of (b_orders b') i = None"
  unfolding shrinks_def by (metis (mono_tags, lifting) domIff subsetD)

definition live :: "book \<Rightarrow> nat" where
  "live b = card (dom (map_of (b_orders b)))"

lemma fill_sum: "o_filled_qty (snd (fill (remaining x) x)) = o_quantity x"
  by (simp add: fill_def Let_def remaining_def)

lemma fill_all: "is_filled (snd (fill (remaining x) x))"
  by (simp only: is_filled_def fill_frame fill_sum order_refl)

lemma fill_safe:
  assumes L: "lvl_safe L" and k: "keyed (b_orders b)" and f: "fair b" and p: "best \<noteq> 0" "best \<noteq> INVALID_PRICE"
    and x: "map_of (b_orders b) (pl_front_order_id L) = Some x" and new: "map_of (b_orders b) (o_id ord) = None"
    and m: "match_fill best ord x L b = (b1, ord1, L1)"
  shows "lvl_safe L1" "shrinks b ord b1 ord1" "same_levels b b1"
    "is_filled ord1 \<or> pl_order_count L1 + live b1 < pl_order_count L + live b"
proof -
  let ?i = "pl_front_order_id L" and ?q = "min (remaining ord) (remaining x)"
  let ?x1 = "snd (fill ?q x)" and ?o1 = "snd (fill ?q ord)"
  define e where "e = (if o_side ord = Buy then emit_trade ?o1 ?x1 best ?q Buy (b\<lparr>b_orders := om_put ?i ?x1 (b_orders b)\<rparr>)
      else emit_trade ?x1 ?o1 best ?q Sell (b\<lparr>b_orders := om_put ?i ?x1 (b_orders b)\<rparr>))"
  have "(b1, ord1, L1) = (if is_filled ?x1 then e\<lparr>b_orders := om_erase ?i (b_orders e)\<rparr> else e, ?o1, pl_fill_front ?q L)"
    using m unfolding match_fill_def Let_def fill_frame e_def by (simp only:)
  then have b1: "b1 = (if is_filled ?x1 then e\<lparr>b_orders := om_erase ?i (b_orders e)\<rparr> else e)" and o1: "ord1 = ?o1"
    and L1: "L1 = pl_fill_front ?q L" by simp_all
  have id: "o_id x = ?i" using k x by (simp add: keyed_def)
  then have ne: "o_id ord \<noteq> o_id x" using x new by auto
  have fr: "b_orders e = om_put ?i ?x1 (b_orders b)" "b_config e = b_config b" "same_levels b e"
    by (cases "o_side ord"; simp add: e_def)+
  have ke: "keyed (b_orders e)" using k id by (simp add: fr)
  have "fair (b\<lparr>b_orders := om_put ?i ?x1 (b_orders b)\<rparr>)" using f fair_cong [of "b\<lparr>b_orders := om_put ?i ?x1 (b_orders b)\<rparr>" b] by simp
  then have fe: "fair e" unfolding e_def using p ne by (auto intro!: fair_emit)
  have de: "dom (map_of (b_orders e)) = dom (map_of (b_orders b))" using x by (auto simp: fr)
  have db: "dom (map_of (b_orders b1)) = dom (map_of (b_orders b)) - (if is_filled ?x1 then {?i} else {})"
    using de by (auto simp: b1)
  show "lvl_safe L1" using safe_fill [OF L] by (simp add: L1)
  show "same_levels b b1" using fr(3) by (simp add: b1)
  have "fair b1" using fe fair_cong [of "e\<lparr>b_orders := om_erase ?i (b_orders e)\<rparr>" e] by (simp add: b1)
  then show "shrinks b ord b1 ord1" using ke fr(2) db by (auto simp: shrinks_def b1 o1)
  show "is_filled ord1 \<or> pl_order_count L1 + live b1 < pl_order_count L + live b"
  proof (cases "remaining ord \<le> remaining x")
    case True
    then show ?thesis using fill_all [of ord] by (simp add: o1 min_def)
  next
    case False
    then have "is_filled ?x1" using fill_all [of x] by (simp add: min_def)
    then have "dom (map_of (b_orders b1)) \<subset> dom (map_of (b_orders b))" using db x by auto
    then have "live b1 < live b" unfolding live_def by (intro psubset_card_mono finite_dom_map_of)
    then show ?thesis using safe_fill [OF L, of ?q] by (simp add: L1)
  qed
qed

text \<open>One run of the inner loop, ending or not.\<close>

definition level_done :: "book \<Rightarrow> order \<Rightarrow> book \<times> order \<times> price_level \<times> bool \<Rightarrow> bool" where
  "level_done b ord z \<longleftrightarrow> (case z of (b', ord', L', st) \<Rightarrow>
     lvl_safe L' \<and> shrinks b ord b' ord' \<and> same_levels b b' \<and>
     (if st then \<not> pl_empty L' else is_filled ord' \<or> pl_empty L'))"

lemma level_done_trans:
  assumes "level_done b1 ord1 z" "shrinks b ord b1 ord1" "same_levels b b1"
  shows "level_done b ord z"
  using assms by (auto simp: level_done_def intro: shrinks_trans split: prod.splits)

lemma level_safe_run:
  assumes "lvl_safe L" "keyed (b_orders b)" "fair b" "best \<noteq> 0" "best \<noteq> INVALID_PRICE" "map_of (b_orders b) (o_id ord) = None"
  shows "(\<forall>z. match_level best ord L b = Some z \<longrightarrow> level_done b ord z) \<and>
    (ids_comparable b (o_id ord) \<longrightarrow> match_level best ord L b \<noteq> None)"
  using assms
proof (induction "pl_order_count L + live b" arbitrary: L b ord rule: less_induct)
  case less
  note L = less.prems(1) and k = less.prems(2) and f = less.prems(3) and p = less.prems(4,5) and new = less.prems(6)
  show ?case
  proof (cases "is_filled ord \<or> pl_empty L")
    case True
    then have "match_level best ord L b = Some (b, ord, L, False)" by (subst match_level.simps) simp
    then show ?thesis using True L shrinks_refl [OF k f] by (auto simp: level_done_def)
  next
    case go: False
    show ?thesis
    proof (cases "map_of (b_orders b) (pl_front_order_id L)")
      case None
      have eq: "match_level best ord L b = match_level best ord (pl_pop_front L) b"
        using go None by (subst match_level.simps) simp
      have "pl_order_count (pl_pop_front L) + live b < pl_order_count L + live b"
        using go safe_pop [OF L] by (simp add: pl_empty_def)
      from less.hyps [OF this] safe_pop [OF L] less.prems show ?thesis unfolding eq by blast
    next
      case (Some x)
      define blk where "blk = (if c_enable_self_trade_prevention (b_config b) then stp_blocks (o_id ord) (o_id x) else Some False)"
      have eq: "match_level best ord L b = (case blk of None \<Rightarrow> None | Some stop \<Rightarrow>
          if stop then Some (b, ord, L, True)
          else (case match_fill best ord x L b of (b1, ord1, L1) \<Rightarrow> match_level best ord1 L1 b1))"
        unfolding blk_def using go Some by (subst match_level.simps) simp
      have def: "blk \<noteq> None" if "ids_comparable b (o_id ord)"
        using that Some k by (auto simp: blk_def ids_comparable_def keyed_def)
      consider "blk = None" | "blk = Some True" | "blk = Some False" by (cases blk) auto
      then show ?thesis
      proof cases
        case 1
        then show ?thesis using def by (auto simp: eq)
      next
        case 2
        then show ?thesis using go L shrinks_refl [OF k f] by (auto simp: eq level_done_def)
      next
        case 3
        obtain b1 ord1 L1 where m: "match_fill best ord x L b = (b1, ord1, L1)" by (metis prod_cases3)
        note st = fill_safe [OF L k f p Some new m]
        have eq3: "match_level best ord L b = match_level best ord1 L1 b1" by (simp add: eq 3 m)
        have "(\<forall>z. match_level best ord1 L1 b1 = Some z \<longrightarrow> level_done b1 ord1 z) \<and>
           (ids_comparable b1 (o_id ord1) \<longrightarrow> match_level best ord1 L1 b1 \<noteq> None)"
        proof (cases "is_filled ord1")
          case True
          then have "match_level best ord1 L1 b1 = Some (b1, ord1, L1, False)" by (subst match_level.simps) simp
          then show ?thesis using True st(1,2) shrinks_refl [of b1 ord1] by (auto simp: level_done_def shrinks_def)
        next
          case False
          then have "pl_order_count L1 + live b1 < pl_order_count L + live b" using st(4) by simp
          moreover have "o_id ord1 = o_id ord" using st(2) by (simp add: shrinks_def same_order_def)
          ultimately show ?thesis
            using st(1,2) shrinks_absent [OF st(2) new] p by (intro less.hyps) (simp_all add: shrinks_def)
        qed
        moreover have "o_id ord1 = o_id ord" using st(2) by (simp add: shrinks_def same_order_def)
        ultimately show ?thesis
          unfolding eq3 using level_done_trans [OF _ st(2,3)] shrinks_comparable [OF st(2)] by metis
      qed
    qed
  qed
qed

lemma close_safe:
  assumes b: "safe_book b" and d: "level_done b ord (b1, ord1, L1, st)"
  shows "safe_book (close_level s p L1 b1)" "shrinks b ord (close_level s p L1 b1) ord1"
    "levels s (close_level s p L1 b1) = (if pl_empty L1 then om_erase p (levels s b) else om_put p L1 (levels s b))"
proof -
  have L1: "lvl_safe L1" and sh: "shrinks b ord b1 ord1" and sl: "same_levels b b1" using d by (auto simp: level_done_def)
  have "safe_book b1" using b sh sl by (simp add: safe_book_def shrinks_def)
  moreover have "safe_levels (om_put p L1 (levels s b1))" if "\<not> pl_empty L1"
    using b sl L1 that by (simp add: safe_book_def safe_levels_put)
  moreover have "safe_levels (om_erase p (levels s b1))" using b sl by (simp add: safe_book_def safe_levels_erase)
  ultimately show "safe_book (close_level s p L1 b1)"
    by (simp add: close_level_def safe_set_levels safe_update_best)
  have "fair (close_level s p L1 b1) = fair b1" by (rule fair_cong) (simp_all add: close_level_def)
  then show "shrinks b ord (close_level s p L1 b1) ord1"
    using sh by (simp add: shrinks_def) (simp add: close_level_def)
  show "levels s (close_level s p L1 b1) = (if pl_empty L1 then om_erase p (levels s b) else om_put p L1 (levels s b))"
    using sl by (simp add: close_level_def)
qed

lemma update_best_found: "map_of (levels s b) (best_price s (update_best s b)) = None \<Longrightarrow> best_price s (update_best s b) = INVALID_PRICE"
proof (cases "levels s b")
  case (Cons e es)
  assume n: "map_of (levels s b) (best_price s (update_best s b)) = None"
  have "best_price s (update_best s b) = fst (case s of Buy \<Rightarrow> last (levels s b) | Sell \<Rightarrow> hd (levels s b))"
    using Cons by (cases s) (simp_all add: update_best_bid_def update_best_ask_def)
  moreover have "(case s of Buy \<Rightarrow> last (levels s b) | Sell \<Rightarrow> hd (levels s b)) \<in> set (levels s b)"
    using Cons by (cases s) (simp_all only: side.case last_in_set list.distinct not_False_eq_True hd_in_set simp_thms)
  ultimately show ?thesis using n by (metis map_of_eq_None_iff imageI)
qed (cases s; simp add: update_best_bid_def update_best_ask_def)

text \<open>
  The outer loop: every round but the last erases a level, or refreshes a cached price that had none.
\<close>

lemma order_safe_run:
  assumes "safe_book b" "map_of (b_orders b) (o_id ord) = None"
  shows "(\<forall>z. match_order ord b = Some z \<longrightarrow> safe_book (fst z) \<and> shrinks b ord (fst z) (snd z)) \<and>
    (ids_comparable b (o_id ord) \<longrightarrow> match_order ord b \<noteq> None)"
  using assms
proof (induction "2 * length (levels (opposite (o_side ord)) b) +
      of_bool (map_of (levels (opposite (o_side ord)) b) (best_price (opposite (o_side ord)) b) = None)"
    arbitrary: ord b rule: less_induct)
  case less
  let ?s = "opposite (o_side ord)"
  let ?p = "best_price ?s b"
  note b = less.prems(1) and new = less.prems(2)
  have k: "keyed (b_orders b)" and f: "fair b" using b by (auto simp: safe_book_def)
  have stay: ?case if "match_order ord b = Some (b, ord)"
    using that b shrinks_refl [OF k f] by simp
  show ?case
  proof (cases "is_filled ord \<or> ?p = INVALID_PRICE \<or> ?p = 0 \<or> \<not> (o_type ord = Market \<or> would_cross ord ?p)")
    case True
    then show ?thesis by (intro stay, subst match_order.simps) (auto simp: Let_def)
  next
    case go: False
    show ?thesis
    proof (cases "map_of (levels ?s b) ?p")
      case None
      let ?b = "update_best ?s b"
      have eq: "match_order ord b = match_order ord ?b" using go None by (subst match_order.simps) (simp add: Let_def)
      have sh: "shrinks b ord ?b ord" using k f fair_cong [of ?b b] by (simp add: shrinks_def)
      show ?thesis
      proof (cases "map_of (levels ?s ?b) (best_price ?s ?b) = None")
        case True
        then have "best_price ?s ?b = INVALID_PRICE" using update_best_found [of ?s b] by simp
        then have "match_order ord ?b = Some (?b, ord)" using go by (subst match_order.simps) (simp add: Let_def)
        then show ?thesis using eq sh safe_update_best [OF b] by simp
      next
        case False
        then have "2 * length (levels ?s ?b) + of_bool (map_of (levels ?s ?b) (best_price ?s ?b) = None)
            < 2 * length (levels ?s b) + of_bool (map_of (levels ?s b) ?p = None)" using None by simp
        from less.hyps [OF this safe_update_best [OF b]] new show ?thesis
          unfolding eq using shrinks_trans [OF sh] shrinks_comparable [OF sh] by (metis update_best_frame(1))
      qed
    next
      case (Some L)
      have L: "lvl_safe L" "\<not> pl_empty L" using safe_levels_find [OF _ Some] b by (auto simp: safe_book_def)
      have p: "?p \<noteq> 0" "?p \<noteq> INVALID_PRICE" using go by auto
      note run = level_safe_run [OF L(1) k f p new]
      have eq: "match_order ord b = (case match_level ?p ord L b of None \<Rightarrow> None
          | Some (b1, ord1, L1, stopped) \<Rightarrow>
              if stopped then Some (close_level ?s ?p L1 b1, ord1) else match_order ord1 (close_level ?s ?p L1 b1))"
        using go Some L(2) by (subst match_order.simps) (simp add: Let_def split: option.split)
      show ?thesis
      proof (cases "match_level ?p ord L b")
        case None
        then show ?thesis using run eq by auto
      next
        case (Some z)
        obtain b1 ord1 L1 st where z: "z = (b1, ord1, L1, st)" by (metis prod_cases4)
        have d: "level_done b ord (b1, ord1, L1, st)" using run Some z by blast
        let ?b2 = "close_level ?s ?p L1 b1"
        note cl = close_safe [OF b d, of ?s ?p]
        have so: "o_side ord1 = o_side ord" "o_id ord1 = o_id ord" using cl(2) by (simp_all add: shrinks_def same_order_def)
        have eq2: "match_order ord b = (if st then Some (?b2, ord1) else match_order ord1 ?b2)" by (simp add: eq Some z)
        consider "st" | "\<not> st" "is_filled ord1" | "\<not> st" "pl_empty L1" using d by (auto simp: level_done_def split: if_splits)
        then show ?thesis
        proof cases
          case 1
          then show ?thesis using cl(1,2) by (simp add: eq2)
        next
          case 2
          then have "match_order ord1 ?b2 = Some (?b2, ord1)" by (subst match_order.simps) simp
          then show ?thesis using 2 cl(1,2) by (simp add: eq2)
        next
          case 3
          have "(?p, L) \<in> set (levels ?s b)" using \<open>map_of (levels ?s b) ?p = Some L\<close> by (rule map_of_SomeD)
          then have "length (om_erase ?p (levels ?s b)) < length (levels ?s b)"
            unfolding om_erase_def by (intro length_filter_less) auto
          then have "2 * length (levels ?s ?b2) + of_bool (map_of (levels ?s ?b2) (best_price ?s ?b2) = None)
              < 2 * length (levels ?s b) + of_bool (map_of (levels ?s b) ?p = None)"
            using 3 by (simp add: cl(3) of_bool_def)
          from less.hyps [of ord1 ?b2, unfolded so, OF this cl(1)] shrinks_absent [OF cl(2) new]
          have "(\<forall>z. match_order ord1 ?b2 = Some z \<longrightarrow> safe_book (fst z) \<and> shrinks ?b2 ord1 (fst z) (snd z)) \<and>
             (ids_comparable ?b2 (o_id ord) \<longrightarrow> match_order ord1 ?b2 \<noteq> None)" by blast
          then show ?thesis
            using 3 shrinks_trans [OF cl(2)] shrinks_comparable [OF cl(2)] by (metis (no_types, lifting) eq2)
        qed
      qed
    qed
  qed
qed

section \<open>The public calls\<close>

lemma insert_safe: "safe_book b \<Longrightarrow> safe_book (insert_resting_order x b)"
proof -
  assume b: "safe_book b"
  let ?s = "o_side x"
  define L where "L = (case map_of (levels ?s b) (o_price x) of Some L \<Rightarrow> L | None \<Rightarrow> new_level (o_price x))"
  define b1 where "b1 = set_levels ?s (om_put (o_price x) (pl_add_order (o_id x) (remaining x) L) (levels ?s b)) b"
  define b2 where "b2 = b1\<lparr>b_orders := om_put (o_id x) x (b_orders b1)\<rparr>"
  define b3 where "b3 = (if ?s = Buy then (if b_best_bid b2 = INVALID_PRICE \<or> b_best_bid b2 < o_price x then b2\<lparr>b_best_bid := o_price x\<rparr> else b2)
      else (if o_price x < b_best_ask b2 then b2\<lparr>b_best_ask := o_price x\<rparr> else b2))"
  have m: "safe_levels (levels ?s b)" and k: "keyed (b_orders b)" using b by (auto simp: safe_book_def)
  have "lvl_safe L" using safe_levels_find [OF m] safe_new by (auto simp: L_def split: option.split)
  then have "safe_levels (om_put (o_price x) (pl_add_order (o_id x) (remaining x) L) (levels ?s b))"
    using safe_add by (intro safe_levels_put m) (simp_all add: pl_empty_def)
  then have "safe_book b1" unfolding b1_def by (rule safe_set_levels [OF b])
  then have "safe_book b2" unfolding b2_def by (rule safe_set_orders) (use k in \<open>simp add: b1_def\<close>)
  then have "safe_book b3"
  proof (rule safe_update)
    fix s
    have "levels s b3 = levels s b2" by (cases s) (simp_all add: b3_def)
    then show "safe_levels (levels s b3)" using \<open>safe_book b2\<close> by (simp add: safe_book_def)
  qed (use \<open>safe_book b2\<close> in \<open>simp_all add: b3_def safe_book_def\<close>)
  moreover have "insert_resting_order x b = maybe_emit_bbo b3"
    by (simp add: insert_resting_order_def Let_def L_def b1_def b2_def b3_def)
  ultimately show ?thesis by (simp add: safe_events)
qed

lemma finish_safe: "safe_book b \<Longrightarrow> safe_book (fst (finish_add x b))"
  by (simp add: finish_add_def Let_def insert_safe safe_events)

lemma insert_config: "b_config (insert_resting_order x b) = b_config b"
  using insert_emits_bbo [of x b] by (auto simp: same_output_def)

lemma finish_config: "b_config (fst (finish_add x b)) = b_config b"
  by (simp add: finish_add_def Let_def insert_config)

lemma add_safe:
  assumes b: "safe_book b"
  shows "add_order x b = Some z \<Longrightarrow> safe_book (fst z) \<and> b_config (fst z) = b_config b"
    and "ids_comparable b (o_id x) \<Longrightarrow> add_order x b \<noteq> None"
proof -
  have run: "(\<forall>z. match_order (market_price x) b = Some z \<longrightarrow> safe_book (fst z) \<and> b_config (fst z) = b_config b) \<and>
      (ids_comparable b (o_id x) \<longrightarrow> match_order (market_price x) b \<noteq> None)" if "admitted x b"
    using order_safe_run [OF b, of "market_price x"] that by (auto simp: admitted_def shrinks_def)
  show "add_order x b = Some z \<Longrightarrow> safe_book (fst z) \<and> b_config (fst z) = b_config b"
  proof (cases "admitted x b")
    case True
    assume "add_order x b = Some z"
    then obtain b1 x1 where "match_order (market_price x) b = Some (b1, x1)" "z = finish_add x1 b1"
      using add_order_admitted [OF True] by auto
    then show ?thesis using run [OF True] finish_safe finish_config by fastforce
  next
    case False
    assume "add_order x b = Some z"
    with add_order_not_admitted [OF False] obtain r where "same_book b (fst z)" "trade_log (fst z) = trade_log b" by force
    then show ?thesis using safe_same [OF b] b same_bookD(4) by (auto simp: safe_book_def fair_def)
  qed
  show "ids_comparable b (o_id x) \<Longrightarrow> add_order x b \<noteq> None"
    using run add_order_admitted [of x b] add_order_not_admitted [of x b] by (cases "admitted x b") auto
qed

lemma remove_safe: "safe_book b \<Longrightarrow> safe_book (remove_order_from_level i s p b)"
proof (cases "map_of (levels s b) p")
  case (Some L)
  assume b: "safe_book b"
  then have m: "safe_levels (levels s b)" by (simp add: safe_book_def)
  then have "lvl_safe (snd (pl_remove_order i L))" using safe_levels_find [OF m Some] safe_remove by blast
  then show ?thesis
    using safe_set_levels [OF b] safe_levels_put [OF m] safe_levels_erase [OF m]
    by (simp add: remove_order_from_level_def Some Let_def)
qed (simp add: remove_order_from_level_def)

lemma cancel_keeps_safe:
  assumes b: "safe_book b"
  shows "safe_book (fst (cancel_order_with stale i b))" "b_config (fst (cancel_order_with stale i b)) = b_config b"
    "dom (map_of (b_orders (fst (cancel_order_with stale i b)))) \<subseteq> dom (map_of (b_orders b))"
proof (atomize (full), cases "map_of (b_orders b) i")
  case (Some x)
  define b1 where "b1 = remove_order_from_level i (o_side x) (o_price x) b"
  define b3 where "b3 = b1\<lparr>b_orders := om_erase i (om_put i (cancel x) (b_orders b1))\<rparr>"
  have f: "b_orders b1 = b_orders b" "b_config b1 = b_config b"
    by (simp_all add: b1_def remove_order_from_level_def Let_def split: option.split)
  have k: "keyed (b_orders b)" using b by (simp add: safe_book_def)
  then have "o_id (cancel x) = i" using Some by (simp add: keyed_def cancel_def)
  moreover have "safe_book b1" by (simp add: b1_def remove_safe b)
  ultimately have "safe_book b3" unfolding b3_def using k by (intro safe_set_orders) (simp_all add: f)
  moreover have c: "fst (cancel_order_with stale i b) = maybe_emit_bbo (update_best (stale x) b3)"
    by (cases "stale x") (simp_all add: cancel_order_with_def Some Let_def b1_def b3_def)
  ultimately have "safe_book (fst (cancel_order_with stale i b))" by (simp add: safe_events safe_update_best)
  moreover have "b_config (fst (cancel_order_with stale i b)) = b_config b" by (simp add: c b3_def f)
  moreover have "dom (map_of (b_orders (fst (cancel_order_with stale i b)))) \<subseteq> dom (map_of (b_orders b))"
    by (auto simp: c b3_def f)
  ultimately show "safe_book (fst (cancel_order_with stale i b)) \<and> b_config (fst (cancel_order_with stale i b)) = b_config b \<and>
    dom (map_of (b_orders (fst (cancel_order_with stale i b)))) \<subseteq> dom (map_of (b_orders b))" by blast
qed (simp add: cancel_order_with_def b)

lemma replace_safe:
  assumes b: "safe_book b"
  shows "replace_order_with stale junk i p q b = Some z \<Longrightarrow> safe_book (fst z) \<and> b_config (fst z) = b_config b"
    and "ids_comparable b i \<Longrightarrow> replace_order_with stale junk i p q b \<noteq> None"
proof (atomize (full), cases "map_of (b_orders b) i")
  case (Some x)
  let ?b1 = "fst (cancel_order_with stale i b)" and ?y = "mk_order i (o_symbol x) (o_side x) p q (o_type x) (o_tif x)"
  note c = cancel_keeps_safe [OF b, of stale i]
  have ok: "r_success (snd (cancel_order_with stale i b))" by (simp add: cancel_order_with_def Some Let_def)
  have id: "o_id ?y = i" by (simp add: mk_order_def)
  have cmp: "ids_comparable b i \<Longrightarrow> ids_comparable ?b1 (o_id ?y)" using c(2,3) unfolding ids_comparable_def id by auto
  note add = add_safe [OF c(1), of ?y, unfolded c(2)]
  have slow: "(add_order ?y ?b1 = Some z \<longrightarrow> safe_book (fst z) \<and> b_config (fst z) = b_config b) \<and>
      (ids_comparable b i \<longrightarrow> add_order ?y ?b1 \<noteq> None)" for z using add cmp by blast
  show "(replace_order_with stale junk i p q b = Some z \<longrightarrow> safe_book (fst z) \<and> b_config (fst z) = b_config b) \<and>
    (ids_comparable b i \<longrightarrow> replace_order_with stale junk i p q b \<noteq> None)"
  proof (cases "o_price x = p \<and> map_of (levels (o_side x) b) p \<noteq> None")
    case True
    then obtain L where L: "o_price x = p" "map_of (levels (o_side x) b) p = Some L" by auto
    let ?m = "om_put p (snd (pl_modify_quantity i q L)) (levels (o_side x) b)"
    let ?b2 = "(set_levels (o_side x) ?m b)\<lparr>b_orders := om_put i (x\<lparr>o_quantity := q\<rparr>) (b_orders b)\<rparr>"
    have m: "safe_levels (levels (o_side x) b)" and k: "keyed (b_orders b)" using b by (simp_all add: safe_book_def)
    have "safe_levels ?m"
      using safe_levels_find [OF m L(2)] safe_modify [of L i q] by (intro safe_levels_put m) (simp_all add: pl_empty_def)
    moreover have "keyed (om_put i (x\<lparr>o_quantity := q\<rparr>) (b_orders b))" using k Some by (simp add: keyed_def)
    ultimately have "safe_book ?b2" by (intro safe_set_orders safe_set_levels b)
    moreover have "replace_order_with stale junk i p q b = Some (maybe_emit_bbo ?b2, junk\<lparr>r_success := True\<rparr>)"
      by (simp add: replace_order_with_def Some L Let_def)
    ultimately show ?thesis by (auto simp: safe_events)
  next
    case False
    then have "replace_order_with stale junk i p q b = add_order ?y ?b1"
      using ok by (auto simp: replace_order_with_def Some Let_def split_beta)
    then show ?thesis using slow by simp
  qed
qed (use b in \<open>auto simp: replace_order_with_def\<close>)

lemma new_book_safe: "safe_book (new_book sm cfg clock)"
proof -
  have "levels s (new_book sm cfg clock) = []" for s by (cases s) (simp_all add: new_book_def)
  then show ?thesis by (simp add: safe_book_def safe_levels_def keyed_def fair_def trade_log_def) (simp add: new_book_def)
qed

lemma callbacks_safe:
  assumes "safe_book b"
  shows "safe_book (set_trade_callback cb b)" "safe_book (set_execution_callback cb b)" "safe_book (set_bbo_callback cb b)"
proof -
  have "levels s (set_trade_callback cb b) = levels s b \<and> levels s (set_execution_callback cb b) = levels s b \<and>
    levels s (set_bbo_callback cb b) = levels s b" for s
    by (cases s) (simp_all add: set_trade_callback_def set_execution_callback_def set_bbo_callback_def)
  then show "safe_book (set_trade_callback cb b)" "safe_book (set_execution_callback cb b)" "safe_book (set_bbo_callback cb b)"
    using assms
    by (intro safe_update [OF assms]; simp add: safe_book_def; simp add: set_trade_callback_def set_execution_callback_def set_bbo_callback_def)+
qed

lemma built_safe: "built cfg b \<Longrightarrow> safe_book b \<and> b_config b = cfg"
  by (induction rule: built.induct)
    (auto simp: new_book_safe callbacks_safe callback_config flush_pending_def safe_events cancel_keeps_safe dest: add_safe(1) replace_safe(1))

end
