(* ===== verification/Book_Properties.thy ===== *)
theory Book_Properties
  imports Demo_Book Book_Safety
begin

text \<open>
  What \<^verbatim>\<open>OrderBook\<close> promises its clients when orders are added: termination and invariants,
  refinement of the list specification, rejections, price-time priority, conservation of quantity,
  and the contracts of the order kinds. Properties of \<open>built\<close> books hold for every history,
  properties of \<open>reachable\<close> books for histories that respect the contract.
\<close>

lemma reachable_inv: "reachable cfg b \<Longrightarrow> book_inv b" "reachable cfg b \<Longrightarrow> b_config b = cfg" "reachable cfg b \<Longrightarrow> positive b"
  "reachable cfg b \<Longrightarrow> sound_book b"
  using reachable_sound by (auto simp: sound_book_def)

lemma demo_facts: "reachable default_config demo_book" "entries Buy demo_book = [(98, 4, 70)]"
  "entries Sell demo_book = [(100, 1, 50), (100, 2, 30), (101, 3, 40)]" "book_inv demo_book"
  "b_config demo_book = default_config" "stp_hit demo_book x = (\<lambda>_. False)" "stp_defined demo_book x"
  using demo_book_state reachable_inv [of default_config demo_book] stp_off [of demo_book x]
  by (auto simp: demo_state_def)

text \<open>
  The average price of a result, exactly: 0 without fills, else the limit price of the order, unless the
  product with the filled quantity leaves the signed 64-bit range.
\<close>

lemma avg_fill_price_cases:
  "avg_fill_price x =
     (if o_filled_qty x = 0 then Some 0
      else if s64_range (o_price x * uint (o_filled_qty x)) then Some (o_price x) else None)"
  using trunc_div_mult_cancel [of "uint (o_filled_qty x)" "o_price x"]
  by (auto simp: avg_fill_price_def s64_mul_def s64_def word_gt_0 unsigned_eq_0_iff)

section \<open>Matching\<close>

text \<open>
  C1. On a book that satisfies the invariant, \<^verbatim>\<open>match_order\<close> returns; the new book satisfies the
  invariant again, its entries on the opposite side and the quantity left over are those of the
  list sweep in price-time order, its own side is untouched, and the trades it logs are the fills
  of the sweep in order, each at the resting price.
\<close>

theorem match_order_correct:
  assumes "book_inv b" "o_filled_qty ord \<le> o_quantity ord" "stp_defined b ord"
  shows "\<exists>b' ord' fs. match_order ord b = Some (b', ord') \<and> book_inv b' \<and>
     sweep (stp_hit b ord) (crosses ord) (remaining ord) (entries (opposite (o_side ord)) b) =
       (fs, entries (opposite (o_side ord)) b', remaining ord') \<and>
     entries (o_side ord) b' = entries (o_side ord) b \<and>
     map view (trade_log b') = map view (trade_log b) @ (if b_on_trade b = None then [] else map (fill_view ord) fs)"
  using match_order_spec [OF assms] by (auto simp: matched_def)

theorem match_order_correct_witness:
  "\<exists>b' ord'. match_order (demo_order 9 Buy 100 60 Limit Day) demo_book = Some (b', ord') \<and>
     entries Sell b' = [(100, 2, 20), (101, 3, 40)] \<and> remaining ord' = 0"
proof -
  have 1: "book_inv demo_book" "o_filled_qty (demo_order 9 Buy 100 60 Limit Day) \<le> o_quantity (demo_order 9 Buy 100 60 Limit Day)"
    "stp_defined demo_book (demo_order 9 Buy 100 60 Limit Day)"
    by (simp_all add: demo_facts demo_order_def mk_order_def)
  have 2: "sweep (\<lambda>_. False) (crosses (demo_order 9 Buy 100 60 Limit Day)) (remaining (demo_order 9 Buy 100 60 Limit Day))
      [(100, 1, 50), (100, 2, 30), (101, 3, 40)] = ([(100, 1, 50), (100, 2, 10)], [(100, 2, 20), (101, 3, 40)], 0)"
    by code_simp
  have s: "o_side (demo_order 9 Buy 100 60 Limit Day) = Buy" by (simp add: demo_order_def mk_order_def)
  have o: "opposite (o_side (demo_order 9 Buy 100 60 Limit Day)) = Sell" by (simp add: s)
  from match_order_correct [OF 1, unfolded o, unfolded demo_facts 2] show ?thesis by auto
qed

section \<open>Adding\<close>

lemma comparable_defined:
  assumes "book_inv b" "ids_comparable b (o_id x)"
  shows "stp_defined b (market_price x)"
  unfolding stp_defined_def
proof (intro impI ballI)
  fix e
  assume on: "c_enable_self_trade_prevention (b_config b)" and e: "e \<in> set (entries (opposite (o_side (market_price x))) b)"
  have "linked (opposite (o_side x)) b" using assms(1) by (simp add: book_inv_side core_inv_side)
  from linkedD [OF this, of "fst e" "entry_id e" "snd (snd e)"] e have "entry_id e \<in> dom (map_of (b_orders b))" by auto
  then show "stp_blocks (o_id (market_price x)) (entry_id e) \<noteq> None"
    using assms(2) on by (auto simp: ids_comparable_def)
qed

text \<open>
  C3. \<^verbatim>\<open>add_order\<close> returns on every book, whatever public calls built it and whatever the order, as
  long as self-trade prevention is off or meets no ids \<open>2 ^ 63\<close> apart; no level is left empty or
  touches freed memory. (Only the average price it reports can overflow, see \<open>avg_fill_price_cases\<close>.) If the book was consistent and the order has no fills yet and, should it be of
  a kind that rests, a price below the sentinel, the new book is consistent again; its prices are old
  ones and that of the order; and, without self-trade prevention and without an order resting at price 0
  on the other side, two sides that did not cross still do not.
\<close>

theorem add_order_total_invariant:
  assumes "built cfg b" "ids_comparable b (o_id x)"
  shows "\<exists>b' r. add_order x b = Some (b', r) \<and> built cfg b' \<and>
     (\<forall>s. \<forall>(p, L) \<in> set (levels s b'). \<not> pl_empty L \<and> \<not> pl_fault L) \<and>
     (book_inv b \<and> order_wf x \<longrightarrow> book_inv b' \<and>
        (\<forall>s. fst ` set (entries s b') \<subseteq> fst ` set (entries s b) \<union> (if s = o_side x \<and> rests x then {o_price x} else {})) \<and>
        (\<not> c_enable_self_trade_prevention cfg \<and> uncrossed b \<and> 0 \<notin> fst ` set (entries (opposite (o_side x)) b) \<longrightarrow> uncrossed b'))"
proof -
  have b: "safe_book b" "b_config b = cfg" using built_safe [OF assms(1)] by auto
  obtain b' r where a: "add_order x b = Some (b', r)" using add_safe(2) [OF b(1) assms(2)] by auto
  then have b': "built cfg b'" by (rule built_add [OF assms(1)])
  then have "safe_levels (levels s b')" for s using built_safe by (simp add: safe_book_def)
  then have "\<forall>s. \<forall>(p, L) \<in> set (levels s b'). \<not> pl_empty L \<and> \<not> pl_fault L"
    unfolding safe_levels_def using lvl_safe_fault by fastforce
  moreover have "book_inv b' \<and>
      (\<forall>s. fst ` set (entries s b') \<subseteq> fst ` set (entries s b) \<union> (if s = o_side x \<and> rests x then {o_price x} else {})) \<and>
      (\<not> c_enable_self_trade_prevention cfg \<and> uncrossed b \<and> 0 \<notin> fst ` set (entries (opposite (o_side x)) b) \<longrightarrow> uncrossed b')"
    if "book_inv b \<and> order_wf x"
    using add_consistent [of b x] comparable_defined [OF _ assms(2)] that a b(2) by auto
  ultimately show ?thesis using a b' by blast
qed

lemma demo_valid:
  "valid_order demo_book (demo_order 9 Buy 100 60 Limit Day)"
  by (rule valid_order_off [OF demo_facts(1) default_config_off demo_orders_wf(5)])
    (simp add: demo_order_def mk_order_def)

lemma demo_uncrossed: "uncrossed demo_book"
  by (simp add: uncrossed_def demo_facts)

theorem add_order_total_invariant_witness:
  "\<exists>b' r. add_order (demo_order 9 Buy 100 60 Limit Day) demo_book = Some (b', r) \<and> book_inv b' \<and> uncrossed b'"
proof -
  have c: "ids_comparable demo_book (o_id (demo_order 9 Buy 100 60 Limit Day))"
    by (simp add: ids_comparable_def demo_facts default_config_def)
  have "o_side (demo_order 9 Buy 100 60 Limit Day) = Buy" by (simp add: demo_order_def mk_order_def)
  then show ?thesis
    using add_order_total_invariant [OF reachable_built [OF demo_facts(1)] c] demo_orders_wf(5) demo_uncrossed
    by (auto simp: demo_facts default_config_off)
qed

text \<open>
  C2. An admitted order does to the two lists of entries what the specification says: sweep the
  opposite side, then insert the rest, if this kind of order rests, behind the entries that are at
  least as good. The result carries the order's id and the quantity filled; it reports failure only
  for a fill-or-kill order that was not filled.
\<close>

theorem add_order_refines_spec:
  assumes "reachable cfg b" "valid_order b x" "admitted x b"
  shows "\<exists>b' r fs. add_order x b = Some (b', r) \<and>
     spec_add (stp_hit b x) (market_price x) (entries (o_side x) b) (entries (opposite (o_side x)) b) =
       (fs, entries (o_side x) b', entries (opposite (o_side x)) b') \<and>
     map view (trade_log b') = map view (trade_log b) @ (if b_on_trade b = None then [] else map (fill_view x) fs) \<and>
     r_order_id r = o_id x \<and> r_success r = (is_ioc x \<or> \<not> is_fok x \<or> filled_by fs = o_quantity x) \<and>
     r_filled_qty r = (if r_success r then filled_by fs else 0)"
proof -
  have "order_wf x" "stp_defined b (market_price x)" using assms(2) by (simp_all add: valid_order_def)
  from add_order_spec [OF reachable_inv(1) [OF assms(1)] assms(3) this] show ?thesis by blast
qed

lemma demo_admitted: "admitted (demo_order 9 Buy 100 60 Limit Day) demo_book"
proof -
  have "map_of (b_orders demo_book) 9 = None"
  proof (rule ccontr)
    assume "map_of (b_orders demo_book) 9 \<noteq> None"
    then obtain y where y: "map_of (b_orders demo_book) 9 = Some y" by auto
    then have "(o_price y, 9, remaining y) \<in> set (entries (o_side y) demo_book)"
      using demo_facts(4) by (auto simp: book_inv_side core_inv_side linked_def)
    then show False by (cases "o_side y") (auto simp: demo_facts)
  qed
  then show ?thesis by (simp add: admitted_def demo_order_def mk_order_def is_fok_def)
qed

theorem add_order_refines_spec_witness:
  "\<exists>b' r. add_order (demo_order 9 Buy 100 60 Limit Day) demo_book = Some (b', r) \<and> r_filled_qty r = 60 \<and>
     entries Buy b' = [(98, 4, 70)] \<and> entries Sell b' = [(100, 2, 20), (101, 3, 40)]"
proof -
  have s: "o_side (demo_order 9 Buy 100 60 Limit Day) = Buy" "market_price (demo_order 9 Buy 100 60 Limit Day) = demo_order 9 Buy 100 60 Limit Day"
    "\<not> is_fok (demo_order 9 Buy 100 60 Limit Day)"
    by (simp_all add: demo_order_def mk_order_def is_fok_def)
  have 2: "spec_add (\<lambda>_. False) (demo_order 9 Buy 100 60 Limit Day) [(98, 4, 70)] [(100, 1, 50), (100, 2, 30), (101, 3, 40)]
      = ([(100, 1, 50), (100, 2, 10)], [(98, 4, 70)], [(100, 2, 20), (101, 3, 40)])"
    by code_simp
  have o: "opposite (o_side (demo_order 9 Buy 100 60 Limit Day)) = Sell" by (simp add: s)
  from add_order_refines_spec [OF demo_facts(1) demo_valid demo_admitted, unfolded o, unfolded s demo_facts 2]
  show ?thesis using s(3) by (auto simp: filled_by_def)
qed

section \<open>Priority and conservation\<close>

lemma admitted_effect:
  assumes inv: "book_inv b" and wf: "order_wf x" and stp: "stp_defined b (market_price x)"
    and add: "add_order x b = Some (b', r)" and adm: "admitted x b"
  obtains fs q where
    "sweep (stp_hit b x) (crosses (market_price x)) (o_quantity x) (entries (opposite (o_side x)) b) =
       (fs, entries (opposite (o_side x)) b', q)"
    "entries (o_side x) b' =
       (if q \<noteq> 0 \<and> rests x then insert_entry (o_side x) (o_price x, o_id x, q) (entries (o_side x) b) else entries (o_side x) b)"
    "map view (trade_log b') = map view (trade_log b) @ (if b_on_trade b = None then [] else map (fill_view x) fs)"
    "r_success r = (is_ioc x \<or> \<not> is_fok x \<or> filled_by fs = o_quantity x)"
    "r_filled_qty r = (if r_success r then filled_by fs else 0)" "book_inv b'" "filled_by fs + q = o_quantity x"
    "map_of (b_orders b') (o_id x) = None = (\<not> (rests x \<and> filled_by fs \<noteq> o_quantity x))" "r_order_id r = o_id x"
proof -
  from add_order_spec [OF inv adm wf stp] add obtain fs where
    1: "book_inv b'" "spec_add (stp_hit b x) (market_price x) (entries (o_side x) b) (entries (opposite (o_side x)) b) =
       (fs, entries (o_side x) b', entries (opposite (o_side x)) b')"
     "map view (trade_log b') = map view (trade_log b) @ (if b_on_trade b = None then [] else map (fill_view x) fs)"
     "r_success r = (is_ioc x \<or> \<not> is_fok x \<or> filled_by fs = o_quantity x)"
     "r_filled_qty r = (if r_success r then filled_by fs else 0)"
     "map_of (b_orders b') (o_id x) = None = (\<not> (rests x \<and> filled_by fs \<noteq> o_quantity x))" "r_order_id r = o_id x" by force
  from spec_add_cases [OF 1(2)] obtain q where
    2: "sweep (stp_hit b x) (crosses (market_price x)) (o_quantity x) (entries (opposite (o_side x)) b) =
       (fs, entries (opposite (o_side x)) b', q)"
    "entries (o_side x) b' =
       (if q \<noteq> 0 \<and> rests x then insert_entry (o_side x) (o_price x, o_id x, q) (entries (o_side x) b) else entries (o_side x) b)" .
  have "unat (filled_by fs + q) = unat (o_quantity x) mod 2 ^ 32"
    using sweep_conserves [OF 2(1)] unat_sum_list_words [of "map (snd \<circ> snd) fs"]
    by (simp add: filled_by_def unat_word_ariths comp_def mod_add_left_eq)
  then have "filled_by fs + q = o_quantity x"
    using unsigned_less [of "o_quantity x", where ?'a = nat] by (simp add: word_unat_eq_iff)
  with 1 2 show ?thesis by (intro that)
qed

lemma admitted_result:
  assumes "reachable cfg b" "valid_order b x" "add_order x b = Some (b', r)" "admitted x b"
  obtains fs q where
    "sweep (stp_hit b x) (crosses (market_price x)) (o_quantity x) (entries (opposite (o_side x)) b) =
       (fs, entries (opposite (o_side x)) b', q)"
    "entries (o_side x) b' =
       (if q \<noteq> 0 \<and> rests x then insert_entry (o_side x) (o_price x, o_id x, q) (entries (o_side x) b) else entries (o_side x) b)"
    "map view (trade_log b') = map view (trade_log b) @ (if b_on_trade b = None then [] else map (fill_view x) fs)"
    "r_success r = (is_ioc x \<or> \<not> is_fok x \<or> filled_by fs = o_quantity x)"
    "r_filled_qty r = (if r_success r then filled_by fs else 0)" "book_inv b'" "filled_by fs + q = o_quantity x"
    "map_of (b_orders b') (o_id x) = None = (\<not> (rests x \<and> filled_by fs \<noteq> o_quantity x))"
proof -
  have v: "order_wf x" "stp_defined b (market_price x)" using assms(2) by (simp_all add: valid_order_def)
  show ?thesis by (rule admitted_effect [OF reachable_inv(1) [OF assms(1)] v assms(3,4)]) (rule that)
qed

lemma demo_callback: "b_on_trade demo_book \<noteq> None"
  using demo_book_state by (simp add: demo_state_def)

text \<open>
  C12. Price-time priority. An incoming order consumes the opposite queue from its front: the fills
  are whole resting orders in queue order and at most a part of the next one, every fill is at a
  price the order accepts, and the queue is sorted best price first, so no resting order is passed
  over in favour of a worse or a later one.
\<close>

theorem price_time_priority:
  assumes "reachable cfg b" "valid_order b x" "add_order x b = Some (b', r)" "admitted x b"
  defines "opp \<equiv> entries (opposite (o_side x)) b" and "opp' \<equiv> entries (opposite (o_side x)) b'"
  shows "sorted_wrt (\<lambda>e f. \<not> better (opposite (o_side x)) (fst f) (fst e)) opp \<and>
    (\<exists>fs. map view (trade_log b') = map view (trade_log b) @ (if b_on_trade b = None then [] else map (fill_view x) fs) \<and>
      (\<forall>f \<in> set fs. crosses (market_price x) (fst f)) \<and>
      (opp = fs @ opp' \<or>
       (\<exists>taken p i q a rest. opp = taken @ (p, i, q) # rest \<and> fs = taken @ [(p, i, a)] \<and>
          opp' = (p, i, q - a) # rest \<and> a < q)))"
proof -
  have "levels_ok (levels (opposite (o_side x)) b)"
    using reachable_inv(1) [OF assms(1)] by (simp add: book_inv_side core_inv_side)
  then have "sorted_wrt (\<lambda>e f. \<not> better (opposite (o_side x)) (fst f) (fst e)) opp"
    unfolding opp_def by (rule entries_sorted)
  moreover obtain fs q where sw: "sweep (stp_hit b x) (crosses (market_price x)) (o_quantity x) opp = (fs, opp', q)"
    and tl: "map view (trade_log b') = map view (trade_log b) @ (if b_on_trade b = None then [] else map (fill_view x) fs)"
    by (rule admitted_result [OF assms(1-4), folded opp_def opp'_def]) (rule that)
  ultimately show ?thesis using sweep_prefix [OF sw] sweep_fills_ok [OF sw] by blast
qed

theorem price_time_priority_witness:
  "\<exists>b' r. add_order (demo_order 9 Buy 100 60 Limit Day) demo_book = Some (b', r) \<and>
     (\<exists>rest. entries Sell b' = rest \<and> sorted_wrt (\<lambda>e f. \<not> better Sell (fst f) (fst e)) (entries Sell demo_book))"
proof -
  from add_total [OF demo_facts(1) demo_valid] obtain b' r where a: "add_order (demo_order 9 Buy 100 60 Limit Day) demo_book = Some (b', r)" by auto
  have "o_side (demo_order 9 Buy 100 60 Limit Day) = Buy" by (simp add: demo_order_def mk_order_def)
  then show ?thesis using price_time_priority [OF demo_facts(1) demo_valid a demo_admitted] a by simp
qed

lemma sweep_amounts:
  assumes "sweep stp ok q es = (fs, es', q')"
  shows "amount fs + amount es' = amount es"
  using sweep_prefix [OF assms]
proof (elim disjE exE conjE)
  fix taken p i r a rest
  assume e: "es = taken @ (p, i, r) # rest" "fs = taken @ [(p, i, a)]" "es' = (p, i, r - a) # rest" and "a < r"
  then have "unat a + unat (r - a) = unat r"
    by (simp add: unat_sub word_less_nat_alt word_le_nat_alt less_imp_le)
  then show ?thesis by (simp add: e amount_def)
qed simp

lemma filled_amount:
  assumes "sweep stp ok q es = (fs, es', q')"
  shows "unat (filled_by fs) = amount fs"
proof -
  have "amount fs \<le> unat q" using sweep_conserves [OF assms] by (simp add: amount_def)
  then have "amount fs < 2 ^ 32" using unsigned_less [of q, where ?'a = nat] by simp
  then show ?thesis
    using unat_sum_list_words [of "map (snd \<circ> snd) fs"] by (simp add: filled_by_def amount_def comp_def)
qed

lemma amount_insert: "amount (insert_entry s e es) = unat (snd (snd e)) + amount es"
  by (induction es) (simp_all add: amount_def)

section \<open>Refusals\<close>

text \<open>
  Which orders are refused, said about the resting orders and not about the members of the book: the
  reasons a book can see before matching, in their order.
\<close>

definition crossing_amount_of :: "order \<Rightarrow> entry list \<Rightarrow> nat" where
  "crossing_amount_of x opp = amount (filter (\<lambda>e. o_type x = Market \<or> would_cross (market_price x) (fst e)) opp)"

definition spec_refusal :: "book_config \<Rightarrow> order \<Rightarrow> entry list \<Rightarrow> entry list \<Rightarrow> reject_reason option" where
  "spec_refusal cfg x own opp =
     (if o_quantity x = 0 then Some InvalidQuantity
      else if o_type x = Limit \<and> o_price x \<le> 0 then Some InvalidPrice
      else if o_id x \<in> entry_id ` set (own @ opp) then Some DuplicateOrderId
      else if o_type x = PostOnly \<and> c_enable_post_only_rejection cfg \<and> (\<exists>e \<in> set opp. would_cross x (fst e)) then Some WouldCross
      else if is_fok x \<and> crossing_amount_of x opp < unat (o_quantity x) then Some InvalidQuantity
      else None)"

lemma live_entry:
  assumes "book_inv b"
  shows "map_of (b_orders b) i \<noteq> None \<longleftrightarrow> i \<in> entry_id ` set (entries s b @ entries (opposite s) b)"
proof
  assume "map_of (b_orders b) i \<noteq> None"
  then obtain y where y: "map_of (b_orders b) i = Some y" by auto
  then have "(o_price y, i, remaining y) \<in> set (entries (o_side y) b)"
    using assms by (auto simp: book_inv_side core_inv_side linked_def)
  then show "i \<in> entry_id ` set (entries s b @ entries (opposite s) b)" by (cases s; cases "o_side y") force+
next
  assume "i \<in> entry_id ` set (entries s b @ entries (opposite s) b)"
  then obtain e t where "e \<in> set (entries t b)" "entry_id e = i" by auto
  moreover have "linked t b" using assms by (simp add: book_inv_side core_inv_side)
  ultimately show "map_of (b_orders b) i \<noteq> None" using linkedD [of t b "fst e" i "snd (snd e)"] by (cases e) auto
qed

lemma best_crosses:
  assumes inv: "book_inv b" and s: "s = opposite (o_side x)"
  shows "best_price s b \<noteq> INVALID_PRICE \<and> would_cross x (best_price s b) \<longleftrightarrow> (\<exists>e \<in> set (entries s b). would_cross x (fst e))"
proof -
  have i: "levels_ok (levels s b)" "no_empty (levels s b)" "best_price s b = top_price s b"
    using inv by (auto simp: book_inv_side core_inv_side)
  show ?thesis
  proof (cases "prio s (levels s b)")
    case Nil
    have "top_price s b = INVALID_PRICE" "entries s b = []" unfolding top_price_def entries_def Nil by simp_all
    then show ?thesis using i(3) by simp
  next
    case (Cons l ls)
    obtain p L where l: "l = (p, L)" by (cases l)
    have m: "(p, L) \<in> set (levels s b)" using Cons l by (metis list.set_intros(1) prio_simps(3))
    then obtain e es where "contents L = e # es" using i(2) by (force simp: no_empty_def neq_Nil_conv)
    then obtain f fs where ent: "entries s b = f # fs" "fst f = p" by (simp add: entries_def Cons l level_entries_def case_prod_beta)
    have "best_price s b = p" using i(3) by (simp add: top_price_def Cons l)
    moreover have "p \<noteq> INVALID_PRICE" using i(1) m by (auto simp: levels_ok_def)
    moreover have "would_cross x p" if "e \<in> set fs" "would_cross x (fst e)" for e
    proof -
      have "\<not> better s (fst e) p" using entries_sorted [OF i(1)] that(1) by (simp add: ent)
      then show ?thesis using that(2) s by (cases "o_side x") (simp_all add: better_def would_cross_def)
    qed
    ultimately show ?thesis using ent by auto
  qed
qed

lemma post_only_cross_entries:
  assumes "book_inv b"
  shows "post_only_would_cross x b \<longleftrightarrow> (\<exists>e \<in> set (entries (opposite (o_side x)) b). would_cross x (fst e))"
  using best_crosses [OF assms refl, of x] by (cases "o_side x") (auto simp: post_only_would_cross_def would_cross_def)

lemma fok_check_amount:
  assumes "book_inv b" "crossing_amount_of x (entries (opposite (o_side x)) b) < 2 ^ 32"
  shows "fok_available (market_price x) (levels (opposite (o_side x)) b) 0 < o_quantity x \<longleftrightarrow>
    crossing_amount_of x (entries (opposite (o_side x)) b) < unat (o_quantity x)"
  using fok_within [OF assms(1), of "market_price x" "opposite (o_side x)"]
    fok_admits [OF assms(1), of "market_price x" "opposite (o_side x)"] assms(2)
  by (auto simp: crossing_amount_of_def not_less [symmetric])

text \<open>The checks of the code, on its own members, are the ones of the specification.\<close>

lemma refusal_checks:
  assumes inv: "book_inv b" and w: "is_fok x \<longrightarrow> crossing_amount_of x (entries (opposite (o_side x)) b) < 2 ^ 32"
  shows "case spec_refusal (b_config b) x (entries (o_side x) b) (entries (opposite (o_side x)) b) of
     None \<Rightarrow> admitted x b
   | Some why \<Rightarrow> \<exists>b' r. add_order x b = Some (b', r) \<and> same_book b b' \<and> trade_log b' = trade_log b \<and>
       \<not> r_success r \<and> r_order_id r = o_id x \<and> r_filled_qty r = 0 \<and> r_reject_reason r = why"
  unfolding spec_refusal_def admitted_def live_entry [OF inv, symmetric] post_only_cross_entries [OF inv, symmetric]
  using fok_check_amount [OF inv, of x] w
  by (auto simp: add_order_def Let_def reject_def init_result_def same_emit_report)

text \<open>
  A fill-or-kill order that passed the pre-check and is not filled was stopped by self-trade prevention,
  unless the loop met an order resting at price 0.
\<close>

lemma fok_stopped:
  assumes inv: "book_inv b" and pos: "positive b" and s: "s = opposite (o_side x)"
    and a: "\<not> fok_available (market_price x) (levels s b) 0 < o_quantity x"
    and sw: "sweep stp (crosses (market_price x)) (o_quantity x) (entries s b) = (fs, es', q)" and q: "q \<noteq> 0"
  shows "es' \<noteq> [] \<and> stp (entry_id (hd es'))"
proof -
  let ?P = "\<lambda>p. o_type x = Market \<or> would_cross (market_price x) p"
  have lo: "levels_ok (levels s b)" using inv by (simp add: book_inv_side core_inv_side)
  have es: "entries s b = fs @ es'" using sweep_prefix [OF sw] q by auto
  have "amount fs < unat (o_quantity x)"
    using sweep_conserves [OF sw] q by (simp add: amount_def) (metis add.commute less_add_same_cancel2 unat_gt_0)
  also have "\<dots> \<le> amount (filter (\<lambda>e. ?P (fst e)) (entries s b))"
    using fok_within [OF inv, of "market_price x" s] a by simp
  also have "\<dots> = amount (filter (\<lambda>e. ?P (fst e)) fs) + amount (filter (\<lambda>e. ?P (fst e)) es')" by (simp add: es)
  finally have "amount fs < amount (filter (\<lambda>e. ?P (fst e)) fs) + amount (filter (\<lambda>e. ?P (fst e)) es')" .
  moreover have "amount (filter Q zs) \<le> amount zs" for Q and zs :: "entry list"
    by (induction zs) (simp_all add: amount_def)
  ultimately have "filter (\<lambda>e. ?P (fst e)) es' \<noteq> []"
    by (metis add.right_neutral amount_append(2) not_less)
  then obtain e where e: "e \<in> set es'" "?P (fst e)" by (auto simp: filter_empty_conv)
  then have ne: "es' \<noteq> []" by auto
  then have hd: "hd es' \<in> set (entries s b)" by (simp add: es)
  have "sorted_wrt (\<lambda>x y. \<not> better s (fst y) (fst x)) es'"
    using entries_sorted [OF lo] by (simp add: es sorted_wrt_append)
  then have "e = hd es' \<or> \<not> better s (fst e) (fst (hd es'))" using e(1) by (cases es') auto
  then have "?P (fst (hd es'))"
    using e(2) s by (cases "o_side x") (auto simp: better_def would_cross_def)
  moreover have "fst (hd es') \<noteq> 0" "fst (hd es') \<noteq> INVALID_PRICE"
    using pos hd unfolding positive_def by force+
  ultimately have "crosses (market_price x) (fst (hd es'))" by (simp add: crosses_def)
  then show ?thesis using sweep_stop [OF sw q] ne by blast
qed

lemma finish_reason: "r_reject_reason (snd (finish_add x b)) = (if r_success (snd (finish_add x b)) then RejNone else InvalidQuantity)"
  by (simp add: finish_add_def Let_def init_result_def)

lemma admitted_reason:
  assumes "admitted x b" "add_order x b = Some (b', r)"
  shows "r_reject_reason r = (if r_success r then RejNone else InvalidQuantity)"
proof -
  from assms obtain b1 x1 where "finish_add x1 b1 = (b', r)" by (auto simp: add_order_admitted)
  then show ?thesis using finish_reason [of x1 b1] by simp
qed

text \<open>
  C37. Every refusal, on a consistent book. An order is refused with the first reason that the resting
  orders and the order itself give (no quantity, a limit price that is not positive, an id that rests
  already, a post-only order that would trade, a fill-or-kill order that asks for more than rests at its
  prices), and then the book is unchanged and no trade happens. Any other order is matched and accepted,
  except a fill-or-kill order that matching leaves unfilled: it is answered like the last reason, but the
  trades it made stand. With positive prices that happens only when self-trade prevention stops it in
  front of an order of the same owner. (The fill-or-kill check adds in 32 bits; the sum must fit.)
\<close>

theorem add_order_rejects:
  assumes "book_inv b" "order_wf x" "stp_defined b (market_price x)" "add_order x b = Some (b', r)"
    "is_fok x \<longrightarrow> crossing_amount_of x (entries (opposite (o_side x)) b) < 2 ^ 32"
  shows "r_order_id r = o_id x \<and>
    (case spec_refusal (b_config b) x (entries (o_side x) b) (entries (opposite (o_side x)) b) of
       Some why \<Rightarrow> \<not> r_success r \<and> r_reject_reason r = why \<and> r_filled_qty r = 0 \<and> same_book b b' \<and> trade_log b' = trade_log b
     | None \<Rightarrow>
        (\<exists>fs q. sweep (stp_hit b x) (crosses (market_price x)) (o_quantity x) (entries (opposite (o_side x)) b) =
             (fs, entries (opposite (o_side x)) b', q) \<and>
           map view (trade_log b') = map view (trade_log b) @ (if b_on_trade b = None then [] else map (fill_view x) fs) \<and>
           (r_success r \<longleftrightarrow> is_ioc x \<or> \<not> is_fok x \<or> q = 0) \<and>
           (r_success r \<longrightarrow> r_reject_reason r = RejNone \<and> r_filled_qty r = filled_by fs) \<and>
           (\<not> r_success r \<longrightarrow> r_reject_reason r = InvalidQuantity \<and> r_filled_qty r = 0 \<and>
              entries (o_side x) b' = entries (o_side x) b \<and>
              (positive b \<longrightarrow> entries (opposite (o_side x)) b' \<noteq> [] \<and>
                 stp_hit b x (entry_id (hd (entries (opposite (o_side x)) b')))))))"
proof (cases "spec_refusal (b_config b) x (entries (o_side x) b) (entries (opposite (o_side x)) b)")
  case (Some why)
  then show ?thesis using refusal_checks [OF assms(1,5)] assms(4) by auto
next
  case None
  then have adm: "admitted x b" using refusal_checks [OF assms(1,5)] by simp
  obtain fs q where 1: "sweep (stp_hit b x) (crosses (market_price x)) (o_quantity x) (entries (opposite (o_side x)) b) =
       (fs, entries (opposite (o_side x)) b', q)"
    "entries (o_side x) b' =
       (if q \<noteq> 0 \<and> rests x then insert_entry (o_side x) (o_price x, o_id x, q) (entries (o_side x) b) else entries (o_side x) b)"
    "map view (trade_log b') = map view (trade_log b) @ (if b_on_trade b = None then [] else map (fill_view x) fs)"
    "r_success r = (is_ioc x \<or> \<not> is_fok x \<or> filled_by fs = o_quantity x)"
    "r_filled_qty r = (if r_success r then filled_by fs else 0)" "filled_by fs + q = o_quantity x" "r_order_id r = o_id x"
    by (rule admitted_effect [OF assms(1-4) adm]) (rule that)
  have z: "filled_by fs = o_quantity x \<longleftrightarrow> q = 0" using 1(6) by (metis add_cancel_right_right)
  have "\<not> fok_available (market_price x) (levels (opposite (o_side x)) b) 0 < o_quantity x" if "is_fok x"
    using adm that by (simp add: admitted_def)
  then have "entries (opposite (o_side x)) b' \<noteq> [] \<and> stp_hit b x (entry_id (hd (entries (opposite (o_side x)) b')))"
    if "is_fok x" "positive b" "q \<noteq> 0" using fok_stopped [OF assms(1) that(2) refl _ 1(1) that(3)] that(1) by blast
  moreover have "is_fok x \<Longrightarrow> \<not> rests x" by (simp add: rests_def)
  ultimately show ?thesis
    unfolding None option.case using 1 z admitted_reason [OF adm assms(4)]
    by (intro conjI exI [of _ fs] exI [of _ q]) auto
qed

theorem add_order_rejects_witness:
  "(\<exists>b' r. add_order (demo_order 2 Buy 100 60 Limit Day) demo_book = Some (b', r) \<and> r_reject_reason r = DuplicateOrderId) \<and>
   (\<exists>b' r. add_order (demo_order 9 Buy 100 60 PostOnly Day) demo_book = Some (b', r) \<and> r_reject_reason r = WouldCross \<and>
      same_book demo_book b') \<and>
   (\<exists>b' r. add_order (demo_order 9 Buy 101 121 Limit TifFillOrKill) demo_book = Some (b', r) \<and> r_reject_reason r = InvalidQuantity \<and>
      trade_log b' = trade_log demo_book)"
proof -
  have no: "\<exists>b' r. add_order x demo_book = Some (b', r) \<and> r_reject_reason r = why \<and> same_book demo_book b' \<and>
      trade_log b' = trade_log demo_book"
    if "order_wf x" "o_side x = Buy" "crossing_amount_of x [(100, 1, 50), (100, 2, 30), (101, 3, 40)] < 2 ^ 32"
      "spec_refusal default_config x [(98, 4, 70)] [(100, 1, 50), (100, 2, 30), (101, 3, 40)] = Some why" for x why
  proof -
    have v: "stp_defined demo_book (market_price x)" "ids_comparable demo_book (o_id x)"
      by (simp_all add: demo_facts ids_comparable_def default_config_def)
    have e: "entries (o_side x) demo_book = [(98, 4, 70)]" "entries (opposite (o_side x)) demo_book = [(100, 1, 50), (100, 2, 30), (101, 3, 40)]"
      by (simp_all add: that(2) demo_facts)
    from add_safe(2) [OF built_safe [OF reachable_built [OF demo_facts(1)], THEN conjunct1] v(2)] obtain b' r
      where a: "add_order x demo_book = Some (b', r)" by auto
    from add_order_rejects [OF demo_facts(4) that(1) v(1) a] show ?thesis
      using that(3,4) a unfolding e demo_facts(5) by simp
  qed
  have c: "order_wf (demo_order 2 Buy 100 60 Limit Day)" "order_wf (demo_order 9 Buy 100 60 PostOnly Day)"
    "order_wf (demo_order 9 Buy 101 121 Limit TifFillOrKill)" "o_side (demo_order i Buy p q ty tif) = Buy" for i p q ty tif
    by (code_simp, code_simp, code_simp, simp add: demo_order_def mk_order_def)
  have amt: "crossing_amount_of x [(100, 1, 50), (100, 2, 30), (101, 3, 40)] < 2 ^ 32" for x
    by (simp add: crossing_amount_of_def amount_def)
  have s: "spec_refusal default_config (demo_order 2 Buy 100 60 Limit Day) [(98, 4, 70)] [(100, 1, 50), (100, 2, 30), (101, 3, 40)] = Some DuplicateOrderId"
    "spec_refusal default_config (demo_order 9 Buy 100 60 PostOnly Day) [(98, 4, 70)] [(100, 1, 50), (100, 2, 30), (101, 3, 40)] = Some WouldCross"
    "spec_refusal default_config (demo_order 9 Buy 101 121 Limit TifFillOrKill) [(98, 4, 70)] [(100, 1, 50), (100, 2, 30), (101, 3, 40)] = Some InvalidQuantity"
    by code_simp+
  show ?thesis using no [OF c(1,4) amt s(1)] no [OF c(2,4) amt s(2)] no [OF c(3,4) amt s(3)] by blast
qed

section \<open>Conservation\<close>

text \<open>
  C13. Nothing is lost or invented: the quantities of the trades an admitted order causes and the
  quantity that comes to rest or is dropped add up, without wrap-around, to the order's quantity,
  and the same amount leaves the opposite side.
\<close>

theorem add_order_conserves:
  assumes "reachable cfg b" "valid_order b x" "add_order x b = Some (b', r)" "admitted x b"
    "b_on_trade b \<noteq> None"
  shows "\<exists>ts. map view (trade_log b') = map view (trade_log b) @ ts \<and>
     (let traded = sum_list (map (\<lambda>(p, q, buy, sell, aggressor). unat q) ts) in
      amount (entries (opposite (o_side x)) b') + traded = amount (entries (opposite (o_side x)) b) \<and>
      traded \<le> unat (o_quantity x) \<and>
      (r_success r \<longrightarrow> unat (r_filled_qty r) = traded) \<and>
      amount (entries (o_side x) b') =
        amount (entries (o_side x) b) + (if rests x then unat (o_quantity x) - traded else 0))"
proof -
  obtain fs q where sw: "sweep (stp_hit b x) (crosses (market_price x)) (o_quantity x) (entries (opposite (o_side x)) b) =
       (fs, entries (opposite (o_side x)) b', q)"
    and own: "entries (o_side x) b' =
       (if q \<noteq> 0 \<and> rests x then insert_entry (o_side x) (o_price x, o_id x, q) (entries (o_side x) b) else entries (o_side x) b)"
    and tl: "map view (trade_log b') = map view (trade_log b) @ (if b_on_trade b = None then [] else map (fill_view x) fs)"
    and r: "r_filled_qty r = (if r_success r then filled_by fs else 0)"
    by (rule admitted_result [OF assms(1-4)]) (rule that)
  have traded: "sum_list (map (\<lambda>(p, q, buy, sell, aggressor). unat q) (map (fill_view x) fs)) = amount fs"
    by (induction fs) (auto simp: amount_def fill_view_def split: prod.splits)
  have c: "amount fs + unat q = unat (o_quantity x)" using sweep_conserves [OF sw] by (simp add: amount_def)
  have f: "unat (filled_by fs) = amount fs" by (rule filled_amount [OF sw])
  have o: "amount fs + amount (entries (opposite (o_side x)) b') = amount (entries (opposite (o_side x)) b)"
    by (rule sweep_amounts [OF sw])
  have w: "amount (entries (o_side x) b') = amount (entries (o_side x) b) + (if rests x then unat q else 0)"
    unfolding own by (simp add: amount_insert)
  show ?thesis
    using assms(5) tl r f o w c by (intro exI [of _ "map (fill_view x) fs"]) (auto simp: traded [simplified] Let_def)
qed

theorem add_order_conserves_witness:
  "\<exists>b' r ts. add_order (demo_order 9 Buy 100 60 Limit Day) demo_book = Some (b', r) \<and>
     map view (trade_log b') = map view (trade_log demo_book) @ ts \<and> unat (r_filled_qty r) = sum_list (map (\<lambda>(p, q, buy, sell, aggressor). unat q) ts) \<and>
     amount (entries Sell b') + sum_list (map (\<lambda>(p, q, buy, sell, aggressor). unat q) ts) = 120"
proof -
  let ?x = "demo_order 9 Buy 100 60 Limit Day"
  from add_total [OF demo_facts(1) demo_valid] obtain b' r where a: "add_order ?x demo_book = Some (b', r)" by auto
  have o: "opposite (o_side ?x) = Sell" and "\<not> is_fok ?x" by (simp_all add: demo_order_def mk_order_def is_fok_def)
  moreover have "amount [(100, 1, 50), (100, 2, 30), (101, 3, 40)] = 120" by (simp add: amount_def)
  moreover have "r_success r" by (rule admitted_result [OF demo_facts(1) demo_valid a demo_admitted]) (use \<open>\<not> is_fok ?x\<close> in simp)
  ultimately show ?thesis
    using add_order_conserves [OF demo_facts(1) demo_valid a demo_admitted demo_callback] a by (auto simp: Let_def demo_facts)
qed

section \<open>Order kinds\<close>

text \<open>
  C15. With self-trade prevention off, fill-or-kill is all or nothing: a fill-or-kill order either
  fills its whole quantity or is rejected with no trade and both sides unchanged. And the pre-check
  over the level totals is exact: an order that is refused for no other reason is filled precisely
  when the quantity resting at prices it accepts suffices, provided that quantity fits in the 32 bits
  in which the pre-check adds. (With self-trade prevention on it is not: see \<open>add_order_rejects\<close> and
  \<open>fok_trades_and_fails\<close>.)
\<close>

theorem fok_all_or_nothing:
  assumes "reachable cfg b" "valid_order b x" "add_order x b = Some (b', r)" "is_fok x"
    "\<not> c_enable_self_trade_prevention cfg"
  defines "liquidity \<equiv> amount (filter (\<lambda>e. o_type x = Market \<or> would_cross (market_price x) (fst e)) (entries (opposite (o_side x)) b))"
  shows "((r_success r \<and> r_filled_qty r = o_quantity x) \<or>
      (\<not> r_success r \<and> r_filled_qty r = 0 \<and> same_book b b' \<and> trade_log b' = trade_log b)) \<and>
    (o_quantity x \<noteq> 0 \<and> map_of (b_orders b) (o_id x) = None \<and> (o_type x = Limit \<longrightarrow> 0 < o_price x) \<and> o_type x \<noteq> PostOnly \<and>
      liquidity < 2 ^ 32 \<longrightarrow> (r_success r \<longleftrightarrow> unat (o_quantity x) \<le> liquidity))"
proof -
  note inv = reachable_inv(1) [OF assms(1)]
  have off: "\<not> c_enable_self_trade_prevention (b_config b)" using assms(1,5) reachable_inv(2) by blast
  have yes: "r_success r \<and> r_filled_qty r = o_quantity x" if "admitted x b"
    using fok_fills [OF reachable_inv(4) [OF assms(1)] off that assms(2,4)] assms(3) by auto
  have no: "\<not> r_success r \<and> r_filled_qty r = 0 \<and> same_book b b' \<and> trade_log b' = trade_log b" if "\<not> admitted x b"
    using add_order_not_admitted [OF that] assms(3) by auto
  have "unat (o_quantity x) \<le> liquidity" if "admitted x b"
    using fok_within [OF inv, of "market_price x" "opposite (o_side x)"] that assms(4) by (simp add: admitted_def liquidity_def)
  moreover have "admitted x b" if "o_quantity x \<noteq> 0" "map_of (b_orders b) (o_id x) = None" "o_type x = Limit \<longrightarrow> 0 < o_price x"
      "o_type x \<noteq> PostOnly" "liquidity < 2 ^ 32" "unat (o_quantity x) \<le> liquidity"
    using fok_admits [OF inv, of "market_price x" "opposite (o_side x)"] that by (simp add: admitted_def liquidity_def)
  ultimately show ?thesis using yes no by (cases "admitted x b") blast+
qed

theorem fok_all_or_nothing_witness:
  "(\<exists>b' r. add_order (demo_order 9 Buy 101 120 Limit TifFillOrKill) demo_book = Some (b', r) \<and> r_success r \<and> r_filled_qty r = 120) \<and>
   (\<exists>b' r. add_order (demo_order 9 Buy 101 121 Limit TifFillOrKill) demo_book = Some (b', r) \<and> \<not> r_success r \<and>
      trade_log b' = trade_log demo_book)"
proof -
  have new: "map_of (b_orders demo_book) 9 = None" using demo_admitted by (simp add: admitted_def demo_order_def mk_order_def)
  have both: "\<exists>b' r. add_order (demo_order 9 Buy 101 q Limit TifFillOrKill) demo_book = Some (b', r) \<and>
      (r_success r \<longleftrightarrow> unat q \<le> 120) \<and> (r_success r \<longrightarrow> r_filled_qty r = q) \<and> (\<not> r_success r \<longrightarrow> trade_log b' = trade_log demo_book)"
    if "q \<noteq> 0" for q
  proof -
    let ?x = "demo_order 9 Buy 101 q Limit TifFillOrKill"
    have x: "o_id ?x = 9" "o_side ?x = Buy" "o_quantity ?x = q" "o_price ?x = 101" "o_type ?x = Limit" "is_fok ?x" "order_wf ?x"
      by (simp_all add: demo_order_def mk_order_def is_fok_def order_wf_def rests_def)
    have v: "valid_order demo_book ?x" by (rule valid_order_off [OF demo_facts(1) default_config_off x(7)]) (simp add: x)
    from add_total [OF demo_facts(1) v] obtain b' r where a: "add_order ?x demo_book = Some (b', r)" by auto
    show ?thesis
      using fok_all_or_nothing [OF demo_facts(1) v a x(6) default_config_off] a that new
      by (auto simp: x demo_facts amount_def would_cross_def)
  qed
  show ?thesis using both [of 120] both [of 121] by auto
qed

text \<open>
  C36. Market, immediate-or-cancel and fill-or-kill orders never come to rest: their own side of the
  book is unchanged and, unless the id was already live, the order table does not hold them.
\<close>

theorem immediate_orders_never_rest:
  assumes "reachable cfg b" "valid_order b x" "add_order x b = Some (b', r)"
    "o_type x = Market \<or> is_ioc x \<or> is_fok x"
  shows "entries (o_side x) b' = entries (o_side x) b \<and>
     (map_of (b_orders b) (o_id x) = None \<longrightarrow> map_of (b_orders b') (o_id x) = None)"
proof (cases "admitted x b")
  case True
  have nr: "\<not> rests x" using assms(4) by (auto simp: rests_def)
  show ?thesis by (rule admitted_result [OF assms(1-3) True]) (use nr in simp)
next
  case False
  from add_order_not_admitted [OF False] assms(3) have sb: "same_book b b'" by auto
  then show ?thesis by (simp add: entries_same [OF sb] same_bookD [OF sb])
qed

theorem immediate_orders_never_rest_witness:
  "\<exists>b' r. add_order (demo_order 9 Buy 0 500 Market Day) demo_book = Some (b', r) \<and> entries Buy b' = [(98, 4, 70)]"
proof -
  have wf: "order_wf (demo_order 9 Buy 0 500 Market Day)" and nr: "\<not> rests (demo_order 9 Buy 0 500 Market Day)" by code_simp+
  have v: "valid_order demo_book (demo_order 9 Buy 0 500 Market Day)"
    by (rule valid_order_off [OF demo_facts(1) default_config_off wf]) (simp add: nr)
  from add_total [OF demo_facts(1) v] obtain b' r where a: "add_order (demo_order 9 Buy 0 500 Market Day) demo_book = Some (b', r)" by auto
  have s: "o_side (demo_order 9 Buy 0 500 Market Day) = Buy" "o_type (demo_order 9 Buy 0 500 Market Day) = Market"
    by (simp_all add: demo_order_def mk_order_def)
  from immediate_orders_never_rest [OF demo_facts(1) v a, unfolded s] a show ?thesis by (auto simp: demo_facts)
qed

text \<open>
  C35. A post-only order never takes liquidity while post-only rejection is enabled: whether it is
  rejected or rests, no trade is logged, the opposite side is unchanged and nothing is filled.
\<close>

theorem post_only_never_takes:
  assumes "reachable cfg b" "valid_order b x" "add_order x b = Some (b', r)"
    "o_type x = PostOnly" "c_enable_post_only_rejection cfg"
  shows "map view (trade_log b') = map view (trade_log b) \<and> r_filled_qty r = 0 \<and>
     entries (opposite (o_side x)) b' = entries (opposite (o_side x)) b"
proof (cases "admitted x b")
  case True
  let ?o = "opposite (o_side x)"
  obtain fs q where sw: "sweep (stp_hit b x) (crosses (market_price x)) (o_quantity x) (entries ?o b) = (fs, entries ?o b', q)"
    and tl: "map view (trade_log b') = map view (trade_log b) @ (if b_on_trade b = None then [] else map (fill_view x) fs)"
    and r: "r_filled_qty r = (if r_success r then filled_by fs else 0)"
    by (rule admitted_result [OF assms(1-3) True]) (rule that)
  have m: "market_price x = x" using assms(4) by simp
  have inv: "book_inv b" and cfg: "b_config b = cfg" using reachable_inv [OF assms(1)] by blast+
  then have npo: "\<not> post_only_would_cross x b" using True assms(4,5) by (simp add: admitted_def)
  have best: "best_price ?o b = top_price ?o b" using inv by (simp add: book_inv_side)
  have "entries ?o b = [] \<or> \<not> crosses x (fst (hd (entries ?o b)))"
  proof (cases "prio ?o (levels ?o b)")
    case (Cons l ls)
    obtain p L where l: "l = (p, L)" by (cases l)
    have "l \<in> set (levels ?o b)" using Cons by (metis list.set_intros(1) prio_simps(3))
    then have "contents L \<noteq> []" using inv l by (force simp: book_inv_side no_empty_def)
    then have "fst (hd (entries ?o b)) = p" by (simp add: entries_def Cons l level_entries_def hd_append hd_map case_prod_beta)
    moreover have "best_price ?o b = p" using best by (simp add: top_price_def Cons l)
    then have "\<not> crosses x p" using npo assms(4) by (cases "o_side x") (auto simp: post_only_would_cross_def crosses_def would_cross_def split: if_splits)
    ultimately show ?thesis by simp
  qed (simp add: entries_def)
  then have "fs = [] \<and> entries ?o b' = entries ?o b"
    using sw unfolding m by (cases "entries ?o b") auto
  then show ?thesis using tl r by (simp add: filled_by_def)
next
  case False
  from add_order_not_admitted [OF False] assms(3) have sb: "same_book b b'" and 1: "trade_log b' = trade_log b" "r_filled_qty r = 0" by auto
  then show ?thesis by (simp add: entries_same [OF sb])
qed

theorem post_only_never_takes_witness:
  "\<exists>b' r. add_order (demo_order 9 Buy 100 60 PostOnly Day) demo_book = Some (b', r) \<and>
     entries Sell b' = [(100, 1, 50), (100, 2, 30), (101, 3, 40)]"
proof -
  have wf: "order_wf (demo_order 9 Buy 100 60 PostOnly Day)" by code_simp
  have v: "valid_order demo_book (demo_order 9 Buy 100 60 PostOnly Day)"
    by (rule valid_order_off [OF demo_facts(1) default_config_off wf]) (simp add: demo_order_def mk_order_def)
  from add_total [OF demo_facts(1) v] obtain b' r where a: "add_order (demo_order 9 Buy 100 60 PostOnly Day) demo_book = Some (b', r)" by auto
  have s: "o_type (demo_order 9 Buy 100 60 PostOnly Day) = PostOnly" "opposite (o_side (demo_order 9 Buy 100 60 PostOnly Day)) = Sell"
    by (simp_all add: demo_order_def mk_order_def)
  have c: "c_enable_post_only_rejection default_config" by (simp add: default_config_def)
  from post_only_never_takes [OF demo_facts(1) v a s(1) c] a show ?thesis unfolding s by (auto simp: demo_facts)
qed

end
