(* ===== verification/Book_Views.thy ===== *)
theory Book_Views
  imports Book_Properties
begin

text \<open>
  What \<^verbatim>\<open>OrderBook\<close> promises about the book as it stands: cancelling and replacing, the cached
  best prices, the spread, the depth snapshots and the counts.
\<close>

definition demo_single :: book where
  "demo_single = demo_add (demo_order 1 Sell 100 50 Limit Day) (demo_start default_config)"

lemma demo_one: "demo_state demo_single ([], [(100, 1, 50)])"
  unfolding demo_single_def by (rule demo_next [OF demo_start_state]; code_simp)

lemma demo_one_order:
  "map_of (b_orders demo_single) 1 = Some (demo_order 1 Sell 100 50 Limit Day)"
  by code_simp

lemma demo_single_facts: "reachable default_config demo_single" "entries Buy demo_single = []" "entries Sell demo_single = [(100, 1, 50)]"
  "book_inv demo_single" "b_config demo_single = default_config"
  using demo_one reachable_inv [of default_config demo_single] by (auto simp: demo_state_def)

section \<open>Cancelling\<close>

lemma entry_order:
  "book_inv b \<Longrightarrow> (p, i, q) \<in> set (entries s b) \<Longrightarrow>
     \<exists>x. map_of (b_orders b) i = Some x \<and> o_side x = s \<and> o_price x = p \<and> remaining x = q"
  by (rule linkedD) (simp_all add: book_inv_side core_inv_side)

lemma order_entry:
  "book_inv b \<Longrightarrow> map_of (b_orders b) i = Some x \<Longrightarrow> (o_price x, i, remaining x) \<in> set (entries (o_side x) b)"
  by (simp add: book_inv_side core_inv_side linked_def)

lemma demo_live: "\<exists>x. map_of (b_orders demo_book) 2 = Some x \<and> o_side x = Sell \<and> o_price x = 100 \<and> remaining x = 30"
  by (rule entry_order [OF demo_facts(4)]) (simp add: demo_facts)

text \<open>
  C22. Cancelling a live order removes exactly its entry and its table entry, keeps the order of all
  others, logs no trade, reports success and leaves a book that satisfies the invariant; cancelling
  an id that is not live changes nothing and reports \<^const>\<open>OrderNotFound\<close>.
\<close>

theorem cancel_removes_exactly:
  assumes "reachable cfg b"
  shows "(case map_of (b_orders b) i of
      None \<Rightarrow> cancel_order i b = (b, reject i OrderNotFound)
    | Some x \<Rightarrow> (\<exists>b'. cancel_order i b = (b', (init_result i)\<lparr>r_success := True\<rparr>) \<and> book_inv b' \<and>
        (\<forall>s. entries s b' = filter (\<lambda>e. entry_id e \<noteq> i) (entries s b)) \<and>
        map_of (b_orders b') = (map_of (b_orders b))(i := None) \<and> trade_log b' = trade_log b))"
proof (cases "map_of (b_orders b) i")
  case (Some x)
  note c = cancel_spec [where stale = o_side, OF reachable_inv(1) [OF assms] Some refl, folded cancel_order_def]
  then show ?thesis unfolding Some option.case by (intro exI [of _ "fst (cancel_order i b)"]) (simp add: prod_eq_iff)
qed (simp add: cancel_absent)

theorem cancel_removes_exactly_witness:
  "entries Sell (fst (cancel_order 2 demo_book)) = [(100, 1, 50), (101, 3, 40)] \<and> book_inv (fst (cancel_order 2 demo_book))"
proof -
  obtain x where x: "map_of (b_orders demo_book) 2 = Some x" using demo_live by blast
  show ?thesis using cancel_removes_exactly [OF demo_facts(1), of 2] by (auto simp: x demo_facts)
qed

lemma no_entries_no_levels: "no_empty (levels s b) \<Longrightarrow> entries s b = [] \<Longrightarrow> levels s b = []"
  using prio_simps(3) [of s "levels s b"] prio_simps(4) [of s "levels s b"]
  by (cases "prio s (levels s b)") (auto simp: no_empty_def entries_def level_entries_def)

text \<open>
  \<^verbatim>\<open>cancel_order\<close> picks the side whose best price it refreshes by reading the order after it
  has been erased. Should that read give the wrong side for the last order of a side, the side is
  empty but its cached best price still shows the cancelled order's price.
\<close>

theorem cancel_stale_side:
  assumes "book_inv b" "map_of (b_orders b) i = Some x" "stale x \<noteq> o_side x"
    "entries (o_side x) b = [(o_price x, i, remaining x)]"
  shows "entries (o_side x) (fst (cancel_order_with stale i b)) = [] \<and>
    best_price (o_side x) (fst (cancel_order_with stale i b)) = o_price x \<and>
    \<not> book_inv (fst (cancel_order_with stale i b))"
proof -
  let ?s = "o_side x"
  define b1 where "b1 = remove_order_from_level i ?s (o_price x) b"
  define b3 where "b3 = b1\<lparr>b_orders := om_erase i (om_put i (cancel x) (b_orders b1))\<rparr>"
  note rm = remove_level_spec [OF assms(1,2), folded b1_def]
  have o: "stale x = opposite ?s" using assms(3) by (cases "stale x"; cases ?s) auto
  have b': "fst (cancel_order_with stale i b) = maybe_emit_bbo (update_best (opposite ?s) b3)"
    using o by (cases ?s) (simp_all add: cancel_order_with_def assms(2) Let_def b1_def b3_def)
  obtain m where m: "b1 = set_levels ?s m b" using rm(5) by blast
  have e: "entries ?s (fst (cancel_order_with stale i b)) = []"
    using rm(1) assms(4) by (simp add: b' entries_def b3_def)
  have best: "best_price ?s b = o_price x" "o_price x \<noteq> INVALID_PRICE"
  proof -
    have i: "levels_ok (levels ?s b)" "no_empty (levels ?s b)" "best_price ?s b = top_price ?s b"
      using assms(1) by (auto simp: book_inv_side core_inv_side)
    show "o_price x \<noteq> INVALID_PRICE" using entry_price_valid [OF i(1)] assms(4) by (metis fst_conv list.set_intros(1))
    obtain p L ls where ls: "prio ?s (levels ?s b) = (p, L) # ls"
      using assms(4) by (cases "prio ?s (levels ?s b)") (auto simp: entries_def)
    then have "(p, L) \<in> set (levels ?s b)" by (metis list.set_intros(1) prio_simps(3))
    then have "contents L \<noteq> []" using i(2) by (force simp: no_empty_def)
    then have "fst (hd (entries ?s b)) = p" by (simp add: entries_def ls level_entries_def hd_append hd_map case_prod_beta)
    then show "best_price ?s b = o_price x" using i(3) assms(4) by (simp add: top_price_def ls)
  qed
  have bp: "best_price ?s (fst (cancel_order_with stale i b)) = o_price x"
    using best(1) by (simp add: b' b3_def m)
  have "\<not> book_inv (fst (cancel_order_with stale i b))"
  proof
    assume inv: "book_inv (fst (cancel_order_with stale i b))"
    then have "levels ?s (fst (cancel_order_with stale i b)) = []"
      using e by (intro no_entries_no_levels) (simp_all add: book_inv_side)
    then have "top_price ?s (fst (cancel_order_with stale i b)) = INVALID_PRICE" by (simp add: top_price_def prio_def split: side.split)
    then show False using inv bp best(2) by (simp add: book_inv_side)
  qed
  with e bp show ?thesis by simp
qed

theorem cancel_stale_side_witness:
  "reachable default_config demo_single \<and> best_price Sell (fst (cancel_order_with (\<lambda>_. Buy) 1 demo_single)) = 100 \<and>
   \<not> book_inv (fst (cancel_order_with (\<lambda>_. Buy) 1 demo_single))"
proof -
  have x: "o_side (demo_order 1 Sell 100 50 Limit Day) = Sell" "o_price (demo_order 1 Sell 100 50 Limit Day) = 100"
    "remaining (demo_order 1 Sell 100 50 Limit Day) = 50" by code_simp+
  show ?thesis
    using cancel_stale_side [OF demo_single_facts(4) demo_one_order, of "\<lambda>_. Buy", unfolded x demo_single_facts] demo_single_facts(1)
    by simp
qed

section \<open>Replacing\<close>

text \<open>
  C23. Replacing at the same price changes the quantity of the entry in place, so the order keeps its
  place in the queue; the book that results satisfies the invariant exactly when the order had no
  fill yet and the new quantity is not zero.
\<close>

theorem replace_in_place:
  assumes "reachable cfg b" "map_of (b_orders b) i = Some x"
  shows "\<exists>b'. replace_order junk i (o_price x) q b = Some (b', junk\<lparr>r_success := True\<rparr>) \<and>
    (\<forall>s. entries s b' = map (amend_entry i q) (entries s b)) \<and> trade_log b' = trade_log b \<and>
    (book_inv b' \<longleftrightarrow> o_filled_qty x = 0 \<and> q \<noteq> 0)"
proof -
  from amend_effect [OF reachable_inv(1) [OF assms(1)] assms(2), of junk q] obtain b2 where
    r: "replace_order junk i (o_price x) q b = Some (maybe_emit_bbo b2, junk\<lparr>r_success := True\<rparr>)"
    and e: "\<And>s. entries s b2 = map (amend_entry i q) (entries s b)"
    and t: "b_pending_trades b2 = b_pending_trades b" "b_out b2 = b_out b" by auto
  have "trade_log b2 = trade_log b" using t by (simp add: trade_log_def)
  then show ?thesis
    using r e amend_inv_iff [OF reachable_inv(1) [OF assms(1)] assms(2) r] by auto
qed

theorem replace_in_place_witness:
  "\<exists>b' r. replace_order (init_result 0) 2 100 500 demo_book = Some (b', r) \<and>
     entries Sell b' = [(100, 1, 50), (100, 2, 500), (101, 3, 40)]"
proof -
  obtain x where x: "map_of (b_orders demo_book) 2 = Some x" "o_price x = 100" using demo_live by blast
  from replace_in_place [OF demo_facts(1) x(1), of "init_result 0" 500, unfolded x(2)]
  show ?thesis by (auto simp: demo_facts amend_entry_def)
qed

text \<open>
  Replacing at another price is a cancel followed by an add with the same id: the order leaves
  its queue, matches at the new price and what is left joins the new queue from behind.
\<close>

theorem replace_at_new_price:
  assumes "reachable cfg b" "map_of (b_orders b) i = Some x" "o_price x \<noteq> p"
    and yb: "y = mk_order i (o_symbol x) (o_side x) p q (o_type x) (o_tif x)" "b1 = fst (cancel_order i b)"
    and "valid_order b1 y" "admitted y b1"
  shows "\<exists>b' r fs. replace_order junk i p q b = Some (b', r) \<and> book_inv b' \<and> r_order_id r = i \<and>
     spec_add (stp_hit b1 y) (market_price y) (filter (\<lambda>e. entry_id e \<noteq> i) (entries (o_side x) b))
       (filter (\<lambda>e. entry_id e \<noteq> i) (entries (opposite (o_side x)) b)) =
       (fs, entries (o_side x) b', entries (opposite (o_side x)) b')"
proof -
  note c = cancel_spec [where stale = o_side, OF reachable_inv(1) [OF assms(1)] assms(2) refl, folded cancel_order_def yb(2)]
  have y: "o_side y = o_side x" "o_id y = i" by (simp_all add: yb mk_order_def)
  have "order_wf y" "stp_defined b1 (market_price y)" using assms(6) by (simp_all add: valid_order_def)
  from add_order_spec [OF c(1) assms(7) this] show ?thesis
    unfolding move_effect [OF assms(2,3)] yb(2) [symmetric] yb(1) [symmetric] y c(2) by blast
qed

theorem replace_at_new_price_witness:
  "\<exists>b' r. replace_order (init_result 0) 1 101 50 demo_single = Some (b', r) \<and> entries Sell b' = [(101, 1, 50)]"
proof -
  let ?x = "demo_order 1 Sell 100 50 Limit Day" and ?y = "demo_order 1 Sell 101 50 Limit Day"
  let ?b1 = "fst (cancel_order 1 demo_single)"
  have x: "o_side ?x = Sell" "o_price ?x = 100" "o_price ?x \<noteq> 101" by code_simp+
  have y: "?y = mk_order 1 (o_symbol ?x) (o_side ?x) 101 50 (o_type ?x) (o_tif ?x)" by (simp add: demo_order_def mk_order_def)
  have yf: "o_id ?y = 1" "o_type ?y = Limit" "\<not> is_fok ?y" "order_wf ?y" "o_price ?y = 101" "o_quantity ?y = 50" by code_simp+
  have r1: "reachable default_config ?b1" by (rule reach_cancel [OF demo_single_facts(1)])
  have v: "valid_order ?b1 ?y" by (rule valid_order_off [OF r1 default_config_off yf(4)]) (simp add: yf)
  have "map_of (b_orders ?b1) 1 = None"
    using cancel_spec [where stale = o_side, OF demo_single_facts(4) demo_one_order refl, folded cancel_order_def] by simp
  then have adm: "admitted ?y ?b1" by (simp add: admitted_def yf)
  have hit: "stp_hit ?b1 ?y = (\<lambda>_. False)"
    using stp_off [of ?b1 ?y] reachable_inv(2) [OF r1] by (simp add: default_config_def)
  have sp: "spec_add (\<lambda>_. False) (market_price ?y) (filter (\<lambda>e. entry_id e \<noteq> 1) [(100, 1, 50)])
      (filter (\<lambda>e. entry_id e \<noteq> 1) []) = ([], [(101, 1, 50)], [])" by code_simp
  have o: "opposite (o_side ?x) = Buy" by (simp add: x)
  from replace_at_new_price [OF demo_single_facts(1) demo_one_order x(3) y refl v adm, of "init_result 0",
      unfolded o, unfolded x demo_single_facts hit, unfolded sp]
  show ?thesis by auto
qed

text \<open>
  A replace that the add refuses loses the order: for a limit order and a price that is not
  positive the answer is a rejection, and the order is gone from the table and from its queue.
\<close>

theorem replace_loses_order:
  assumes "reachable cfg b" "map_of (b_orders b) i = Some x" "o_type x = Limit" "p \<le> 0" "q \<noteq> 0"
  shows "\<exists>b' r. replace_order junk i p q b = Some (b', r) \<and> \<not> r_success r \<and> r_reject_reason r = InvalidPrice \<and>
     map_of (b_orders b') i = None \<and> entries (o_side x) b' = filter (\<lambda>e. entry_id e \<noteq> i) (entries (o_side x) b)"
proof -
  have inv: "book_inv b" and pos: "positive b" using reachable_inv [OF assms(1)] by blast+
  have "(o_price x, i, remaining x) \<in> set (entries (o_side x) b)" by (rule order_entry [OF inv assms(2)])
  then have "0 < o_price x" using pos by (force simp: positive_def)
  then have ne: "o_price x \<noteq> p" using assms(4) by simp
  note c = cancel_spec [where stale = o_side, OF inv assms(2) refl, folded cancel_order_def]
  show ?thesis
    unfolding move_effect [OF assms(2) ne] using assms(3-5) c(2,3)
    by (simp add: add_order_def mk_order_def reject_def init_result_def)
qed

theorem replace_loses_order_witness:
  "\<exists>b' r. replace_order (init_result 0) 1 0 5 demo_single = Some (b', r) \<and> \<not> r_success r \<and> entries Sell b' = []"
proof -
  have x: "o_side (demo_order 1 Sell 100 50 Limit Day) = Sell" "o_type (demo_order 1 Sell 100 50 Limit Day) = Limit" by code_simp+
  from replace_loses_order [OF demo_single_facts(1) demo_one_order x(2), of 0 5 "init_result 0", unfolded x demo_single_facts]
  show ?thesis by auto
qed

section \<open>Cached prices, spread and depth\<close>

definition best_of :: "side \<Rightarrow> entry list \<Rightarrow> price" where
  "best_of s es = (if es = [] then INVALID_PRICE
     else case s of Buy \<Rightarrow> Max (fst ` set es) | Sell \<Rightarrow> Min (fst ` set es))"

lemma top_first_entry:
  assumes "no_empty (levels s b)"
  shows "top_price s b = (case entries s b of [] \<Rightarrow> INVALID_PRICE | e # es \<Rightarrow> fst e)"
proof (cases "prio s (levels s b)")
  case (Cons l ls)
  then have "l \<in> set (levels s b)" by (metis list.set_intros(1) prio_simps(3))
  then obtain e es where "contents (snd l) = e # es" using assms by (auto simp: no_empty_def neq_Nil_conv)
  then show ?thesis by (cases l) (simp add: top_price_def entries_def Cons level_entries_def case_prod_beta)
qed (simp add: top_price_def entries_def prio_def split: side.split)

lemma best_first_entry:
  assumes "levels_ok (levels s b)"
  shows "best_of s (entries s b) = (case entries s b of [] \<Rightarrow> INVALID_PRICE | e # es \<Rightarrow> fst e)"
proof (cases "entries s b")
  case (Cons e es)
  have "\<forall>f \<in> set es. \<not> better s (fst f) (fst e)" using entries_sorted [OF assms] by (simp add: Cons)
  then have m: "\<forall>p \<in> fst ` set es. \<not> better s p (fst e)" by simp
  show ?thesis
  proof (cases s)
    case Buy
    have "Max (fst ` set (e # es)) = fst e" by (rule Max_eqI) (use m Buy in \<open>auto simp: better_def not_less\<close>)
    then show ?thesis unfolding Cons by (simp add: best_of_def Buy)
  next
    case Sell
    have "Min (fst ` set (e # es)) = fst e" by (rule Min_eqI) (use m Sell in \<open>auto simp: better_def not_less\<close>)
    then show ?thesis unfolding Cons by (simp add: best_of_def Sell)
  qed
qed (simp add: best_of_def)

lemma best_price_of:
  assumes "book_inv b"
  shows "best_price s b = best_of s (entries s b)"
  using assms by (simp add: book_inv_side core_inv_side top_first_entry best_first_entry)

text \<open>
  C14. On every reachable book the cached best bid and ask are the best price among the resting
  orders of their side, or the sentinel when the side is empty. With self-trade prevention off the
  book is never crossed, so the spread of a two-sided book is positive; with it on, \<open>stp_can_cross\<close>
  is a counterexample. Reachable books know only cancels whose read of the erased order gives its
  side; \<open>cancel_stale_side\<close> has a cached price after the other kind.
\<close>

theorem best_prices_and_spread:
  assumes "reachable cfg b"
  shows "best_bid b = best_of Buy (entries Buy b) \<and> best_ask b = best_of Sell (entries Sell b) \<and>
    (\<not> c_enable_self_trade_prevention cfg \<longrightarrow> entries Buy b \<noteq> [] \<longrightarrow> entries Sell b \<noteq> [] \<longrightarrow>
       spread b = Some (best_ask b - best_bid b) \<and> best_bid b < best_ask b)"
  unfolding best_bid_def best_ask_def
proof (intro conjI impI)
  have inv: "book_inv b" and pos: "positive b" using reachable_inv [OF assms] by blast+
  note best = best_price_of [OF inv, of Buy, simplified] best_price_of [OF inv, of Sell, simplified]
  show "b_best_bid b = best_of Buy (entries Buy b)" "b_best_ask b = best_of Sell (entries Sell b)" by (rule best)+
  assume off: "\<not> c_enable_self_trade_prevention cfg" and ne: "entries Buy b \<noteq> []" "entries Sell b \<noteq> []"
  from ne obtain e es f fs where ef: "entries Buy b = e # es" "entries Sell b = f # fs" by (meson neq_Nil_conv)
  have lo: "levels_ok (levels Buy b)" "levels_ok (levels Sell b)" using inv by (auto simp: book_inv_def core_inv_def)
  have bb: "b_best_bid b = fst e" "b_best_ask b = fst f"
    using best_first_entry [OF lo(1)] best_first_entry [OF lo(2)] by (simp_all add: best ef)
  have u: "uncrossed b" using reachable_inv(2,4) [OF assms] off by (auto simp: sound_book_def)
  then show lt: "b_best_bid b < b_best_ask b" by (simp add: uncrossed_def ef bb)
  have rng: "0 < fst e" "fst e < INVALID_PRICE" "0 < fst f" "fst f < INVALID_PRICE"
    using pos [unfolded positive_def, rule_format, of e Buy] pos [unfolded positive_def, rule_format, of f Sell]
    by (simp_all add: ef)
  then show "spread b = Some (b_best_ask b - b_best_bid b)"
    by (simp add: spread_def bb s64_sub_def s64_def s64_range_def INVALID_PRICE_def)
qed

theorem best_prices_and_spread_witness:
  "best_bid demo_book = 98 \<and> best_ask demo_book = 100 \<and> spread demo_book = Some 2"
  using best_prices_and_spread [OF demo_facts(1)] by (simp add: demo_facts best_of_def)

definition stp_config :: book_config where
  "stp_config = default_config\<lparr>c_enable_self_trade_prevention := True\<rparr>"

definition stp_book :: book where
  "stp_book = demo_add (demo_order 2 Buy 105 30 Limit Day)
     (demo_add (demo_order 1 Sell 100 50 Limit Day) (new_book demo_symbol stp_config (\<lambda>_. 0)))"

text \<open>
  Only limit orders have their price checked: a post-only order with a negative price comes to rest
  and becomes the best bid.
\<close>

theorem post_only_price_unchecked:
  "map_option (\<lambda>(b, r). (best_bid b, r_success r))
     (add_order (demo_order 9 Buy (- 5) 60 PostOnly Day) (new_book demo_symbol default_config (\<lambda>_. 0))) = Some (- 5, True)"
  by code_simp

text \<open>
  The sentinel is accepted as a price: a bid at it is best in the snapshot, but the cached best bid
  forgets it when the next bid comes to rest.
\<close>

theorem sentinel_price_hides_order:
  "(let b = demo_add (demo_order 2 Buy 98 10 Limit Day)
      (demo_add (demo_order 1 Buy INVALID_PRICE 10 Limit Day) (new_book demo_symbol default_config (\<lambda>_. 0)))
    in best_bid b = 98 \<and> map u_price (get_bids 2 b) = [INVALID_PRICE, 98])"
  by code_simp

text \<open>
  A post-only sale at price 0 rests, and as 0 means no price to the matching loop, nothing trades with
  that side any more: a bid above the other asks comes to rest and the book is crossed.
\<close>

theorem zero_price_blocks_matching:
  "(let b = demo_add (demo_order 3 Buy 105 10 Limit Day) (demo_add (demo_order 2 Sell 0 10 PostOnly Day)
      (demo_add (demo_order 1 Sell 100 10 Limit Day) (new_book demo_symbol default_config (\<lambda>_. 0))))
    in best_bid b = 105 \<and> best_ask b = 0 \<and> map u_price (get_asks 2 b) = [0, 100])"
  by code_simp

text \<open>
  With self-trade prevention on, a fill-or-kill order may trade and fail: after a fill against an
  order with a distant id it is stopped by one with a near id, reports failure and no fill, and the
  trade stands.
\<close>

definition stp_asks :: book where
  "stp_asks = demo_add (demo_order 2 Sell 101 50 Limit Day) (demo_add (demo_order 1000 Sell 100 50 Limit Day) (demo_start stp_config))"

theorem fok_trades_and_fails:
  "map_option (\<lambda>(b, r). (r_success r, r_filled_qty r, r_reject_reason r, map view (trade_log b)))
     (add_order (demo_order 3 Buy 101 80 Limit TifFillOrKill) stp_asks) =
   Some (False, 0, InvalidQuantity, [(100, 50, 3, 1000, Buy)])"
  by code_simp

text \<open>
  With self-trade prevention on, an order stopped by a resting order with a near id comes to
  rest all the same, and the book can end with its best bid above its best ask.
\<close>

theorem stp_can_cross:
  "reachable stp_config stp_book \<and> b_best_ask stp_book < b_best_bid stp_book \<and> \<not> uncrossed stp_book"
proof -
  let ?x = "demo_order 1 Sell 100 50 Limit Day" and ?y = "demo_order 2 Buy 105 30 Limit Day"
  let ?b0 = "new_book demo_symbol stp_config (\<lambda>_. 0)"
  define b1 where "b1 = demo_add ?x ?b0"
  have "valid_order ?b0 ?x" by code_simp
  then have r1: "reachable stp_config b1" unfolding b1_def by (meson add_total demo_reach_step reach_new)
  have inv1: "book_inv b1" and cfg: "b_config b1 = stp_config" using reachable_inv [OF r1] by blast+
  have x: "o_side ?x = Sell" "market_price ?x = ?x" "o_quantity ?x = 50" "rests ?x" "o_price ?x = 100" "o_id ?x = 1" by code_simp+
  have a0: "admitted ?x ?b0" and w0: "order_wf ?x" and d0: "stp_defined ?b0 (market_price ?x)" by code_simp+
  have e1: "entries Sell b1 = [(100, 1, 50)]" "entries Buy b1 = []"
    using add_order_spec [OF new_book_inv a0 w0 d0] by (auto simp: x spec_add_def b1_def demo_add_def)
  have blocks: "stp_blocks 2 1 = Some True" by code_simp
  have y: "o_side ?y = Buy" "market_price ?y = ?y" "o_quantity ?y = 30" "rests ?y" "o_price ?y = 105" "o_id ?y = 2"
    "o_type ?y = Limit" "\<not> is_fok ?y" "order_wf ?y" by code_simp+
  have v: "valid_order b1 ?y" by (simp add: valid_order_def y stp_defined_def e1 blocks)
  have hit: "stp_hit b1 ?y 1" by (simp add: stp_hit_def cfg stp_config_def y blocks)
  have "map_of (b_orders b1) 2 = None"
  proof (rule ccontr)
    assume "map_of (b_orders b1) 2 \<noteq> None"
    then obtain z where "map_of (b_orders b1) 2 = Some z" by auto
    from order_entry [OF inv1 this] show False by (cases "o_side z") (simp_all add: e1)
  qed
  then have adm: "admitted ?y b1" by (simp add: admitted_def y)
  have r2: "reachable stp_config stp_book"
    using v r1 unfolding stp_book_def b1_def by (meson add_total demo_reach_step)
  have "order_wf ?y" "stp_defined b1 (market_price ?y)" using v by (simp_all add: valid_order_def)
  from add_order_spec [OF reachable_inv(1) [OF r1] adm this] obtain b' r where
    a: "add_order ?y b1 = Some (b', r)" "entries Buy b' = [(105, 2, 30)]" "entries Sell b' = [(100, 1, 50)]"
    using hit by (auto simp: y e1 spec_add_def)
  have sb: "stp_book = demo_add ?y b1" by (simp only: stp_book_def b1_def)
  have e: "entries Buy stp_book = [(105, 2, 30)]" "entries Sell stp_book = [(100, 1, 50)]"
    unfolding sb demo_add_def a(1) by (simp_all add: a(2,3))
  have "b_best_bid stp_book = 105" "b_best_ask stp_book = 100"
    using best_price_of [OF reachable_inv(1) [OF r2], of Buy] best_price_of [OF reachable_inv(1) [OF r2], of Sell]
    by (simp_all add: e best_of_def)
  with r2 e show ?thesis by (simp add: uncrossed_def)
qed

text \<open>
  C34. The depth snapshots report one line per price, best price first and at most \<open>d\<close> of them, each
  with the exact sum (in 32 bits) and number of the orders resting there.
\<close>

theorem depth_snapshots:
  assumes "reachable cfg b"
  shows "get_bids d b = take d (depth_of Buy b) \<and> get_asks d b = take d (depth_of Sell b)"
  using get_bids_depth get_asks_depth reachable_inv(1) [OF assms] by blast

theorem depth_snapshots_witness:
  "map u_price (get_asks 5 demo_book) = [100, 101] \<and> map u_quantity (get_asks 5 demo_book) = [80, 40] \<and>
   map u_quantity (get_asks 1 demo_book) = [80]"
  using depth_snapshots [OF demo_facts(1)] by (simp add: depth_of_def demo_facts)

text \<open>
  No order and no level leaks: the order table holds exactly the orders that rest on the two
  sides, and there is one level per distinct price, so drained levels have been erased.
\<close>

theorem counts_exact:
  assumes "reachable cfg b"
  shows "order_count b = length (entries Buy b) + length (entries Sell b) \<and>
    level_count s b = card (fst ` set (entries s b))"
  using order_count_entries level_count_prices reachable_inv(1) [OF assms] by blast

theorem counts_exact_witness: "order_count demo_book = 4 \<and> level_count Sell demo_book = 2"
  using counts_exact [OF demo_facts(1), of Sell] by (simp add: demo_facts)

end
