(* ===== verification/Output_Properties.thy ===== *)
theory Output_Properties
  imports Book_Output Book_Views
begin

text \<open>
  The properties of what a book sends out: trades are well formed, sequence numbers are exact, and
  how batching orders trades and execution reports.
\<close>

section \<open>Trades\<close>

definition wf_view :: "trade_view \<Rightarrow> bool" where
  "wf_view v = (case v of (p, q, buy, sell, aggressor) \<Rightarrow> 0 < p \<and> p < INVALID_PRICE \<and> 0 < q \<and> buy \<noteq> sell)"

definition live_source :: "entry set \<Rightarrow> entry \<Rightarrow> bool" where
  "live_source S f \<longleftrightarrow> snd (snd f) \<noteq> 0 \<and> (\<exists>e \<in> S. fst e = fst f \<and> entry_id e = entry_id f)"

lemma live_source_mono: "live_source S f \<Longrightarrow> S \<subseteq> T \<Longrightarrow> live_source T f"
  by (auto simp: live_source_def)

lemma sweep_fill_sources:
  "sweep stp ok q es = (fs, es', q') \<Longrightarrow> \<forall>e \<in> set es. snd (snd e) \<noteq> 0 \<Longrightarrow> f \<in> set fs \<Longrightarrow> live_source (set es) f"
proof (induction stp ok q es arbitrary: fs es' q' rule: sweep.induct)
  case (2 stp ok q p i r es)
  show ?case
  proof (cases "q = 0 \<or> \<not> ok p \<or> stp i")
    case go: False
    show ?thesis
    proof (cases "r \<le> q")
      case True
      obtain gs zs z where s: "sweep stp ok (q - r) es = (gs, zs, z)" by (metis prod_cases3)
      then consider "f = (p, i, r)" | "f \<in> set gs" using 2(2,4) go True by auto
      then show ?thesis
      proof cases
        case 2
        have "live_source (set es) f" by (rule "2.IH" [OF go True s _ 2]) (use "2.prems"(2) in simp)
        then show ?thesis by (rule live_source_mono) auto
      qed (use 2(3) in \<open>simp add: live_source_def\<close>)
    next
      case False
      then have "f = (p, i, q)" using 2(2,4) go by auto
      then show ?thesis using go by (simp add: live_source_def)
    qed
  qed (use 2 in auto)
qed simp

lemma entries_live: "book_inv b \<Longrightarrow> e \<in> set (entries s b) \<Longrightarrow> snd (snd e) \<noteq> 0"
proof -
  assume inv: "book_inv b" and e: "e \<in> set (entries s b)"
  obtain p i q where e3: "e = (p, i, q)" by (cases e)
  from entry_order [OF inv, of p i q s] e e3 obtain x where x: "map_of (b_orders b) i = Some x" "remaining x = q" by blast
  have "orders_ok (b_orders b)" using inv by (simp add: book_inv_side core_inv_side)
  then have "o_filled_qty x < o_quantity x" using x by (simp add: orders_ok_def)
  then show ?thesis using x(2) e3 by (auto simp: remaining_def)
qed

lemma add_views:
  assumes r: "reachable cfg b" "valid_order b x" "add_order x b = Some (b', z)"
    and old: "\<forall>v \<in> set (map view (trade_log b)). wf_view v"
  shows "\<forall>v \<in> set (map view (trade_log b')). wf_view v"
proof (cases "admitted x b")
  case False
  then have "trade_log b' = trade_log b" using add_order_not_admitted [OF False] r(3) by auto
  then show ?thesis using old by simp
next
  case True
  let ?o = "entries (opposite (o_side x)) b"
  note inv = reachable_inv(1) [OF r(1)]
  obtain fs q where sw: "sweep (stp_hit b x) (crosses (market_price x)) (o_quantity x) ?o = (fs, entries (opposite (o_side x)) b', q)"
    and tl: "map view (trade_log b') = map view (trade_log b) @ (if b_on_trade b = None then [] else map (fill_view x) fs)"
    by (rule admitted_result [OF r True]) (rule that)
  have "wf_view (fill_view x f)" if f: "f \<in> set fs" for f
  proof -
    have "live_source (set ?o) f" by (rule sweep_fill_sources [OF sw _ f]) (use entries_live [OF inv] in blast)
    then obtain e where q: "snd (snd f) \<noteq> 0" and e: "e \<in> set ?o" "fst e = fst f" "entry_id e = entry_id f"
      by (auto simp: live_source_def)
    then have p: "0 < fst f" "fst f < INVALID_PRICE" using reachable_inv(3) [OF r(1)] by (metis positive_def)+
    have "map_of (b_orders b) (entry_id f) \<noteq> None" using entry_order [OF inv, of _ _ _ "opposite (o_side x)"] e by (cases e) fastforce
    then have "entry_id f \<noteq> o_id x" using True by (auto simp: admitted_def)
    then show ?thesis using q(1) p by (cases f) (auto simp: wf_view_def fill_view_def word_gt_0)
  qed
  then show ?thesis using old by (auto simp: tl)
qed

lemma cancel_log: "reachable cfg b \<Longrightarrow> trade_log (fst (cancel_order i b)) = trade_log b"
proof (cases "map_of (b_orders b) i")
  case (Some x)
  assume "reachable cfg b"
  from cancel_spec(5) [where stale = o_side, OF reachable_inv(1) [OF this] Some refl, folded cancel_order_def]
  show ?thesis .
qed (simp add: cancel_absent)

lemma callback_log [simp]:
  "trade_log (set_trade_callback cb b) = trade_log b" "trade_log (set_execution_callback cb b) = trade_log b"
  "trade_log (set_bbo_callback cb b) = trade_log b" "trade_log (new_book sm cfg clock) = []"
  by (simp_all add: trade_log_def set_trade_callback_def set_execution_callback_def set_bbo_callback_def new_book_def)

lemma reachable_views: "reachable cfg b \<Longrightarrow> \<forall>v \<in> set (map view (trade_log b)). wf_view v"
proof (induction rule: reachable.induct)
  case (reach_add b x b' r)
  from add_views [OF reach_add(1,2,3,4)] show ?case .
next
  case (reach_flush b)
  then show ?case by (simp add: flush_pending_def)
next
  case (reach_cancel b i)
  then show ?case by (simp only: cancel_log)
next
  case (reach_amend b i x q junk b' r)
  from replace_in_place [OF reach_amend(1,2), of junk q] reach_amend show ?case by auto
next
  case (reach_move b i x p q junk b' r)
  let ?y = "mk_order i (o_symbol x) (o_side x) p q (o_type x) (o_tif x)"
  have ad: "add_order ?y (fst (cancel_order i b)) = Some (b', r)" using move_effect [OF reach_move(2,3)] reach_move(5) by simp
  show ?case
    by (rule add_views [OF reachable.reach_cancel [OF reach_move(1)] reach_move(4) ad])
      (use reach_move cancel_log [OF reach_move(1)] in simp)
qed simp_all

text \<open>The demonstration book after an order that takes two resting ones.\<close>

definition demo_traded :: book where
  "demo_traded = demo_add (demo_order 9 Buy 100 60 Limit Day) demo_book"

lemma demo_traded_facts: "reachable default_config demo_traded"
  "map view (trade_log demo_traded) = map view (trade_log demo_book) @ [(100, 50, 9, 1, Buy), (100, 10, 9, 2, Buy)]"
proof -
  let ?x = "demo_order 9 Buy 100 60 Limit Day"
  from add_total [OF demo_facts(1) demo_valid] obtain b r where a: "add_order ?x demo_book = Some (b, r)" by auto
  then have b: "demo_traded = b" by (simp add: demo_traded_def demo_add_def)
  show "reachable default_config demo_traded" unfolding b by (rule reach_add [OF demo_facts(1) demo_valid a])
  obtain fs q where sw: "sweep (stp_hit demo_book ?x) (crosses (market_price ?x)) (o_quantity ?x) (entries (opposite (o_side ?x)) demo_book) =
       (fs, entries (opposite (o_side ?x)) b, q)"
    and tl: "map view (trade_log b) = map view (trade_log demo_book) @ (if b_on_trade demo_book = None then [] else map (fill_view ?x) fs)"
    by (rule admitted_result [OF demo_facts(1) demo_valid a demo_admitted]) (rule that)
  have x: "o_side ?x = Buy" "market_price ?x = ?x" "o_quantity ?x = 60" "o_price ?x = 100" "o_id ?x = 9" "o_type ?x = Limit"
    by (simp_all add: demo_order_def mk_order_def market_price_def)
  have "stp_hit demo_book ?x = (\<lambda>_. False)" using stp_off [of demo_book] reachable_inv(2) [OF demo_facts(1)] by simp
  moreover have "sweep (\<lambda>_. False) (crosses ?x) 60 [(100, 1, 50), (100, 2, 30), (101, 3, 40)] =
      ([(100, 1, 50), (100, 2, 10)], [(100, 2, 20), (101, 3, 40)], 0)" by code_simp
  ultimately have "fs = [(100, 1, 50), (100, 2, 10)]" using sw by (simp add: x demo_facts)
  then show "map view (trade_log demo_traded) = map view (trade_log demo_book) @ [(100, 50, 9, 1, Buy), (100, 10, 9, 2, Buy)]"
    using tl demo_callback by (simp add: b fill_view_def x)
qed

text \<open>
  C8. Every trade a book has reported, or holds back in its batch, carries the symbol of the book, a
  price that is neither 0 nor the sentinel, and two different orders, whatever public calls were
  made and whatever the read of an erased order gave. If the calls respected the contract, its price
  and its quantity are also positive; \<open>zero_quantity_trade\<close> is what can happen otherwise.
\<close>

theorem trades_well_formed:
  assumes "built cfg b"
  shows "list_all (\<lambda>t. t_symbol t = b_symbol b \<and> t_price t \<noteq> 0 \<and> t_price t \<noteq> INVALID_PRICE \<and>
      t_buy_order_id t \<noteq> t_sell_order_id t) (trade_log b) \<and>
    (reachable cfg b \<longrightarrow> list_all (\<lambda>t. 0 < t_price t \<and> t_price t < INVALID_PRICE \<and> 0 < t_quantity t) (trade_log b))"
proof -
  have "labelled b" using labels.built_output [OF assms] .
  moreover have "fair b" using built_safe [OF assms] by (simp add: safe_book_def)
  moreover have "wf_view (view t)" if "reachable cfg b" "t \<in> set (trade_log b)" for t using reachable_views [OF that(1)] that(2) by simp
  ultimately show ?thesis by (auto simp: list_all_iff wf_view_def view_def fair_def fair_trade_def dest: labelled_log)
qed

theorem trades_well_formed_witness:
  "2 \<le> length (trade_log demo_traded) \<and>
   list_all (\<lambda>t. 0 < t_quantity t \<and> 0 < t_price t \<and> t_symbol t = b_symbol demo_traded) (trade_log demo_traded)"
proof -
  have "length (trade_log demo_traded) = length (trade_log demo_book) + 2"
    using arg_cong [OF demo_traded_facts(2), of length] by simp
  then show ?thesis
    using trades_well_formed [OF reachable_built [OF demo_traded_facts(1)]] demo_traded_facts(1) by (auto simp: list_all_iff)
qed

text \<open>An order amended to quantity 0 stays in its queue, and the next order trades a quantity of 0 with it.\<close>

theorem zero_quantity_trade:
  "(case replace_order (init_result 0) 1 100 0 (demo_add (demo_order 1 Sell 100 50 Limit Day) (demo_start default_config)) of
      None \<Rightarrow> []
    | Some (b, r) \<Rightarrow> map view (trade_log (demo_add (demo_order 2 Buy 100 10 Limit Day) b))) = [(100, 0, 2, 1, Buy)]"
  by code_simp

text \<open>
  C9. Sequence numbers are exact. Trades and execution reports of a book draw on one counter: after any
  history of public calls, within the contract or not, the numbers in use are precisely those from 1 up
  to below the counter, each given to one message, and the trades as well as the reports carry theirs in
  increasing order.
\<close>

theorem sequence_numbers_exact:
  assumes "built cfg b"
  shows "\<exists>n ts rs. 0 < n \<and> b_next_seq_num b = of_nat n \<and> set ts \<union> set rs = {1..<n} \<and> set ts \<inter> set rs = {} \<and>
    sorted_wrt (<) ts \<and> sorted_wrt (<) rs \<and>
    map t_seq_num (trade_log b) = map of_nat ts \<and> report_ids (b_out b) = map of_nat rs"
  using seqs.built_output [OF assms] unfolding numbered_def splits_numbers_def by blast

theorem sequence_numbers_exact_witness:
  "\<exists>n ts. b_next_seq_num demo_traded = of_nat n \<and> set ts \<subseteq> {1..<n} \<and> map t_seq_num (trade_log demo_traded) = map of_nat ts"
  using sequence_numbers_exact [OF reachable_built [OF demo_traded_facts(1)]] by blast

section \<open>Batching\<close>

text \<open>
  What \<^verbatim>\<open>add_order\<close> sends after matching: with batching on, the trades still in the batch go out last,
  behind the execution reports of the same order, whose numbers are larger.
\<close>

definition reports_only :: "book \<Rightarrow> event list \<Rightarrow> book \<Rightarrow> bool" where
  "reports_only b ms b' \<longleftrightarrow> b_out b' = b_out b @ ms \<and> trades_of ms = [] \<and> b_pending_trades b' = b_pending_trades b \<and>
     b_config b' = b_config b \<and> b_on_trade b' = b_on_trade b \<and> b_on_execution b' = b_on_execution b"

lemma reports_only_refl: "reports_only b [] b"
  by (simp add: reports_only_def)

lemma reports_only_trans: "reports_only a xs b \<Longrightarrow> reports_only b ys c \<Longrightarrow> reports_only a (xs @ ys) c"
  by (simp add: reports_only_def)

lemma bbo_reports: "\<exists>ms. reports_only b ms (maybe_emit_bbo b)"
  by (auto simp: reports_only_def maybe_emit_bbo_def now_ns_def Let_def split: option.split)

lemma execution_reports:
  "\<exists>ms. reports_only b ms (emit_execution_report x q avg b) \<and> (b_on_execution b \<noteq> None \<longrightarrow> report_ids ms \<noteq> [])"
  by (auto simp: reports_only_def emit_execution_report_def now_ns_def Let_def split: option.split)

lemma insert_reports: "\<exists>ms. reports_only b ms (insert_resting_order x b)"
proof -
  from insert_emits_bbo [of x b] obtain b1 where b1: "insert_resting_order x b = maybe_emit_bbo b1" "same_output b b1" by blast
  obtain ms where ms: "reports_only b1 ms (maybe_emit_bbo b1)" using bbo_reports by blast
  have "b_on_trade (insert_resting_order x b) = b_on_trade b" "b_on_execution (insert_resting_order x b) = b_on_execution b"
    by (cases "o_side x"; simp add: insert_resting_order_def Let_def)+
  then show ?thesis using ms b1 by (auto simp: reports_only_def same_output_def)
qed

lemma finish_add_flushes:
  assumes "c_batch_callbacks (b_config b)" "b_on_trade b = Some cb" "r_success (snd (finish_add x b))"
  shows "b_pending_trades (fst (finish_add x b)) = [] \<and>
    (\<exists>ms. b_out (fst (finish_add x b)) = b_out b @ ms @ map (TradeEvent cb) (b_pending_trades b) \<and> trades_of ms = [] \<and>
      (b_on_execution b \<noteq> None \<longrightarrow> 0 < o_filled_qty x \<longrightarrow> report_ids ms \<noteq> []))"
proof -
  let ?E = "emit_execution_report x (o_filled_qty x) (avg_fill_price x)"
  define b1 where "b1 = (if is_ioc x then if \<not> is_filled x then ?E b else b else if is_fok x then b
       else if \<not> is_filled x \<and> (o_type x = Limit \<or> o_type x = PostOnly) then insert_resting_order x b else b)"
  define b2 where "b2 = (if 0 < o_filled_qty x then ?E b1 else b1)"
  have "\<exists>ms. reports_only b ms b1"
  proof -
    have "b1 = ?E b \<or> b1 = insert_resting_order x b \<or> b1 = b" by (simp add: b1_def)
    then show ?thesis using execution_reports [of b x] insert_reports [of b x] reports_only_refl [of b] by metis
  qed
  then obtain m1 where m1: "reports_only b m1 b1" by blast
  have "\<exists>ms. reports_only b1 ms b2 \<and> (b_on_execution b1 \<noteq> None \<longrightarrow> 0 < o_filled_qty x \<longrightarrow> report_ids ms \<noteq> [])"
    using execution_reports [of b1 x "o_filled_qty x" "avg_fill_price x"] reports_only_refl [of b1] by (auto simp: b2_def)
  then obtain m2 where m2: "reports_only b1 m2 b2" "b_on_execution b1 \<noteq> None \<longrightarrow> 0 < o_filled_qty x \<longrightarrow> report_ids m2 \<noteq> []" by blast
  note m = reports_only_trans [OF m1 m2(1)]
  have ok: "\<not> (\<not> is_ioc x \<and> is_fok x \<and> \<not> is_filled x)"
    using assms(3) by (cases "\<not> is_ioc x \<and> is_fok x \<and> \<not> is_filled x") (simp_all add: finish_add_def Let_def init_result_def)
  have "(if is_ioc x then if \<not> is_filled x then ?E b else b else if is_fok x then b
     else if \<not> is_filled x \<and> o_type x = Limit then insert_resting_order x b
     else if \<not> is_filled x \<and> o_type x = PostOnly then insert_resting_order x b else b) = b1"
    unfolding b1_def by (cases "is_ioc x"; cases "is_fok x"; cases "is_filled x"; cases "o_type x") simp_all
  then have "finish_add x b = (if c_batch_callbacks (b_config b2) then flush_trades b2 else b2,
      (init_result (o_id x))\<lparr>r_filled_qty := o_filled_qty x, r_avg_fill_price := avg_fill_price x, r_success := True\<rparr>)"
    unfolding finish_add_def Let_def if_not_P [OF ok] b2_def by (simp only:)
  then have "fst (finish_add x b) = flush_trades b2" using assms(1) m by (simp add: reports_only_def)
  then show ?thesis
    using m m1 m2(2) assms(2) by (auto simp: reports_only_def flush_trades_def intro!: exI [of _ "m1 @ m2"])
qed

end
