(* ===== verification/Level_Properties.thy ===== *)
theory Level_Properties
  imports Price_Level
begin

text \<open>
  What the two price levels of \<^verbatim>\<open>include/engine/price_level.hpp\<close> promise: the linked queue is a
  FIFO with removal by id, safe to destroy and to move; the fixed array is a bounded append-only
  queue.
\<close>

lemma lvl_reach_no_fault: "lvl_reach L \<Longrightarrow> \<not> pl_fault L"
  using lvl_reach_inv by (auto simp: lvl_inv_def lvl_repr_def)

lemma destroy_reach: "lvl_reach L \<Longrightarrow> pl_destroy L = Some (L\<lparr>pl_heap := Map.empty\<rparr>)"
  using lvl_reach_inv destroy_repr by (auto simp: lvl_inv_def)

definition demo_level :: price_level where
  "demo_level = pl_add_order 8 30 (pl_add_order 7 50 (new_level 100))"

lemma demo_level_reach: "lvl_reach demo_level"
  unfolding demo_level_def by (intro lvl_reach.intros; code_simp)

lemma demo_level_contents: "contents demo_level = [(7, 50), (8, 30)]"
  by code_simp

text \<open>
  C17. Every level that the public operations can build is a FIFO queue: each operation of the
  pointer code acts on the list of orders the way a queue with removal by id does, the cached total
  and count are the sum and the length of that list, and no freed or null node is ever touched.
\<close>

theorem price_level_is_fifo:
  assumes "lvl_reach L"
  shows "\<not> pl_fault L \<and> pl_total_quantity L = sum_list (map snd (contents L)) \<and>
    pl_order_count L = length (contents L) \<and> (pl_empty L \<longleftrightarrow> contents L = []) \<and>
    pl_front_order_id L = (case contents L of [] \<Rightarrow> INVALID_ORDER_ID | e # es \<Rightarrow> fst e) \<and>
    pl_front_quantity L = (case contents L of [] \<Rightarrow> 0 | e # es \<Rightarrow> snd e) \<and>
    (find_node i L = None \<longrightarrow> contents (pl_add_order i q L) = contents L @ [(i, q)]) \<and>
    contents (snd (pl_remove_order i L)) = filter (\<lambda>e. fst e \<noteq> i) (contents L) \<and>
    (fst (pl_remove_order i L) \<longleftrightarrow> i \<in> fst ` set (contents L)) \<and>
    contents (snd (pl_modify_quantity i q L)) = map (\<lambda>e. if fst e = i then (i, q) else e) (contents L) \<and>
    contents (pl_pop_front L) = tl (contents L) \<and>
    contents (pl_fill_front q L) =
      (case contents L of [] \<Rightarrow> [] | (j, r) # es \<Rightarrow> if r \<le> q then es else (j, r - q) # es)"
proof -
  have inv: "lvl_inv L" using assms by (rule lvl_reach_inv)
  have "contents (pl_fill_front q L) =
      (case contents L of [] \<Rightarrow> [] | (j, r) # es \<Rightarrow> if r \<le> q then es else (j, r - q) # es)"
  proof (cases "contents L")
    case Nil
    then have "pl_head L = None" using lvl_inv_head [OF inv] by simp
    then show ?thesis using Nil by (simp add: pl_fill_front_def)
  next
    case (Cons e es)
    then show ?thesis using lq.consume_all [OF inv] lq.consume_part [OF inv] by (cases e) (auto simp: not_le)
  qed
  then show ?thesis
    using inv lvl_reach_no_fault [OF assms]
    by (auto simp: lq.total_queue count_law lq.empty_queue lq.front_id_queue lq.front_qty_queue lq.add_queue
        find_node_def index_contents lq.remove_queue lq.remove_found lq.modify_queue lq.pop_queue split: list.split)
qed

theorem price_level_is_fifo_witness:
  "pl_total_quantity demo_level = 80 \<and> contents (pl_fill_front 20 demo_level) = [(7, 30), (8, 30)] \<and>
   contents (snd (pl_remove_order 7 demo_level)) = [(8, 30)]"
  using price_level_is_fifo [OF demo_level_reach, where i = 7 and q = 20] by (simp add: demo_level_contents)

text \<open>
  The destructor of such a level ends, frees every node exactly once and touches no freed node.
\<close>

theorem price_level_destructor:
  assumes "lvl_reach L"
  shows "\<exists>L'. pl_destroy L = Some L' \<and> pl_heap L' = Map.empty \<and> \<not> pl_fault L'"
  using destroy_reach [OF assms] lvl_reach_no_fault [OF assms] by simp

theorem price_level_destructor_witness: "\<exists>L'. pl_destroy demo_level = Some L' \<and> pl_heap L' = Map.empty"
  using price_level_destructor [OF demo_level_reach] by blast

text \<open>
  Move assignment frees what the target held, hands the queue over unchanged and leaves an empty
  level behind whose destructor frees nothing.
\<close>

theorem price_level_move:
  assumes "lvl_reach this" "lvl_reach L"
  shows "\<exists>new old. pl_move_assign junk this L = Some (new, old) \<and> contents new = contents L \<and> \<not> pl_fault new \<and>
    contents old = [] \<and> pl_empty old \<and> pl_destroy old = Some old"
  using destroy_reach [OF assms(1)] lvl_reach_no_fault [OF assms(1)] lvl_reach_no_fault [OF assms(2)]
  by (simp add: pl_move_assign_def pl_destroy_def moved_from_def contents_def pl_empty_def delete_chain.simps)

theorem price_level_move_witness:
  "\<exists>new old. pl_move_assign Map.empty (new_level 1) demo_level = Some (new, old) \<and> contents new = [(7, 50), (8, 30)]"
  using price_level_move [OF lvl_new demo_level_reach, of Map.empty 1] by (auto simp: demo_level_contents)

definition fixed_feed :: "nat \<Rightarrow> (order_id \<times> quantity) list \<Rightarrow> fixed_level \<Rightarrow> fixed_level" where
  "fixed_feed n xs F = fold (\<lambda>(i, q) F. snd (fixed_add_order n i q F)) xs F"

lemma fixed_feed_inv: "fixed_inv n ys F \<Longrightarrow> fixed_inv n (take n (ys @ xs)) (fixed_feed n xs F)"
proof (induction xs arbitrary: ys F)
  case Nil
  then show ?case by (simp add: fixed_feed_def fixed_inv_def)
next
  case (Cons e xs)
  obtain i q where e: "e = (i, q)" by (cases e)
  have step: "fixed_feed n (e # xs) F = fixed_feed n xs (snd (fixed_add_order n i q F))" by (simp add: fixed_feed_def e)
  show ?case
  proof (cases "length ys < n")
    case True
    then have "fixed_inv n (ys @ [(i, q)]) (snd (fixed_add_order n i q F))" using fixed_add_step(1) [OF Cons.prems] by blast
    from Cons.IH [OF this] show ?thesis unfolding step by (simp add: e)
  next
    case False
    moreover have "length ys \<le> n" using Cons.prems by (simp add: fixed_inv_def)
    ultimately show ?thesis using fixed_add_step(2) [OF Cons.prems False] Cons.IH [OF Cons.prems] by (simp add: step)
  qed
qed

text \<open>
  The fixed-capacity level accepts exactly the first \<open>n\<close> orders, keeps them in arrival order in
  its first slots, and refuses the rest without changing.
\<close>

theorem fixed_level_capacity:
  fixes p :: price and xs :: "(order_id \<times> quantity) list"
  assumes "length junk = n"
  defines "F \<equiv> fixed_feed n xs (fixed_new p junk)"
  shows "fl_count F = min n (length xs) \<and> fl_total_quantity F = sum_list (map snd (take n xs)) \<and>
    map (\<lambda>s. (s_order_id s, s_quantity s)) (take (fl_count F) (fl_orders F)) = take n xs \<and>
    (fixed_full n F \<longleftrightarrow> n \<le> length xs)"
proof -
  have "fixed_inv n (take n xs) F"
    using fixed_feed_inv [OF fixed_new_inv [OF assms(1)], of xs p] by (simp add: F_def)
  then show ?thesis by (auto simp: fixed_inv_def fixed_full_def comp_def case_prod_beta min_def)
qed

theorem fixed_level_capacity_witness:
  "fl_count (fixed_feed 2 [(1, 10), (2, 20), (3, 30)] (fixed_new 5 [undefined, undefined])) = 2 \<and>
   fl_total_quantity (fixed_feed 2 [(1, 10), (2, 20), (3, 30)] (fixed_new 5 [undefined, undefined])) = 30"
  using fixed_level_capacity [of "[undefined, undefined]" 2 "[(1, 10), (2, 20), (3, 30)]" 5] by simp

end
