(* ===== verification/Spsc_Queue.thy ===== *)
theory Spsc_Queue
  imports Prelude
begin

text \<open>
  \<^verbatim>\<open>include/utils/spsc_queue.hpp\<close>: the single-producer single-consumer ring buffer. The
  capacity is the length of the slot array, a power of two; one slot stays free. Here the calls of
  the two threads do not overlap; \<open>Spsc_Concurrent\<close> interleaves them. \<open>bounded_queue\<close> is the
  interface the matching engine relies on, interpreted on this code.
\<close>

unbundle bit_operations_syntax

section \<open>State and operations\<close>

record 'a spsc_queue =
  q_head :: nat
  q_cached_tail :: nat
  q_tail :: nat
  q_cached_head :: nat
  q_slots :: "'a list"

definition spsc_new :: "nat \<Rightarrow> 'a \<Rightarrow> 'a spsc_queue" where
  "spsc_new cap blank =
     \<lparr>q_head = 0, q_cached_tail = 0, q_tail = 0, q_cached_head = 0, q_slots = replicate cap blank\<rparr>"

definition q_capacity :: "'a spsc_queue \<Rightarrow> nat" where
  "q_capacity q = length (q_slots q)"

definition next_index :: "'a spsc_queue \<Rightarrow> nat \<Rightarrow> nat" where
  "next_index q i = (i + 1) AND (q_capacity q - 1)"

definition try_push :: "'a \<Rightarrow> 'a spsc_queue \<Rightarrow> bool \<times> 'a spsc_queue" where
  "try_push x q =
     (let head = q_head q; next_head = next_index q head in
      if next_head = q_cached_tail q \<and> next_head = q_tail q
      then (False, q\<lparr>q_cached_tail := q_tail q\<rparr>)
      else
        (let q1 = (if next_head = q_cached_tail q then q\<lparr>q_cached_tail := q_tail q\<rparr> else q);
             q2 = q1\<lparr>q_slots := (q_slots q1)[head := x]\<rparr>
         in (True, q2\<lparr>q_head := next_head\<rparr>)))"

definition try_pop :: "'a spsc_queue \<Rightarrow> 'a option \<times> 'a spsc_queue" where
  "try_pop q =
     (let tail = q_tail q in
      if tail = q_cached_head q \<and> tail = q_head q
      then (None, q\<lparr>q_cached_head := q_head q\<rparr>)
      else
        (let q1 = (if tail = q_cached_head q then q\<lparr>q_cached_head := q_head q\<rparr> else q);
             item = q_slots q1 ! tail
         in (Some item, q1\<lparr>q_tail := next_index q1 tail\<rparr>)))"

definition try_pop_into :: "'a \<Rightarrow> 'a spsc_queue \<Rightarrow> bool \<times> 'a \<times> 'a spsc_queue" where
  "try_pop_into item q =
     (case try_pop q of
        (Some x, q1) \<Rightarrow> (True, x, q1)
      | (None, q1) \<Rightarrow> (False, item, q1))"

text \<open>The blocking forms spin; on a queue nobody else touches they may not return.\<close>

partial_function (option) spsc_push :: "'a \<Rightarrow> 'a spsc_queue \<Rightarrow> 'a spsc_queue option" where
  "spsc_push x q = (case try_push x q of (ok, q1) \<Rightarrow> if ok then Some q1 else spsc_push x q1)"

partial_function (option) spsc_pop :: "'a spsc_queue \<Rightarrow> ('a \<times> 'a spsc_queue) option" where
  "spsc_pop q = (case try_pop q of (Some x, q1) \<Rightarrow> Some (x, q1) | (None, q1) \<Rightarrow> spsc_pop q1)"

declare spsc_push.simps [code] spsc_pop.simps [code]

definition size_approx :: "'a spsc_queue \<Rightarrow> nat" where
  "size_approx q =
     unat ((of_nat (q_head q) - of_nat (q_tail q) + of_nat (q_capacity q) :: 64 word) AND (of_nat (q_capacity q) - 1))"

definition spsc_empty :: "'a spsc_queue \<Rightarrow> bool" where
  "spsc_empty q \<longleftrightarrow> q_head q = q_tail q"

section \<open>The queue as a list\<close>

text \<open>
  Counting pushes and pops without wrap-around: after \<open>P\<close> pushes and \<open>C\<close> pops the indices are these
  numbers modulo the capacity, and each thread's cached copy of the other index is an old value.
\<close>

definition ring :: "nat \<Rightarrow> nat \<Rightarrow> 'a spsc_queue \<Rightarrow> bool" where
  "ring P C q \<longleftrightarrow>
     (\<exists>k. q_capacity q = 2 ^ k) \<and> C \<le> P \<and> P - C < q_capacity q \<and>
     q_head q = P mod q_capacity q \<and> q_tail q = C mod q_capacity q \<and>
     (\<exists>ct \<le> C. P - ct < q_capacity q \<and> q_cached_tail q = ct mod q_capacity q) \<and>
     (\<exists>ch \<ge> C. ch \<le> P \<and> q_cached_head q = ch mod q_capacity q)"

definition items :: "'a spsc_queue \<Rightarrow> 'a list" where
  "items q =
     (let n = (q_head q + q_capacity q - q_tail q) mod q_capacity q
      in map (\<lambda>i. q_slots q ! ((q_tail q + i) mod q_capacity q)) [0..<n])"

definition spsc_inv :: "'a spsc_queue \<Rightarrow> bool" where
  "spsc_inv q \<longleftrightarrow> (\<exists>P C. ring P C q)"

lemma mask_mod: "(m :: nat) AND (2 ^ k - 1) = m mod 2 ^ k"
  by (metis mask_eq_exp_minus_1 take_bit_eq_mask take_bit_eq_mod)

lemma next_index_mod: "q_capacity q = 2 ^ k \<Longrightarrow> next_index q i = Suc i mod q_capacity q"
  using mask_mod [of "Suc i" k] by (simp add: next_index_def)

lemma index_frame [simp]:
  "next_index (q\<lparr>q_cached_head := a\<rparr>) i = next_index q i" "next_index (q\<lparr>q_cached_tail := a\<rparr>) i = next_index q i"
  "next_index (q\<lparr>q_head := a\<rparr>) i = next_index q i" "next_index (q\<lparr>q_tail := a\<rparr>) i = next_index q i"
  "next_index (q\<lparr>q_slots := (q_slots q)[j := x]\<rparr>) i = next_index q i"
  "q_capacity (q\<lparr>q_cached_head := a\<rparr>) = q_capacity q" "q_capacity (q\<lparr>q_cached_tail := a\<rparr>) = q_capacity q"
  "q_capacity (q\<lparr>q_head := a\<rparr>) = q_capacity q" "q_capacity (q\<lparr>q_tail := a\<rparr>) = q_capacity q"
  "q_capacity (q\<lparr>q_slots := (q_slots q)[j := x]\<rparr>) = q_capacity q"
  by (simp_all add: next_index_def q_capacity_def)

lemma mod_eq_small:
  fixes a b c :: nat
  assumes "a \<le> b" "b - a < c"
  shows "a mod c = b mod c \<longleftrightarrow> a = b"
proof
  assume "a mod c = b mod c"
  then have "(b - a) mod c = 0" using assms(1) by (metis mod_eq_dvd_iff_nat mod_0_imp_dvd dvd_imp_mod_0)
  then show "a = b" using assms by simp
qed simp

lemma ring_count:
  assumes "ring P C q"
  shows "(q_head q + q_capacity q - q_tail q) mod q_capacity q = P - C"
proof -
  let ?c = "q_capacity q"
  have c: "0 < ?c" "C \<le> P" "P - C < ?c" "q_head q = P mod ?c" "q_tail q = C mod ?c" using assms by (auto simp: ring_def)
  have "int ((P mod ?c + ?c - C mod ?c) mod ?c) = (int P - int C) mod int ?c"
    using c(1) by (simp add: of_nat_diff less_imp_le_nat trans_le_add2 zmod_int mod_simps) (metis (no_types) add.commute diff_add_eq mod_add_self2 mod_diff_eq mod_add_right_eq)
  also have "\<dots> = int (P - C)" using c by (simp add: of_nat_diff)
  finally show ?thesis using c by simp
qed

lemma ring_items:
  assumes "ring P C q"
  shows "items q = map (\<lambda>k. q_slots q ! (k mod q_capacity q)) [C..<P]"
proof -
  let ?c = "q_capacity q"
  have "C \<le> P" "q_tail q = C mod ?c" using assms by (auto simp: ring_def)
  moreover have "items q = map (\<lambda>i. q_slots q ! ((q_tail q + i) mod ?c)) [0..<P - C]"
    by (simp add: items_def ring_count [OF assms])
  ultimately show ?thesis by (intro nth_equalityI) (simp_all add: mod_add_left_eq)
qed

lemma ring_cap: "ring P C q \<Longrightarrow> 0 < q_capacity q" "ring P C q \<Longrightarrow> next_index q i = Suc i mod q_capacity q"
  by (auto simp: ring_def intro: next_index_mod)

lemma ring_full:
  assumes "ring P C q"
  shows "next_index q (q_head q) = q_tail q \<longleftrightarrow> Suc (P - C) = q_capacity q"
proof -
  let ?c = "q_capacity q"
  have c: "0 < ?c" "C \<le> P" "P - C < ?c" "q_head q = P mod ?c" "q_tail q = C mod ?c" using assms by (auto simp: ring_def)
  have "next_index q (q_head q) = Suc P mod ?c" by (simp add: ring_cap(2) [OF assms] c mod_Suc_eq)
  moreover have "C mod ?c = Suc P mod ?c \<longleftrightarrow> Suc (P - C) = ?c"
  proof (cases "Suc (P - C) = ?c")
    case True
    then have "Suc P = C + ?c" using c by simp
    then show ?thesis using True by simp
  next
    case False
    then have "C \<le> Suc P" "Suc P - C < ?c" using c by auto
    from mod_eq_small [OF this] show ?thesis using False c by simp
  qed
  ultimately show ?thesis using c by auto
qed

text \<open>The stale copy answers "full" only when re-reading would be needed anyway, never "not full" wrongly.\<close>

lemma ring_cached_full:
  assumes "ring P C q" "next_index q (q_head q) \<noteq> q_cached_tail q"
  shows "Suc (P - C) < q_capacity q"
proof -
  let ?c = "q_capacity q"
  obtain ct where ct: "ct \<le> C" "P - ct < ?c" "q_cached_tail q = ct mod ?c" using assms(1) by (auto simp: ring_def)
  have c: "0 < ?c" "C \<le> P" "q_head q = P mod ?c" using assms by (auto simp: ring_def)
  have "next_index q (q_head q) = Suc P mod ?c" by (simp add: ring_cap(2) [OF assms(1)] c mod_Suc_eq)
  then have "Suc P mod ?c \<noteq> ct mod ?c" using assms(2) ct by simp
  moreover have "Suc (P - ct) = ?c \<Longrightarrow> Suc P = ct + ?c" using ct c by simp
  ultimately have "Suc (P - ct) \<noteq> ?c" by auto
  then show ?thesis using ct c by simp
qed

lemma ring_empty:
  assumes "ring P C q"
  shows "q_tail q = q_head q \<longleftrightarrow> P = C"
  using assms mod_eq_small [of C P "q_capacity q"] by (auto simp: ring_def)

lemma ring_cached_empty:
  assumes "ring P C q" "q_tail q \<noteq> q_cached_head q"
  shows "C < P"
proof -
  obtain ch where "C \<le> ch" "ch \<le> P" "q_cached_head q = ch mod q_capacity q" "q_tail q = C mod q_capacity q"
    using assms(1) by (auto simp: ring_def)
  then show ?thesis using assms(2) by (cases "C = ch") auto
qed

lemma slot_same:
  fixes j k c :: nat
  assumes "j \<noteq> k" "j < k + c" "k < j + c"
  shows "j mod c \<noteq> k mod c"
proof (cases "j \<le> k")
  case True
  then show ?thesis using mod_eq_small [OF True, of c] assms by (simp add: less_diff_conv2 add.commute)
next
  case False
  then have "k \<le> j" "j - k < c" using assms by auto
  from mod_eq_small [OF this] show ?thesis using assms by simp
qed

lemma ring_write:
  assumes "ring P C q" "Suc (P - C) < q_capacity q"
  shows "map (\<lambda>k. (q_slots q)[P mod q_capacity q := x] ! (k mod q_capacity q)) [C..<Suc P] = items q @ [x]"
proof -
  let ?c = "q_capacity q"
  have c: "0 < ?c" "C \<le> P" "length (q_slots q) = ?c" using assms by (auto simp: ring_def q_capacity_def)
  have "(q_slots q)[P mod ?c := x] ! (k mod ?c) = q_slots q ! (k mod ?c)" if "C \<le> k" "k < P" for k
  proof -
    have "k < P + ?c" "P < k + ?c" using that assms(2) by auto
    then have "P mod ?c \<noteq> k mod ?c" using slot_same [of P k ?c] that by simp
    then show ?thesis by simp
  qed
  then show ?thesis using c by (simp add: ring_items [OF assms(1)] upt_Suc_append)
qed

lemma try_push_ring:
  assumes "ring P C q"
  shows "Suc (P - C) = q_capacity q \<Longrightarrow> \<exists>q'. try_push x q = (False, q') \<and> ring P C q' \<and> items q' = items q \<and> q_capacity q' = q_capacity q"
    and "Suc (P - C) < q_capacity q \<Longrightarrow> \<exists>q'. try_push x q = (True, q') \<and> ring (Suc P) C q' \<and> items q' = items q @ [x] \<and> q_capacity q' = q_capacity q"
proof -
  let ?c = "q_capacity q" and ?q0 = "q\<lparr>q_cached_tail := q_tail q\<rparr>"
  have r0: "ring P C ?q0" "items ?q0 = items q" "q_capacity ?q0 = ?c"
    using assms by (auto simp: ring_def q_capacity_def items_def)
  show "\<exists>q'. try_push x q = (False, q') \<and> ring P C q' \<and> items q' = items q \<and> q_capacity q' = ?c" if "Suc (P - C) = ?c"
  proof -
    have "next_index q (q_head q) = q_tail q" using ring_full [OF assms] that by simp
    moreover have "next_index q (q_head q) = q_cached_tail q" using ring_cached_full [OF assms] that by force
    ultimately show ?thesis using r0 by (simp add: try_push_def Let_def)
  qed
  assume nf: "Suc (P - C) < ?c"
  then have nt: "next_index q (q_head q) \<noteq> q_tail q" using ring_full [OF assms] by simp
  define q1 where "q1 = (if next_index q (q_head q) = q_cached_tail q then ?q0 else q)"
  define q' where "q' = q1\<lparr>q_slots := (q_slots q1)[q_head q := x], q_head := next_index q (q_head q)\<rparr>"
  have t: "try_push x q = (True, q')" using nt by (auto simp: try_push_def Let_def q'_def q1_def)
  have r1: "ring P C q1" "items q1 = items q" "q_capacity q1 = ?c" "q_slots q1 = q_slots q" using assms r0 by (auto simp: q1_def)
  have ct: "\<exists>ct \<le> C. Suc P - ct < ?c \<and> q_cached_tail q1 = ct mod ?c"
  proof (cases "next_index q (q_head q) = q_cached_tail q")
    case True
    then show ?thesis using assms nf by (intro exI [of _ C]) (auto simp: q1_def ring_def)
  next
    case False
    obtain c0 where c0: "c0 \<le> C" "P - c0 < ?c" "q_cached_tail q = c0 mod ?c" using assms by (auto simp: ring_def)
    have "next_index q (q_head q) = Suc P mod ?c" using assms by (simp add: ring_cap(2) [OF assms] mod_Suc_eq ring_def)
    then have "Suc P mod ?c \<noteq> c0 mod ?c" using False c0 by simp
    moreover have "C \<le> P" using assms by (simp add: ring_def)
    then have "Suc (P - c0) = ?c \<Longrightarrow> Suc P = c0 + ?c" "c0 \<le> P" using c0(1) by auto
    ultimately have "Suc (P - c0) \<noteq> ?c" by auto
    then have "Suc P - c0 < ?c" using c0(2) \<open>c0 \<le> P\<close> by (simp add: Suc_diff_le)
    then show ?thesis using c0 False by (intro exI [of _ c0]) (simp add: q1_def)
  qed
  have cap': "q_capacity q' = ?c" by (simp add: q'_def q1_def q_capacity_def)
  have r': "ring (Suc P) C q'"
    using r1(1) ct nf ring_cap [OF assms] assms unfolding ring_def cap' r1(3)
    by (auto simp: q'_def mod_Suc_eq Suc_diff_le intro: le_SucI)
  moreover have "items q' = items q @ [x]"
    using ring_write [OF assms nf, of x] assms
    by (simp add: ring_items [OF r'] cap' del: upt_Suc) (simp add: q'_def r1(4) ring_def)
  ultimately show "\<exists>q'. try_push x q = (True, q') \<and> ring (Suc P) C q' \<and> items q' = items q @ [x] \<and> q_capacity q' = ?c"
    using t cap' by blast
qed

lemma try_pop_ring:
  assumes "ring P C q"
  shows "P = C \<Longrightarrow> \<exists>q'. try_pop q = (None, q') \<and> ring P C q' \<and> items q' = items q \<and> q_capacity q' = q_capacity q"
    and "C < P \<Longrightarrow> \<exists>q'. try_pop q = (Some (hd (items q)), q') \<and> ring P (Suc C) q' \<and> items q' = tl (items q) \<and> q_capacity q' = q_capacity q"
proof -
  let ?c = "q_capacity q" and ?q0 = "q\<lparr>q_cached_head := q_head q\<rparr>"
  have r0: "ring P C ?q0" "items ?q0 = items q" "q_capacity ?q0 = ?c"
    using assms by (auto simp: ring_def q_capacity_def items_def)
  show "\<exists>q'. try_pop q = (None, q') \<and> ring P C q' \<and> items q' = items q \<and> q_capacity q' = ?c" if "P = C"
  proof -
    have "q_tail q = q_head q" using ring_empty [OF assms] that by simp
    moreover have "q_tail q = q_cached_head q" using ring_cached_empty [OF assms] that by force
    ultimately show ?thesis using r0 by (simp add: try_pop_def Let_def)
  qed
  assume lt: "C < P"
  then have nt: "q_tail q \<noteq> q_head q" using ring_empty [OF assms] by simp
  define q1 where "q1 = (if q_tail q = q_cached_head q then ?q0 else q)"
  define q' where "q' = q1\<lparr>q_tail := next_index q (q_tail q)\<rparr>"
  have f: "q_slots q1 = q_slots q" "next_index q1 i = next_index q i" for i by (simp_all add: q1_def next_index_def q_capacity_def)
  have it: "items q = q_slots q ! q_tail q # map (\<lambda>k. q_slots q ! (k mod ?c)) [Suc C..<P]"
    using lt assms by (simp add: ring_items [OF assms] upt_conv_Cons ring_def)
  have t: "try_pop q = (Some (hd (items q)), q')" using nt by (auto simp: try_pop_def Let_def q'_def f it) (auto simp: q1_def)
  have ch: "\<exists>ch \<ge> Suc C. ch \<le> P \<and> q_cached_head q1 = ch mod ?c"
  proof (cases "q_tail q = q_cached_head q")
    case True
    then show ?thesis using assms lt by (intro exI [of _ P]) (auto simp: q1_def ring_def)
  next
    case False
    obtain c0 where c0: "C \<le> c0" "c0 \<le> P" "q_cached_head q = c0 mod ?c" using assms by (auto simp: ring_def)
    then have "c0 \<noteq> C" using False assms by (auto simp: ring_def)
    then show ?thesis using c0 False by (intro exI [of _ c0]) (auto simp: q1_def)
  qed
  have cap': "q_capacity q' = ?c" by (simp add: q'_def q1_def q_capacity_def)
  have "ring P C q1" "q_capacity q1 = ?c" using assms r0 by (auto simp: q1_def)
  then have r': "ring P (Suc C) q'"
    using ch lt ring_cap [OF assms] assms unfolding ring_def cap'
    by (auto simp: q'_def mod_Suc_eq intro: le_SucI)
  moreover have "items q' = tl (items q)"
    by (simp add: ring_items [OF r'] cap' it) (simp add: q'_def f)
  ultimately show "\<exists>q'. try_pop q = (Some (hd (items q)), q') \<and> ring P (Suc C) q' \<and> items q' = tl (items q) \<and> q_capacity q' = ?c"
    using t cap' by blast
qed

lemma items_length: "ring P C q \<Longrightarrow> length (items q) = P - C"
  by (simp add: ring_items)

lemma spsc_new_ring: "ring 0 0 (spsc_new (2 ^ k) blank)"
  by (auto simp: ring_def spsc_new_def q_capacity_def)

lemma ring_inv: "ring P C q \<Longrightarrow> spsc_inv q"
  by (auto simp: spsc_inv_def)

section \<open>The interface of a bounded queue\<close>

locale bounded_queue =
  fixes push :: "'a \<Rightarrow> 'q \<Rightarrow> bool \<times> 'q"
    and pop :: "'q \<Rightarrow> 'a option \<times> 'q"
    and inv :: "'q \<Rightarrow> bool"
    and queue :: "'q \<Rightarrow> 'a list"
    and bound :: "'q \<Rightarrow> nat"
  assumes push_inv: "inv q \<Longrightarrow> inv (snd (push x q))"
    and push_ok: "inv q \<Longrightarrow> fst (push x q) \<longleftrightarrow> length (queue q) < bound q"
    and push_queue: "inv q \<Longrightarrow>
      queue (snd (push x q)) = (if length (queue q) < bound q then queue q @ [x] else queue q)"
    and push_bound: "inv q \<Longrightarrow> bound (snd (push x q)) = bound q"
    and pop_inv: "inv q \<Longrightarrow> inv (snd (pop q))"
    and pop_result: "inv q \<Longrightarrow> fst (pop q) = (case queue q of [] \<Rightarrow> None | x # xs \<Rightarrow> Some x)"
    and pop_queue: "inv q \<Longrightarrow> queue (snd (pop q)) = tl (queue q)"
    and pop_bound: "inv q \<Longrightarrow> bound (snd (pop q)) = bound q"
    and bounded: "inv q \<Longrightarrow> length (queue q) \<le> bound q"
begin

lemma pop_cases:
  assumes "inv q"
  obtains (empty) q1 where "pop q = (None, q1)" "queue q = []" "queue q1 = []" "inv q1" "bound q1 = bound q"
  | (item) x q1 where "pop q = (Some x, q1)" "queue q = x # queue q1" "inv q1" "bound q1 = bound q"
proof (cases "queue q")
  case Nil
  then show ?thesis
    using pop_result [OF assms] pop_queue [OF assms] pop_inv [OF assms] pop_bound [OF assms]
    by (intro empty [of "snd (pop q)"]) (simp_all add: prod_eq_iff)
next
  case (Cons x xs)
  then show ?thesis
    using pop_result [OF assms] pop_queue [OF assms] pop_inv [OF assms] pop_bound [OF assms]
    by (intro item [of x "snd (pop q)"]) (simp_all add: prod_eq_iff)
qed

lemma push_then_pop:
  assumes "inv q" "queue q = []" "0 < bound q"
  shows "fst (pop (snd (push x q))) = Some x"
  using assms by (simp add: pop_result push_inv push_queue)

lemma push_cases:
  assumes "inv q"
  obtains (full) q1 where "push x q = (False, q1)" "length (queue q) = bound q" "queue q1 = queue q" "inv q1" "bound q1 = bound q"
  | (room) q1 where "push x q = (True, q1)" "length (queue q) < bound q" "queue q1 = queue q @ [x]" "inv q1" "bound q1 = bound q"
proof (cases "length (queue q) < bound q")
  case True
  then show ?thesis
    using push_ok [OF assms, of x] push_queue [OF assms, of x] push_inv [OF assms, of x] push_bound [OF assms, of x]
    by (intro room [of "snd (push x q)"]) (simp_all add: prod_eq_iff)
next
  case False
  then show ?thesis
    using push_ok [OF assms, of x] push_queue [OF assms, of x] push_inv [OF assms, of x] push_bound [OF assms, of x] bounded [OF assms]
    by (intro full [of "snd (push x q)"]) (simp_all add: prod_eq_iff)
qed

end

interpretation sq: bounded_queue try_push try_pop spsc_inv items "\<lambda>q. q_capacity q - 1"
proof
  fix x :: 'a and q :: "'a spsc_queue"
  assume "spsc_inv q"
  then obtain P C where r: "ring P C q" by (auto simp: spsc_inv_def)
  note len = items_length [OF r] and cap = ring_cap(1) [OF r]
  have lt: "P - C < q_capacity q" "C \<le> P" using r by (auto simp: ring_def)
  show "length (items q) \<le> q_capacity q - 1" using len lt by simp
  have push: "(\<exists>q'. try_push x q = (length (items q) < q_capacity q - 1, q') \<and> spsc_inv q' \<and>
      items q' = (if length (items q) < q_capacity q - 1 then items q @ [x] else items q) \<and> q_capacity q' = q_capacity q)"
  proof (cases "Suc (P - C) = q_capacity q")
    case True
    then show ?thesis using try_push_ring(1) [OF r True, of x] len by (auto simp: spsc_inv_def)
  next
    case False
    then have "Suc (P - C) < q_capacity q" using lt by simp
    from try_push_ring(2) [OF r this, of x] this show ?thesis using len by (auto simp: spsc_inv_def)
  qed
  then show "spsc_inv (snd (try_push x q))"
    "fst (try_push x q) \<longleftrightarrow> length (items q) < q_capacity q - 1"
    "items (snd (try_push x q)) = (if length (items q) < q_capacity q - 1 then items q @ [x] else items q)"
    "q_capacity (snd (try_push x q)) - 1 = q_capacity q - 1" by auto
  have pop: "\<exists>q'. try_pop q = ((case items q of [] \<Rightarrow> None | x # xs \<Rightarrow> Some x), q') \<and> spsc_inv q' \<and>
      items q' = tl (items q) \<and> q_capacity q' = q_capacity q"
  proof (cases "C < P")
    case True
    then have "items q \<noteq> []" using len by auto
    then obtain x xs where "items q = x # xs" by (cases "items q") auto
    then show ?thesis using try_pop_ring(2) [OF r True] by (auto intro: ring_inv)
  next
    case False
    then have "P = C" "items q = []" using lt len by auto
    then show ?thesis using try_pop_ring(1) [OF r] by (auto intro: ring_inv)
  qed
  then show "spsc_inv (snd (try_pop q))" "fst (try_pop q) = (case items q of [] \<Rightarrow> None | x # xs \<Rightarrow> Some x)"
    "items (snd (try_pop q)) = tl (items q)" "q_capacity (snd (try_pop q)) - 1 = q_capacity q - 1" by auto
qed

lemma spsc_new_inv: "spsc_inv (spsc_new (2 ^ k) blank)" "items (spsc_new (2 ^ k) blank) = []"
  using spsc_new_ring [of k blank] ring_items [OF spsc_new_ring] by (auto simp: spsc_inv_def)

section \<open>Size and the blocking forms\<close>

lemma size_approx_items:
  assumes "spsc_inv q" "q_capacity q < 2 ^ 64"
  shows "size_approx q = length (items q)"
proof -
  from assms(1) obtain P C where r: "ring P C q" by (auto simp: spsc_inv_def)
  let ?c = "q_capacity q"
  obtain k where k: "?c = 2 ^ k" using r by (auto simp: ring_def)
  have lt: "q_tail q < ?c" "q_head q < ?c" using r ring_cap(1) [OF r] by (auto simp: ring_def)
  have k64: "k < 64" using assms(2) k by (metis not_less one_less_numeral_iff power_increasing_iff power_strict_increasing_iff semiring_norm(76))
  have w: "(of_nat (q_head q) - of_nat (q_tail q) + of_nat ?c :: 64 word) = of_nat (q_head q + ?c - q_tail q)"
    using lt by (simp add: of_nat_diff algebra_simps less_imp_le_nat trans_le_add2)
  have m: "(of_nat ?c - 1 :: 64 word) = mask k" by (simp add: k mask_eq_exp_minus_1)
  have "size_approx q = unat (take_bit k (of_nat (q_head q + ?c - q_tail q) :: 64 word))"
    by (simp add: size_approx_def w m take_bit_eq_mask)
  also have "\<dots> = take_bit k (q_head q + ?c - q_tail q)"
    using k64 by (simp add: unsigned_take_bit_eq unsigned_of_nat min_def)
  also have "\<dots> = (q_head q + ?c - q_tail q) mod 2 ^ k" by (simp add: take_bit_eq_mod)
  finally show ?thesis using ring_count [OF r] items_length [OF r] k by simp
qed

lemma spsc_empty_items: "spsc_inv q \<Longrightarrow> spsc_empty q \<longleftrightarrow> items q = []"
proof -
  assume "spsc_inv q"
  then obtain P C where r: "ring P C q" by (auto simp: spsc_inv_def)
  moreover from r have "C \<le> P" by (simp add: ring_def)
  ultimately have "items q = [] \<longleftrightarrow> P = C" using items_length [OF r] by auto
  then show ?thesis using ring_empty [OF r] by (auto simp: spsc_empty_def)
qed

lemma spsc_push_some:
  assumes "spsc_push x q = Some q'"
  shows "spsc_inv q \<longrightarrow> length (items q) < q_capacity q - 1"
proof (rule spsc_push.raw_induct [where P = "\<lambda>x q q'. spsc_inv q \<longrightarrow> length (items q) < q_capacity q - 1" and xa = "(x, q)", unfolded prod.case, OF _ assms])
  fix self x and q :: "'a spsc_queue" and r
  assume IH: "\<And>x (q :: 'a spsc_queue) r. self x q = Some r \<Longrightarrow> spsc_inv q \<longrightarrow> length (items q) < q_capacity q - 1"
    and st: "(case try_push x q of (ok, q1) \<Rightarrow> if ok then Some q1 else self x q1) = Some r"
  show "spsc_inv q \<longrightarrow> length (items q) < q_capacity q - 1"
  proof
    assume inv: "spsc_inv q"
    show "length (items q) < q_capacity q - 1"
      by (rule sq.push_cases [OF inv, of x]) (use IH st in \<open>fastforce+\<close>)
  qed
qed

lemma spsc_push_result:
  assumes "spsc_inv q"
  shows "spsc_push x q = (if length (items q) < q_capacity q - 1 then Some (snd (try_push x q)) else None)"
proof (cases "length (items q) < q_capacity q - 1")
  case True
  then have "fst (try_push x q)" using sq.push_ok [OF assms] by blast
  then show ?thesis using True by (simp add: spsc_push.simps [of x q] case_prod_beta)
next
  case False
  then show ?thesis using spsc_push_some [of x q] assms by (cases "spsc_push x q") auto
qed

lemma spsc_pop_some:
  assumes "spsc_pop q = Some r"
  shows "spsc_inv q \<longrightarrow> items q \<noteq> []"
proof (rule spsc_pop.raw_induct [where P = "\<lambda>q r. spsc_inv q \<longrightarrow> items q \<noteq> []", OF _ assms])
  fix self and q :: "'a spsc_queue" and r
  assume IH: "\<And>(q :: 'a spsc_queue) r. self q = Some r \<Longrightarrow> spsc_inv q \<longrightarrow> items q \<noteq> []"
    and st: "(case try_pop q of (Some x, q1) \<Rightarrow> Some (x, q1) | (None, q1) \<Rightarrow> self q1) = Some r"
  show "spsc_inv q \<longrightarrow> items q \<noteq> []"
  proof
    assume inv: "spsc_inv q"
    show "items q \<noteq> []" by (rule sq.pop_cases [OF inv]) (use IH st in \<open>fastforce+\<close>)
  qed
qed

lemma spsc_pop_result:
  assumes "spsc_inv q"
  shows "spsc_pop q = (if items q = [] then None else Some (hd (items q), snd (try_pop q)))"
proof (cases "items q")
  case Nil
  then show ?thesis using spsc_pop_some [of q] assms by (cases "spsc_pop q") auto
next
  case (Cons x xs)
  then have "fst (try_pop q) = Some x" using sq.pop_result [OF assms] by simp
  then obtain q1 where "try_pop q = (Some x, q1)" by (metis prod.collapse)
  then show ?thesis using Cons by (simp add: spsc_pop.simps [of q])
qed

text \<open>
  C20. Used by one thread at a time the ring buffer is a FIFO queue of capacity minus one items: a push
  is refused exactly when that many are stored, a pop yields the oldest item, the size and the
  emptiness test are exact, and the blocking forms return exactly when the non-blocking ones
  succeed at once, spinning for ever otherwise.
\<close>

theorem spsc_bounded_fifo:
  assumes "spsc_inv q" "q_capacity q < 2 ^ 64"
  shows "(let full = (length (items q) = q_capacity q - 1) in
      fst (try_push x q) = (\<not> full) \<and> items (snd (try_push x q)) = (if full then items q else items q @ [x]) \<and>
      spsc_inv (snd (try_push x q)) \<and>
      spsc_push x q = (if full then None else Some (snd (try_push x q)))) \<and>
    fst (try_pop q) = (if items q = [] then None else Some (hd (items q))) \<and>
    items (snd (try_pop q)) = tl (items q) \<and> spsc_inv (snd (try_pop q)) \<and>
    spsc_pop q = (if items q = [] then None else Some (hd (items q), snd (try_pop q))) \<and>
    size_approx q = length (items q) \<and> (spsc_empty q \<longleftrightarrow> items q = [])"
proof -
  have "length (items q) < q_capacity q - 1 \<longleftrightarrow> length (items q) \<noteq> q_capacity q - 1"
    using sq.bounded [OF assms(1)] by auto
  then show ?thesis
    using sq.push_ok [OF assms(1), of x] sq.push_queue [OF assms(1), of x] sq.push_inv [OF assms(1)] spsc_push_result [OF assms(1), of x]
      sq.pop_result [OF assms(1)] sq.pop_queue [OF assms(1)] sq.pop_inv [OF assms(1)] spsc_pop_result [OF assms(1)]
      size_approx_items [OF assms] spsc_empty_items [OF assms(1)]
    by (cases "items q") simp_all
qed

theorem spsc_bounded_fifo_witness:
  "fst (try_push 3 (snd (try_push 2 (spsc_new 2 (0 :: nat))))) = False \<and>
   spsc_push 3 (snd (try_push 2 (spsc_new 2 (0 :: nat)))) = None \<and>
   fst (try_pop (snd (try_push 2 (spsc_new 2 (0 :: nat))))) = Some 2"
proof -
  let ?q = "snd (try_push 2 (spsc_new 2 (0 :: nat)))"
  have i: "items ?q = [2]" and c: "q_capacity ?q = 2" by code_simp+
  have n: "spsc_inv (spsc_new 2 (0 :: nat))" using spsc_new_inv(1) [of 1 "0 :: nat"] by simp
  have inv: "spsc_inv ?q" by (rule sq.push_inv [OF n])
  from spsc_bounded_fifo [OF inv, of 3] show ?thesis by (simp add: i c)
qed

end
