(* ===== verification/Spsc_Concurrent.thy ===== *)
theory Spsc_Concurrent
  imports Spsc_Queue
begin

text \<open>
  The producer and the consumer of \<^verbatim>\<open>SPSCQueue\<close> on two threads: every access to a shared index or
  to a slot is one step, and the steps of the two threads interleave in any order. The
  acquire and release orderings of the code make this interleaving of the accesses the only
  observable one; weaker orders are not modelled.
\<close>

section \<open>Threads\<close>

datatype 'a producer_pc =
    PIdle
  | PLoaded 'a nat
  | PReload 'a nat
  | PStore 'a nat
  | PPublish 'a nat

datatype 'a consumer_pc =
    CIdle
  | CLoaded nat
  | CReload nat
  | CFetch nat
  | CPublish nat 'a

text \<open>
  \<open>sys_sent\<close> and \<open>sys_received\<close> are the items whose \<^verbatim>\<open>try_push\<close> or \<^verbatim>\<open>try_pop\<close> has published its
  index; the code does not keep them.
\<close>

record 'a spsc_sys =
  sys_queue :: "'a spsc_queue"
  sys_prod :: "'a producer_pc"
  sys_cons :: "'a consumer_pc"
  sys_sent :: "'a list"
  sys_received :: "'a list"

definition spsc_start :: "nat \<Rightarrow> 'a \<Rightarrow> 'a spsc_sys" where
  "spsc_start cap blank =
     \<lparr>sys_queue = spsc_new cap blank, sys_prod = PIdle, sys_cons = CIdle, sys_sent = [], sys_received = []\<rparr>"

fun producer_next :: "'a spsc_sys \<Rightarrow> 'a spsc_sys option" where
  "producer_next s =
     (let q = sys_queue s in
      case sys_prod s of
        PIdle \<Rightarrow> None
      | PLoaded x head \<Rightarrow>
          Some (if next_index q head = q_cached_tail q then s\<lparr>sys_prod := PReload x head\<rparr>
                else s\<lparr>sys_prod := PStore x head\<rparr>)
      | PReload x head \<Rightarrow>
          (let q1 = q\<lparr>q_cached_tail := q_tail q\<rparr>
           in Some (if next_index q1 head = q_cached_tail q1 then s\<lparr>sys_queue := q1, sys_prod := PIdle\<rparr>
                    else s\<lparr>sys_queue := q1, sys_prod := PStore x head\<rparr>))
      | PStore x head \<Rightarrow>
          Some (s\<lparr>sys_queue := q\<lparr>q_slots := (q_slots q)[head := x]\<rparr>, sys_prod := PPublish x head\<rparr>)
      | PPublish x head \<Rightarrow>
          Some (s\<lparr>sys_queue := q\<lparr>q_head := next_index q head\<rparr>, sys_prod := PIdle, sys_sent := sys_sent s @ [x]\<rparr>))"

fun consumer_next :: "'a spsc_sys \<Rightarrow> 'a spsc_sys option" where
  "consumer_next s =
     (let q = sys_queue s in
      case sys_cons s of
        CIdle \<Rightarrow> None
      | CLoaded tail \<Rightarrow>
          Some (if tail = q_cached_head q then s\<lparr>sys_cons := CReload tail\<rparr> else s\<lparr>sys_cons := CFetch tail\<rparr>)
      | CReload tail \<Rightarrow>
          (let q1 = q\<lparr>q_cached_head := q_head q\<rparr>
           in Some (if tail = q_cached_head q1 then s\<lparr>sys_queue := q1, sys_cons := CIdle\<rparr>
                    else s\<lparr>sys_queue := q1, sys_cons := CFetch tail\<rparr>))
      | CFetch tail \<Rightarrow> Some (s\<lparr>sys_cons := CPublish tail (q_slots q ! tail)\<rparr>)
      | CPublish tail item \<Rightarrow>
          Some (s\<lparr>sys_queue := q\<lparr>q_tail := next_index q tail\<rparr>, sys_cons := CIdle, sys_received := sys_received s @ [item]\<rparr>))"

inductive spsc_step :: "'a spsc_sys \<Rightarrow> 'a spsc_sys \<Rightarrow> bool" where
  call_push: "sys_prod s = PIdle \<Longrightarrow> spsc_step s (s\<lparr>sys_prod := PLoaded x (q_head (sys_queue s))\<rparr>)"
| call_pop: "sys_cons s = CIdle \<Longrightarrow> spsc_step s (s\<lparr>sys_cons := CLoaded (q_tail (sys_queue s))\<rparr>)"
| producer: "producer_next s = Some s' \<Longrightarrow> spsc_step s s'"
| consumer: "consumer_next s = Some s' \<Longrightarrow> spsc_step s s'"

inductive spsc_reach :: "nat \<Rightarrow> 'a \<Rightarrow> 'a spsc_sys \<Rightarrow> bool" for cap blank where
  spsc_init: "spsc_reach cap blank (spsc_start cap blank)"
| spsc_more: "spsc_reach cap blank s \<Longrightarrow> spsc_step s s' \<Longrightarrow> spsc_reach cap blank s'"

inductive_cases spsc_stepE: "spsc_step s s'"

section \<open>The invariant of the interleaving\<close>

definition prod_ok :: "'a spsc_sys \<Rightarrow> bool" where
  "prod_ok s \<longleftrightarrow>
     (let q = sys_queue s; P = length (sys_sent s); C = length (sys_received s) in
      case sys_prod s of
        PIdle \<Rightarrow> True
      | PLoaded x h \<Rightarrow> h = q_head q
      | PReload x h \<Rightarrow> h = q_head q
      | PStore x h \<Rightarrow> h = q_head q \<and> (\<exists>ct \<le> C. Suc P - ct < q_capacity q \<and> q_cached_tail q = ct mod q_capacity q)
      | PPublish x h \<Rightarrow> h = q_head q \<and> (\<exists>ct \<le> C. Suc P - ct < q_capacity q \<and> q_cached_tail q = ct mod q_capacity q) \<and>
          q_slots q ! h = x)"

definition cons_ok :: "'a spsc_sys \<Rightarrow> bool" where
  "cons_ok s \<longleftrightarrow>
     (let q = sys_queue s; P = length (sys_sent s); C = length (sys_received s) in
      case sys_cons s of
        CIdle \<Rightarrow> True
      | CLoaded t \<Rightarrow> t = q_tail q
      | CReload t \<Rightarrow> t = q_tail q
      | CFetch t \<Rightarrow> t = q_tail q \<and> (\<exists>ch > C. ch \<le> P \<and> q_cached_head q = ch mod q_capacity q)
      | CPublish t y \<Rightarrow> t = q_tail q \<and> (\<exists>ch > C. ch \<le> P \<and> q_cached_head q = ch mod q_capacity q) \<and> y = sys_sent s ! C)"

lemma pc_frame [simp]: "prod_ok (s\<lparr>sys_cons := c\<rparr>) = prod_ok s" "cons_ok (s\<lparr>sys_prod := p\<rparr>) = cons_ok s"
  by (simp_all add: prod_ok_def cons_ok_def Let_def split: producer_pc.split consumer_pc.split)

definition sys_inv :: "nat \<Rightarrow> 'a spsc_sys \<Rightarrow> bool" where
  "sys_inv cap s \<longleftrightarrow>
     q_capacity (sys_queue s) = cap \<and> ring (length (sys_sent s)) (length (sys_received s)) (sys_queue s) \<and>
     sys_sent s = sys_received s @ items (sys_queue s) \<and> prod_ok s \<and> cons_ok s"

lemma sys_invI:
  assumes "sys_queue s = q" "length (sys_sent s) = P" "length (sys_received s) = C" "ring P C q" "q_capacity q = cap"
    "sys_sent s = sys_received s @ items q" "prod_ok s" "cons_ok s"
  shows "sys_inv cap s"
  unfolding sys_inv_def assms(1-3) using assms(4-8) by blast

lemma sys_invD:
  assumes "sys_inv cap s"
  shows "q_capacity (sys_queue s) = cap" "ring (length (sys_sent s)) (length (sys_received s)) (sys_queue s)"
    "sys_sent s = sys_received s @ items (sys_queue s)" "prod_ok s" "cons_ok s"
  by (rule assms [unfolded sys_inv_def, THEN conjunct1]
      assms [unfolded sys_inv_def, THEN conjunct2, THEN conjunct1]
      assms [unfolded sys_inv_def, THEN conjunct2, THEN conjunct2, THEN conjunct1]
      assms [unfolded sys_inv_def, THEN conjunct2, THEN conjunct2, THEN conjunct2, THEN conjunct1]
      assms [unfolded sys_inv_def, THEN conjunct2, THEN conjunct2, THEN conjunct2, THEN conjunct2])+

lemma sys_inv_start: "sys_inv (2 ^ k) (spsc_start (2 ^ k) blank)"
  using spsc_new_ring [of k blank] spsc_new_inv(2) [of k blank]
  by (simp add: sys_inv_def spsc_start_def prod_ok_def cons_ok_def) (simp add: spsc_new_def q_capacity_def)

lemma ring_stale_tail:
  assumes "ring P C q" "next_index q (q_head q) \<noteq> q_cached_tail q"
  shows "\<exists>ct \<le> C. Suc P - ct < q_capacity q \<and> q_cached_tail q = ct mod q_capacity q"
proof -
  let ?c = "q_capacity q"
  obtain c0 where c0: "c0 \<le> C" "P - c0 < ?c" "q_cached_tail q = c0 mod ?c" using assms by (auto simp: ring_def)
  have "next_index q (q_head q) = Suc P mod ?c" using assms by (simp add: ring_cap(2) [OF assms(1)] mod_Suc_eq ring_def)
  then have "Suc P mod ?c \<noteq> c0 mod ?c" using assms(2) c0 by simp
  moreover have "C \<le> P" using assms by (simp add: ring_def)
  then have "Suc (P - c0) = ?c \<Longrightarrow> Suc P = c0 + ?c" "c0 \<le> P" using c0(1) by auto
  ultimately have "Suc (P - c0) \<noteq> ?c" by auto
  then have "Suc P - c0 < ?c" using c0(2) \<open>c0 \<le> P\<close> by (simp add: Suc_diff_le)
  with c0 show ?thesis by blast
qed

lemma ring_stale_head:
  assumes "ring P C q" "q_tail q \<noteq> q_cached_head q"
  shows "\<exists>ch > C. ch \<le> P \<and> q_cached_head q = ch mod q_capacity q"
proof -
  obtain c0 where c0: "C \<le> c0" "c0 \<le> P" "q_cached_head q = c0 mod q_capacity q" using assms by (auto simp: ring_def)
  then have "c0 \<noteq> C" using assms by (auto simp: ring_def)
  then show ?thesis using c0 by (intro exI [of _ c0]) auto
qed

lemma ring_reload:
  assumes "ring P C q"
  shows "ring P C (q\<lparr>q_cached_tail := q_tail q\<rparr>)" "ring P C (q\<lparr>q_cached_head := q_head q\<rparr>)"
    "items (q\<lparr>q_cached_tail := a\<rparr>) = items q" "items (q\<lparr>q_cached_head := a\<rparr>) = items q"
  using assms by (auto simp: ring_def items_def)

lemma ring_slots [simp]: "ring P C (q\<lparr>q_slots := (q_slots q)[j := x]\<rparr>) = ring P C q"
  by (simp add: ring_def)

lemma room:
  assumes "ring P C q" "\<exists>ct \<le> C. Suc P - ct < q_capacity q \<and> q_cached_tail q = ct mod q_capacity q"
  shows "Suc (P - C) < q_capacity q"
  using assms by (auto simp: ring_def)

lemma items_store:
  assumes "ring P C q" "Suc (P - C) < q_capacity q"
  shows "items (q\<lparr>q_slots := (q_slots q)[q_head q := x]\<rparr>) = items q"
    "(q_slots q)[q_head q := x] ! q_head q = x"
proof -
  let ?c = "q_capacity q"
  have c: "0 < ?c" "C \<le> P" "length (q_slots q) = ?c" "q_head q = P mod ?c"
    using assms by (auto simp: ring_def q_capacity_def)
  have "(q_slots q)[P mod ?c := x] ! (k mod ?c) = q_slots q ! (k mod ?c)" if "C \<le> k" "k < P" for k
  proof -
    have "k < P + ?c" "P < k + ?c" using that assms(2) by auto
    then have "P mod ?c \<noteq> k mod ?c" using slot_same [of P k ?c] that by simp
    then show ?thesis by simp
  qed
  then show "items (q\<lparr>q_slots := (q_slots q)[q_head q := x]\<rparr>) = items q"
    using assms(1) unfolding ring_items [OF assms(1)] ring_items [OF ring_slots [THEN iffD2, OF assms(1)]]
    by (intro map_cong) (simp_all add: c(4))
  show "(q_slots q)[q_head q := x] ! q_head q = x" using c by simp
qed

lemma publish_head:
  assumes "ring P C q" "\<exists>ct \<le> C. Suc P - ct < q_capacity q \<and> q_cached_tail q = ct mod q_capacity q"
  shows "ring (Suc P) C (q\<lparr>q_head := next_index q (q_head q)\<rparr>)"
    and "items (q\<lparr>q_head := next_index q (q_head q)\<rparr>) = items q @ [q_slots q ! q_head q]"
proof -
  let ?q = "q\<lparr>q_head := next_index q (q_head q)\<rparr>"
  have r: "ring P C q" and nx: "next_index q (q_head q) = Suc P mod q_capacity q" and h: "q_head q = P mod q_capacity q" "C \<le> P"
    using assms(1) by (auto simp: ring_cap(2) [OF assms(1)] ring_def mod_Suc_eq)
  show r': "ring (Suc P) C ?q"
    using assms room [OF assms] unfolding ring_def nx by (auto simp: Suc_diff_le intro: le_SucI)
  show "items ?q = items q @ [q_slots q ! q_head q]"
    using h unfolding ring_items [OF r'] ring_items [OF r] by simp
qed

lemma publish_tail:
  assumes "ring P C q" "\<exists>ch > C. ch \<le> P \<and> q_cached_head q = ch mod q_capacity q"
  shows "ring P (Suc C) (q\<lparr>q_tail := next_index q (q_tail q)\<rparr>)"
    and "items q = q_slots q ! q_tail q # items (q\<lparr>q_tail := next_index q (q_tail q)\<rparr>)"
proof -
  let ?q = "q\<lparr>q_tail := next_index q (q_tail q)\<rparr>"
  have r: "ring P C q" and nx: "next_index q (q_tail q) = Suc C mod q_capacity q" and h: "q_tail q = C mod q_capacity q" "C < P"
    using assms by (auto simp: ring_cap(2) [OF assms(1)] ring_def mod_Suc_eq)
  show r': "ring P (Suc C) ?q"
    using assms unfolding ring_def nx by (auto intro: le_SucI) (metis Suc_leI)
  show "items q = q_slots q ! q_tail q # items ?q"
    using h unfolding ring_items [OF r'] ring_items [OF r] by (simp add: upt_conv_Cons)
qed

lemma producer_step_inv:
  assumes inv: "sys_inv cap s" and st: "producer_next s = Some s'"
  shows "sys_inv cap s'"
proof -
  define q P C where "q = sys_queue s" and "P = length (sys_sent s)" and "C = length (sys_received s)"
  have r: "ring P C q" and cap: "q_capacity q = cap" and eq: "sys_sent s = sys_received s @ items q"
    and pok: "prod_ok s" and cok: "cons_ok s"
    using inv by (auto simp: sys_inv_def q_def P_def C_def)
  note d = q_def [symmetric] P_def [symmetric] C_def [symmetric]
  have same_log: "sys_inv cap s'" if "sys_queue s' = q" "sys_sent s' = sys_sent s" "sys_received s' = sys_received s"
    "prod_ok s'" "cons_ok s'"
  proof (rule sys_invI [of s' q P C])
    show "length (sys_sent s') = P" "length (sys_received s') = C" by (simp_all add: that P_def C_def)
    show "sys_sent s' = sys_received s' @ items q" using that(2,3) eq by simp
  qed (rule that r cap)+
  show ?thesis
  proof (cases "sys_prod s")
    case PIdle
    then show ?thesis using st by simp
  next
    case (PLoaded x h)
    then have "h = q_head q" using pok by (simp add: prod_ok_def d)
    then have "prod_ok s'"
      using st PLoaded ring_stale_tail [OF r] by (auto simp: prod_ok_def d Let_def)
    moreover have "cons_ok s'" "sys_queue s' = q" "sys_sent s' = sys_sent s" "sys_received s' = sys_received s"
      using st PLoaded cok by (auto simp: d Let_def)
    ultimately show ?thesis by (intro same_log) simp_all
  next
    case (PReload x h)
    let ?q1 = "q\<lparr>q_cached_tail := q_tail q\<rparr>"
    have h: "h = q_head q" using PReload pok by (simp add: prod_ok_def d)
    have s': "s' = (if next_index q h = q_tail q then s\<lparr>sys_queue := ?q1, sys_prod := PIdle\<rparr>
        else s\<lparr>sys_queue := ?q1, sys_prod := PStore x h\<rparr>)" using st PReload by (auto simp: d Let_def)
    have c1: "cons_ok (s\<lparr>sys_queue := ?q1, sys_prod := p\<rparr>)" for p
      using cok by (simp add: cons_ok_def d split: consumer_pc.splits)
    have "prod_ok s'" using s' h ring_stale_tail [OF ring_reload(1) [OF r]] by (auto simp: prod_ok_def d)
    moreover have "cons_ok s'" using c1 by (simp add: s')
    moreover have "sys_queue s' = ?q1" "sys_sent s' = sys_sent s" "sys_received s' = sys_received s" by (simp_all add: s')
    ultimately show ?thesis using ring_reload [OF r] cap eq by (intro sys_invI [of s' ?q1 P C]) (simp_all add: P_def C_def)
  next
    case (PStore x h)
    then have h: "h = q_head q" and ct: "\<exists>ct \<le> C. Suc P - ct < q_capacity q \<and> q_cached_tail q = ct mod q_capacity q"
      using pok by (simp_all add: prod_ok_def d)
    let ?q1 = "q\<lparr>q_slots := (q_slots q)[q_head q := x]\<rparr>"
    have s': "s' = s\<lparr>sys_queue := ?q1, sys_prod := PPublish x h\<rparr>" using st PStore by (simp add: d h)
    have c1: "cons_ok (s\<lparr>sys_queue := ?q1, sys_prod := p\<rparr>)" for p
      using cok by (simp add: cons_ok_def d split: consumer_pc.splits)
    have "prod_ok s'" using s' h ct items_store(2) [OF r room [OF r ct], of x] by (simp add: prod_ok_def d)
    moreover have "cons_ok s'" using c1 by (simp add: s')
    moreover have "sys_queue s' = ?q1" "sys_sent s' = sys_sent s" "sys_received s' = sys_received s" by (simp_all add: s')
    ultimately show ?thesis using items_store(1) [OF r room [OF r ct], of x] r cap eq
      by (intro sys_invI [of s' ?q1 P C]) (simp_all add: P_def C_def)
  next
    case (PPublish x h)
    then have h: "h = q_head q" and ct: "\<exists>ct \<le> C. Suc P - ct < q_capacity q \<and> q_cached_tail q = ct mod q_capacity q"
      and x: "q_slots q ! q_head q = x" using pok by (auto simp: prod_ok_def d)
    let ?q1 = "q\<lparr>q_head := next_index q (q_head q)\<rparr>"
    have s': "s' = s\<lparr>sys_queue := ?q1, sys_prod := PIdle, sys_sent := sys_sent s @ [x]\<rparr>" using st PPublish by (simp add: d h)
    have c1: "cons_ok s'"
      using cok by (auto simp: s' cons_ok_def d nth_append split: consumer_pc.splits intro: le_SucI)
    show ?thesis
    proof (rule sys_invI [of s' ?q1 "Suc P" C])
      show "sys_queue s' = ?q1" "length (sys_sent s') = Suc P" "length (sys_received s') = C" by (simp_all add: s' P_def C_def)
      show "sys_sent s' = sys_received s' @ items ?q1" using eq publish_head(2) [OF r ct] x by (simp add: s')
      show "prod_ok s'" by (simp add: s' prod_ok_def)
    qed (use c1 publish_head(1) [OF r ct] cap in simp_all)
  qed
qed

lemma consumer_step_inv:
  assumes inv: "sys_inv cap s" and st: "consumer_next s = Some s'"
  shows "sys_inv cap s'"
proof -
  define q P C where "q = sys_queue s" and "P = length (sys_sent s)" and "C = length (sys_received s)"
  have r: "ring P C q" and cap: "q_capacity q = cap" and eq: "sys_sent s = sys_received s @ items q"
    and pok: "prod_ok s" and cok: "cons_ok s"
    using inv by (auto simp: sys_inv_def q_def P_def C_def)
  note d = q_def [symmetric] P_def [symmetric] C_def [symmetric]
  have same_log: "sys_inv cap s'" if "sys_queue s' = q" "sys_sent s' = sys_sent s" "sys_received s' = sys_received s"
    "prod_ok s'" "cons_ok s'"
  proof (rule sys_invI [of s' q P C])
    show "length (sys_sent s') = P" "length (sys_received s') = C" by (simp_all add: that P_def C_def)
    show "sys_sent s' = sys_received s' @ items q" using that(2,3) eq by simp
  qed (rule that r cap)+
  show ?thesis
  proof (cases "sys_cons s")
    case CIdle
    then show ?thesis using st by simp
  next
    case (CLoaded t)
    then have "t = q_tail q" using cok by (simp add: cons_ok_def d)
    then have "cons_ok s'"
      using st CLoaded ring_stale_head [OF r] by (auto simp: cons_ok_def d Let_def)
    moreover have "prod_ok s'" using st CLoaded pok by (auto simp: Let_def)
    moreover have "sys_queue s' = q" "sys_sent s' = sys_sent s" "sys_received s' = sys_received s"
      using st CLoaded by (auto simp: d)
    ultimately show ?thesis by (intro same_log) simp_all
  next
    case (CReload t)
    let ?q1 = "q\<lparr>q_cached_head := q_head q\<rparr>"
    have t: "t = q_tail q" using CReload cok by (simp add: cons_ok_def d)
    have s': "s' = (if t = q_head q then s\<lparr>sys_queue := ?q1, sys_cons := CIdle\<rparr>
        else s\<lparr>sys_queue := ?q1, sys_cons := CFetch t\<rparr>)" using st CReload by (auto simp: d Let_def)
    have p1: "prod_ok (s\<lparr>sys_queue := ?q1, sys_cons := p\<rparr>)" for p
      using pok by (simp add: prod_ok_def d split: producer_pc.splits)
    have "cons_ok s'" using s' t ring_stale_head [OF ring_reload(2) [OF r]] by (auto simp: cons_ok_def d)
    moreover have "prod_ok s'" using p1 by (simp add: s')
    moreover have "sys_queue s' = ?q1" "sys_sent s' = sys_sent s" "sys_received s' = sys_received s" by (simp_all add: s')
    ultimately show ?thesis using ring_reload [OF r] cap eq by (intro sys_invI [of s' ?q1 P C]) (simp_all add: P_def C_def)
  next
    case (CFetch t)
    then have t: "t = q_tail q" and ch: "\<exists>ch > C. ch \<le> P \<and> q_cached_head q = ch mod q_capacity q"
      using cok by (simp_all add: cons_ok_def d)
    have s': "s' = s\<lparr>sys_cons := CPublish t (q_slots q ! t)\<rparr>" using st CFetch by (simp add: d)
    have "sys_sent s ! C = q_slots q ! t" using publish_tail(2) [OF r ch] by (simp add: eq C_def nth_append t)
    then have "cons_ok s'" using s' t ch by (simp add: cons_ok_def d)
    moreover have "prod_ok s'" using pok by (simp add: prod_ok_def s')
    moreover have "sys_queue s' = q" "sys_sent s' = sys_sent s" "sys_received s' = sys_received s" by (simp_all add: s' d)
    ultimately show ?thesis by (intro same_log) simp_all
  next
    case (CPublish t y)
    then have t: "t = q_tail q" and ch: "\<exists>ch > C. ch \<le> P \<and> q_cached_head q = ch mod q_capacity q"
      and y: "y = sys_sent s ! C" using cok by (simp_all add: cons_ok_def d)
    let ?q1 = "q\<lparr>q_tail := next_index q (q_tail q)\<rparr>"
    have s': "s' = s\<lparr>sys_queue := ?q1, sys_cons := CIdle, sys_received := sys_received s @ [y]\<rparr>"
      using st CPublish by (simp add: d t)
    have p1: "prod_ok s'"
      using pok by (auto simp: s' prod_ok_def d split: producer_pc.splits intro: le_SucI)
    have y': "y = q_slots q ! q_tail q" using publish_tail(2) [OF r ch] y by (simp add: eq C_def nth_append)
    show ?thesis
    proof (rule sys_invI [of s' ?q1 P "Suc C"])
      show "sys_queue s' = ?q1" "length (sys_sent s') = P" "length (sys_received s') = Suc C" by (simp_all add: s' P_def C_def)
      show "sys_sent s' = sys_received s' @ items ?q1" using eq publish_tail(2) [OF r ch] y' by (simp add: s')
      show "cons_ok s'" by (simp add: s' cons_ok_def)
    qed (use p1 publish_tail(1) [OF r ch] cap in simp_all)
  qed
qed

lemma sys_inv_pc:
  assumes "sys_inv cap s" "sys_queue s' = sys_queue s" "sys_sent s' = sys_sent s" "sys_received s' = sys_received s"
    "prod_ok s'" "cons_ok s'"
  shows "sys_inv cap s'"
proof (rule sys_invI [of s' "sys_queue s" "length (sys_sent s)" "length (sys_received s)"])
  show "sys_sent s' = sys_received s' @ items (sys_queue s)" unfolding assms(3,4) by (rule sys_invD [OF assms(1)])
qed (simp_all only: assms sys_invD(1,2) [OF assms(1)])

lemma call_inv:
  assumes "sys_inv cap s"
  shows "sys_inv cap (s\<lparr>sys_prod := PLoaded x (q_head (sys_queue s))\<rparr>)"
    "sys_inv cap (s\<lparr>sys_cons := CLoaded (q_tail (sys_queue s))\<rparr>)"
proof -
  have "prod_ok s" "cons_ok s" by (rule sys_invD [OF assms])+
  then show "sys_inv cap (s\<lparr>sys_prod := PLoaded x (q_head (sys_queue s))\<rparr>)"
    by (intro sys_inv_pc [OF assms]) (simp_all add: prod_ok_def [of "sys_prod_update f s" for f])
  show "sys_inv cap (s\<lparr>sys_cons := CLoaded (q_tail (sys_queue s))\<rparr>)"
    using \<open>prod_ok s\<close> by (intro sys_inv_pc [OF assms]) (simp_all add: cons_ok_def [of "sys_cons_update f s" for f])
qed

lemma sys_inv_step: "spsc_step s s' \<Longrightarrow> sys_inv cap s \<Longrightarrow> sys_inv cap s'"
  by (erule spsc_stepE) (auto intro: call_inv producer_step_inv consumer_step_inv)

lemma spsc_reach_inv: "spsc_reach (2 ^ k) blank s \<Longrightarrow> sys_inv (2 ^ k) s"
  by (induction rule: spsc_reach.induct) (auto intro: sys_inv_start sys_inv_step)

section \<open>What holds in every interleaving\<close>

definition producer_run :: "'a spsc_sys \<Rightarrow> 'a spsc_sys" where
  "producer_run s = (case producer_next s of Some s' \<Rightarrow> s' | None \<Rightarrow> s)"

definition demo_sys :: "nat spsc_sys" where
  "demo_sys = producer_run (producer_run (producer_run ((spsc_start (2 ^ 2) 0)\<lparr>sys_prod := PLoaded 7 0\<rparr>)))"

lemma producer_run_reach: "spsc_reach cap blank s \<Longrightarrow> spsc_reach cap blank (producer_run s)"
  by (auto simp: producer_run_def simp del: producer_next.simps split: option.split intro: spsc_more producer)

lemma start_facts: "sys_prod (spsc_start n b) = PIdle" "sys_cons (spsc_start n b) = CIdle" "q_head (sys_queue (spsc_start n b)) = 0"
  by (simp_all add: spsc_start_def spsc_new_def)

lemma demo_sys_reach: "spsc_reach (2 ^ 2) 0 demo_sys"
  unfolding demo_sys_def
  by (intro producer_run_reach spsc_more [OF spsc_init] call_push [OF start_facts(1), of _ _ 7, unfolded start_facts])

text \<open>
  C7. However the two threads interleave, the consumer receives what the producer sent, in the same
  order, each item once: the received items and the items in the buffer are together exactly the
  sent ones, and at most capacity minus one items are in flight.
\<close>

theorem spsc_fifo:
  assumes "spsc_reach (2 ^ k) blank s"
  shows "sys_sent s = sys_received s @ items (sys_queue s) \<and> length (items (sys_queue s)) < 2 ^ k"
proof -
  note inv = sys_invD [OF spsc_reach_inv [OF assms]]
  have "length (items (sys_queue s)) = length (sys_sent s) - length (sys_received s)" by (rule items_length [OF inv(2)])
  then show ?thesis using inv(1-3) by (simp add: ring_def)
qed

theorem spsc_fifo_witness: "sys_sent demo_sys = [7] \<and> sys_sent demo_sys = sys_received demo_sys @ items (sys_queue demo_sys)"
proof -
  have "sys_sent demo_sys = [7]" by code_simp
  then show ?thesis using spsc_fifo [OF demo_sys_reach] by blast
qed

text \<open>
  C18. The two threads never touch the same slot at the same time: when the producer is about to write
  a slot and the consumer is about to read one, the slots differ and both are inside the array.
\<close>

theorem spsc_no_slot_race:
  assumes "spsc_reach (2 ^ k) blank s" "sys_prod s = PStore x h" "sys_cons s = CFetch t"
  shows "h \<noteq> t \<and> h < length (q_slots (sys_queue s)) \<and> t < length (q_slots (sys_queue s))"
proof -
  note inv = sys_invD [OF spsc_reach_inv [OF assms(1)]]
  let ?P = "length (sys_sent s)" and ?C = "length (sys_received s)" and ?q = "sys_queue s"
  have h: "h = q_head ?q" "\<exists>ct \<le> ?C. Suc ?P - ct < q_capacity ?q \<and> q_cached_tail ?q = ct mod q_capacity ?q"
    and t: "t = q_tail ?q" "\<exists>ch > ?C. ch \<le> ?P \<and> q_cached_head ?q = ch mod q_capacity ?q"
    using inv(4,5) assms(2,3) by (simp_all add: prod_ok_def cons_ok_def Let_def)
  have m: "q_head ?q = ?P mod q_capacity ?q" "q_tail ?q = ?C mod q_capacity ?q" "0 < q_capacity ?q"
    using inv(2) ring_cap(1) [OF inv(2)] by (auto simp: ring_def)
  have "?C < ?P" using t(2) by auto
  moreover have "Suc (?P - ?C) < q_capacity ?q" by (rule room [OF inv(2) h(2)])
  ultimately have "?P mod q_capacity ?q \<noteq> ?C mod q_capacity ?q" by (intro slot_same) auto
  then show ?thesis using h(1) t(1) m by (simp add: q_capacity_def)
qed

definition race_sys :: "nat spsc_sys" where
  "race_sys = (let s = producer_run (demo_sys\<lparr>sys_prod := PLoaded 8 1\<rparr>); s1 = s\<lparr>sys_cons := CLoaded 0\<rparr>
     in the (consumer_next (the (consumer_next s1))))"

lemma race_sys_reach: "spsc_reach (2 ^ 2) 0 race_sys"
proof -
  have q: "q_head (sys_queue demo_sys) = 1" "sys_prod demo_sys = PIdle" by code_simp+
  have "spsc_step demo_sys (demo_sys\<lparr>sys_prod := PLoaded 8 1\<rparr>)" using call_push [of demo_sys 8] q by simp
  then have 1: "spsc_reach (2 ^ 2) 0 (producer_run (demo_sys\<lparr>sys_prod := PLoaded 8 1\<rparr>))"
    by (intro producer_run_reach spsc_more [OF demo_sys_reach])
  let ?s = "producer_run (demo_sys\<lparr>sys_prod := PLoaded 8 1\<rparr>)"
  have "q_tail (sys_queue ?s) = 0" "sys_cons ?s = CIdle" by code_simp+
  then have "spsc_step ?s (?s\<lparr>sys_cons := CLoaded 0\<rparr>)" using call_pop [of ?s] by simp
  then have 2: "spsc_reach (2 ^ 2) 0 (?s\<lparr>sys_cons := CLoaded 0\<rparr>)" by (rule spsc_more [OF 1])
  let ?s1 = "?s\<lparr>sys_cons := CLoaded 0\<rparr>"
  have n1: "consumer_next ?s1 = Some (the (consumer_next ?s1))" by code_simp
  have n2: "consumer_next (the (consumer_next ?s1)) = Some (the (consumer_next (the (consumer_next ?s1))))" by code_simp
  have 3: "spsc_reach (2 ^ 2) 0 (the (consumer_next ?s1))" by (rule spsc_more [OF 2 consumer [OF n1]])
  have "spsc_reach (2 ^ 2) 0 (the (consumer_next (the (consumer_next ?s1))))" by (rule spsc_more [OF 3 consumer [OF n2]])
  then show ?thesis by (simp only: race_sys_def Let_def)
qed

theorem spsc_no_slot_race_witness:
  "sys_prod race_sys = PStore 8 1 \<and> sys_cons race_sys = CFetch 0 \<and> (1 :: nat) \<noteq> 0 \<and> 1 < length (q_slots (sys_queue race_sys))"
proof -
  have "sys_prod race_sys = PStore 8 1" "sys_cons race_sys = CFetch 0" by code_simp+
  then show ?thesis using spsc_no_slot_race [OF race_sys_reach] by blast
qed

text \<open>
  A queue of four slots after three pushes, with a fourth about to read the other index again, and
  an empty one with a pop at the same point.
\<close>

definition pushed :: "nat \<Rightarrow> nat spsc_sys \<Rightarrow> nat spsc_sys" where
  "pushed x s = producer_run (producer_run (producer_run (s\<lparr>sys_prod := PLoaded x (q_head (sys_queue s))\<rparr>)))"

lemma pushed_reach: "spsc_reach (2 ^ 2) 0 s \<Longrightarrow> sys_prod s = PIdle \<Longrightarrow> spsc_reach (2 ^ 2) 0 (pushed x s)"
  unfolding pushed_def by (intro producer_run_reach) (auto intro: spsc_more call_push)

definition full_sys :: "nat spsc_sys" where
  "full_sys = (let s = pushed 9 (pushed 8 demo_sys) in producer_run (s\<lparr>sys_prod := PLoaded 5 (q_head (sys_queue s))\<rparr>))"

lemma full_sys_reach: "spsc_reach (2 ^ 2) 0 full_sys"
proof -
  have i: "sys_prod demo_sys = PIdle" "sys_prod (pushed 8 demo_sys) = PIdle" "sys_prod (pushed 9 (pushed 8 demo_sys)) = PIdle" by code_simp+
  have "spsc_reach (2 ^ 2) 0 (pushed 9 (pushed 8 demo_sys))" by (intro pushed_reach demo_sys_reach i)
  then show ?thesis unfolding full_sys_def Let_def by (intro producer_run_reach) (rule spsc_more [OF _ call_push [OF i(3)]])
qed

definition poll_sys :: "nat spsc_sys" where
  "poll_sys = the (consumer_next ((spsc_start (2 ^ 2) 0)\<lparr>sys_cons := CLoaded 0\<rparr>))"

lemma poll_sys_reach: "spsc_reach (2 ^ 2) 0 poll_sys"
proof -
  have "sys_cons (spsc_start (2 ^ 2) (0 :: nat)) = CIdle" "q_tail (sys_queue (spsc_start (2 ^ 2) (0 :: nat))) = 0" by code_simp+
  then have "spsc_step (spsc_start (2 ^ 2) (0 :: nat)) ((spsc_start (2 ^ 2) 0)\<lparr>sys_cons := CLoaded 0\<rparr>)"
    using call_pop [of "spsc_start (2 ^ 2) (0 :: nat)"] by simp
  then have 1: "spsc_reach (2 ^ 2) (0 :: nat) ((spsc_start (2 ^ 2) 0)\<lparr>sys_cons := CLoaded 0\<rparr>)" by (rule spsc_more [OF spsc_init])
  have "consumer_next ((spsc_start (2 ^ 2) 0)\<lparr>sys_cons := CLoaded 0\<rparr>) = Some poll_sys" unfolding poll_sys_def by code_simp
  then show ?thesis by (rule spsc_more [OF 1 consumer])
qed

text \<open>
  C19. A refused push means the queue was full, and an empty-handed pop that it was empty, at the
  moment the thread read the other index; a stale copy of that index is never the reason.
\<close>

theorem spsc_refusals_exact:
  assumes "spsc_reach (2 ^ k) blank s"
  shows "(\<forall>x h s'. sys_prod s = PReload x h \<longrightarrow> producer_next s = Some s' \<longrightarrow>
      (sys_prod s' = PIdle \<longleftrightarrow> length (items (sys_queue s)) = 2 ^ k - 1)) \<and>
    (\<forall>t s'. sys_cons s = CReload t \<longrightarrow> consumer_next s = Some s' \<longrightarrow>
      (sys_cons s' = CIdle \<longleftrightarrow> items (sys_queue s) = []))"
proof -
  note inv = sys_invD [OF spsc_reach_inv [OF assms]]
  let ?P = "length (sys_sent s)" and ?C = "length (sys_received s)" and ?q = "sys_queue s"
  have len: "length (items ?q) = ?P - ?C" by (rule items_length [OF inv(2)])
  have le: "?C \<le> ?P" "?P - ?C < 2 ^ k" using inv(1,2) by (auto simp: ring_def)
  have full: "next_index ?q (q_head ?q) = q_tail ?q \<longleftrightarrow> length (items ?q) = 2 ^ k - 1"
    using ring_full [OF inv(2)] inv(1) len le by auto
  have empty: "q_tail ?q = q_head ?q \<longleftrightarrow> items ?q = []"
    using ring_empty [OF inv(2)] len le by (metis diff_is_0_eq' diffs0_imp_equal le_refl length_0_conv)
  have "sys_prod s' = PIdle \<longleftrightarrow> length (items ?q) = 2 ^ k - 1" if "sys_prod s = PReload x h" "producer_next s = Some s'" for x h s'
  proof -
    have "h = q_head ?q" using inv(4) that(1) by (simp add: prod_ok_def Let_def)
    then show ?thesis using that full by (auto simp: Let_def split: if_splits)
  qed
  moreover have "sys_cons s' = CIdle \<longleftrightarrow> items ?q = []" if "sys_cons s = CReload t" "consumer_next s = Some s'" for t s'
  proof -
    have "t = q_tail ?q" using inv(5) that(1) by (simp add: cons_ok_def Let_def)
    then show ?thesis using that empty by (auto simp: Let_def split: if_splits)
  qed
  ultimately show ?thesis by blast
qed

theorem spsc_refusals_exact_witness:
  "(sys_prod full_sys = PReload 5 3 \<and> length (items (sys_queue full_sys)) = 3 \<and>
      (\<exists>s'. producer_next full_sys = Some s' \<and> sys_prod s' = PIdle)) \<and>
   (sys_cons poll_sys = CReload 0 \<and> items (sys_queue poll_sys) = [] \<and>
      (\<exists>s'. consumer_next poll_sys = Some s' \<and> sys_cons s' = CIdle))"
proof -
  have f: "sys_prod full_sys = PReload 5 3" "length (items (sys_queue full_sys)) = 3"
    "producer_next full_sys = Some (the (producer_next full_sys))" by code_simp+
  have p: "sys_cons poll_sys = CReload 0" "items (sys_queue poll_sys) = []"
    "consumer_next poll_sys = Some (the (consumer_next poll_sys))" by code_simp+
  have "sys_prod (the (producer_next full_sys)) = PIdle"
    using spsc_refusals_exact [OF full_sys_reach] f by (auto simp del: producer_next.simps)
  moreover have "sys_cons (the (consumer_next poll_sys)) = CIdle"
    using spsc_refusals_exact [OF poll_sys_reach] p by (auto simp del: consumer_next.simps)
  ultimately show ?thesis using f p by blast
qed

fun producer_rank :: "'a producer_pc \<Rightarrow> nat" where
  "producer_rank PIdle = 0"
| "producer_rank (PLoaded x h) = 4"
| "producer_rank (PReload x h) = 3"
| "producer_rank (PStore x h) = 2"
| "producer_rank (PPublish x h) = 1"

fun consumer_rank :: "'a consumer_pc \<Rightarrow> nat" where
  "consumer_rank CIdle = 0"
| "consumer_rank (CLoaded t) = 4"
| "consumer_rank (CReload t) = 3"
| "consumer_rank (CFetch t) = 2"
| "consumer_rank (CPublish t y) = 1"

text \<open>
  Both operations are wait-free: a call in progress always has a next step, every step of its own
  thread brings it strictly closer to its return, at most four steps away, and no step of the other
  thread sets it back.
\<close>

theorem spsc_wait_free:
  "(sys_prod s \<noteq> PIdle \<longrightarrow> (\<exists>s'. producer_next s = Some s' \<and> producer_rank (sys_prod s') < producer_rank (sys_prod s) \<and>
      sys_cons s' = sys_cons s)) \<and>
   (sys_cons s \<noteq> CIdle \<longrightarrow> (\<exists>s'. consumer_next s = Some s' \<and> consumer_rank (sys_cons s') < consumer_rank (sys_cons s) \<and>
      sys_prod s' = sys_prod s)) \<and>
   producer_rank (sys_prod s) \<le> 4 \<and> consumer_rank (sys_cons s) \<le> 4"
  by (cases "sys_prod s"; cases "sys_cons s") (simp_all add: Let_def)

theorem spsc_wait_free_witness: "\<exists>s'. producer_next (demo_sys\<lparr>sys_prod := PLoaded 9 1\<rparr>) = Some s'"
  using spsc_wait_free [of "demo_sys\<lparr>sys_prod := PLoaded 9 1\<rparr>"] by auto

end
