(* ===== verification/Matching_Engine.thy ===== *)
theory Matching_Engine
  imports Order_Book Spsc_Queue
begin

text \<open>
  The matching engine of \<^verbatim>\<open>include/engine/matching_engine.hpp\<close> and
  \<^verbatim>\<open>src/engine/matching_engine.cpp\<close>: the books it owns and the raw pointers it reaches them by,
  direct submission, the inbound queue, the processing loops and the runner.
\<close>

unbundle bit_operations_syntax

section \<open>State\<close>

datatype message_type = NewOrder | CancelOrder | ReplaceOrder

record inbound_message =
  m_type :: message_type
  m_order :: order
  m_order_id :: order_id
  m_symbol :: symbol
  m_new_price :: price
  m_new_qty :: quantity

record engine_config =
  ec_num_symbols :: nat
  ec_inbound_queue_size :: nat
  ec_outbound_queue_size :: nat
  ec_book_config :: book_config

definition default_engine_config :: engine_config where
  "default_engine_config =
     \<lparr>ec_num_symbols = 100, ec_inbound_queue_size = 65536, ec_outbound_queue_size = 65536,
      ec_book_config = default_config\<rparr>"

record engine_stats =
  st_orders_received :: "64 word"
  st_orders_matched :: "64 word"
  st_orders_cancelled :: "64 word"
  st_trades_executed :: "64 word"
  st_total_volume :: "64 word"
  st_messages_processed :: "64 word"

definition zero_stats :: engine_stats where
  "zero_stats =
     \<lparr>st_orders_received = 0, st_orders_matched = 0, st_orders_cancelled = 0,
      st_trades_executed = 0, st_total_volume = 0, st_messages_processed = 0\<rparr>"

text \<open>
  Books live on a heap: \<open>en_books\<close> owns them (\<^verbatim>\<open>books_\<close>), \<open>en_symbol_to_book\<close> holds the raw
  pointers the look-ups go through. Destroying a book removes its heap cell.
\<close>

type_synonym book_ptr = nat

record engine =
  en_config :: engine_config
  en_books :: "(symbol, book_ptr) omap"
  en_symbol_to_book :: "(symbol, book_ptr) omap"
  en_heap :: "book_ptr \<rightharpoonup> book"
  en_brk :: book_ptr
  en_queue :: "inbound_message spsc_queue"
  en_stats :: engine_stats
  en_running :: bool
  en_trade_callback :: "callback option"
  en_execution_callback :: "callback option"

text \<open>
  \<^verbatim>\<open>InboundMessage()\<close> sets the type and default-constructs the order and the symbol; the other
  members keep what the memory held, the argument \<open>mem\<close>.
\<close>

definition new_message :: "inbound_message \<Rightarrow> inbound_message" where
  "new_message mem = mem\<lparr>m_type := NewOrder, m_order := order_default, m_symbol := symbol_default\<rparr>"

definition INBOUND_CAPACITY :: nat where
  "INBOUND_CAPACITY = 2 ^ 16"

definition new_engine :: "inbound_message \<Rightarrow> engine_config \<Rightarrow> engine" where
  "new_engine mem cfg =
     \<lparr>en_config = cfg, en_books = [], en_symbol_to_book = [], en_heap = Map.empty, en_brk = 0,
      en_queue = spsc_new INBOUND_CAPACITY (new_message mem), en_stats = zero_stats, en_running = False,
      en_trade_callback = None, en_execution_callback = None\<rparr>"

section \<open>Symbols and callbacks\<close>

text \<open>
  The hash both maps use: FNV-1a over the eight bytes, each a signed \<^verbatim>\<open>char\<close> widened to 64 bits.
\<close>

definition symbol_hash :: "symbol \<Rightarrow> 64 word" where
  "symbol_hash s = fold (\<lambda>c h. (h XOR scast c) * 1099511628211) (take SYMBOL_SIZE (sym_data s)) 14695981039346656037"

definition add_symbol :: "(nat \<Rightarrow> timestamp) \<Rightarrow> symbol \<Rightarrow> engine \<Rightarrow> engine" where
  "add_symbol clock sy e =
     (let a = en_brk e;
          b0 = new_book sy (ec_book_config (en_config e)) clock;
          b1 = (case en_trade_callback e of Some cb \<Rightarrow> set_trade_callback (Some cb) b0 | None \<Rightarrow> b0);
          b2 = (case en_execution_callback e of Some cb \<Rightarrow> set_execution_callback (Some cb) b1 | None \<Rightarrow> b1);
          e1 = e\<lparr>en_heap := (en_heap e)(a \<mapsto> b2), en_brk := a + 1\<rparr>;
          e2 = e1\<lparr>en_symbol_to_book := om_put sy a (en_symbol_to_book e1)\<rparr>;
          e3 = (case map_of (en_books e2) sy of
                  Some old \<Rightarrow> e2\<lparr>en_heap := (en_heap e2)(old := None)\<rparr> | None \<Rightarrow> e2)
      in e3\<lparr>en_books := om_put sy a (en_books e3)\<rparr>)"

definition add_symbol_cstr :: "(nat \<Rightarrow> timestamp) \<Rightarrow> 8 word list \<Rightarrow> engine \<Rightarrow> engine" where
  "add_symbol_cstr clock s e = add_symbol clock (symbol_of_cstr s) e"

definition get_book :: "symbol \<Rightarrow> engine \<Rightarrow> book_ptr option" where
  "get_book sy e = map_of (en_symbol_to_book e) sy"

definition on_books :: "(book \<Rightarrow> book) \<Rightarrow> engine \<Rightarrow> engine" where
  "on_books f e =
     e\<lparr>en_heap := fold (\<lambda>(sy, a) h. case h a of Some b \<Rightarrow> h(a \<mapsto> f b) | None \<Rightarrow> h) (en_books e) (en_heap e)\<rparr>"

definition engine_set_trade_callback :: "callback option \<Rightarrow> engine \<Rightarrow> engine" where
  "engine_set_trade_callback cb e = on_books (set_trade_callback cb) (e\<lparr>en_trade_callback := cb\<rparr>)"

definition engine_set_execution_callback :: "callback option \<Rightarrow> engine \<Rightarrow> engine" where
  "engine_set_execution_callback cb e = on_books (set_execution_callback cb) (e\<lparr>en_execution_callback := cb\<rparr>)"

section \<open>Direct submission\<close>

text \<open>
  \<^const>\<open>None\<close> is a use of a dangling book pointer, or a book operation that does not return.
  \<open>junk\<close> is the uninitialised result of the early return.
\<close>

definition unknown_symbol :: "order_result \<Rightarrow> order_result" where
  "unknown_symbol junk = junk\<lparr>r_success := False, r_reject_reason := UnknownSymbol\<rparr>"

definition count_match :: "order_result \<Rightarrow> engine_stats \<Rightarrow> engine_stats" where
  "count_match r s =
     (if r_success r \<and> 0 < r_filled_qty r then
        s\<lparr>st_orders_matched := st_orders_matched s + 1,
          st_trades_executed := st_trades_executed s + (if 0 < r_filled_qty r then 1 else 0),
          st_total_volume := st_total_volume s + ucast (r_filled_qty r)\<rparr>
      else s)"

definition submit_order :: "order_result \<Rightarrow> order \<Rightarrow> engine \<Rightarrow> (engine \<times> order_result) option" where
  "submit_order junk ord e0 =
     (let s = en_stats e0; e = e0\<lparr>en_stats := s\<lparr>st_orders_received := st_orders_received s + 1\<rparr>\<rparr> in
      case get_book (o_symbol ord) e of
        None \<Rightarrow> Some (e, unknown_symbol junk)
      | Some a \<Rightarrow>
         (case en_heap e a of
            None \<Rightarrow> None
          | Some b \<Rightarrow>
              map_option (\<lambda>(b1, r).
                 (e\<lparr>en_heap := (en_heap e)(a \<mapsto> b1), en_stats := count_match r (en_stats e)\<rparr>, r))
                (add_order ord b)))"

definition engine_cancel :: "order_result \<Rightarrow> symbol \<Rightarrow> order_id \<Rightarrow> engine \<Rightarrow> (engine \<times> order_result) option" where
  "engine_cancel junk sy i e =
     (case get_book sy e of
        None \<Rightarrow> Some (e, unknown_symbol junk)
      | Some a \<Rightarrow>
         (case en_heap e a of
            None \<Rightarrow> None
          | Some b \<Rightarrow>
             (let (b1, r) = cancel_order i b; s = en_stats e in
              Some (e\<lparr>en_heap := (en_heap e)(a \<mapsto> b1),
                      en_stats := (if r_success r then s\<lparr>st_orders_cancelled := st_orders_cancelled s + 1\<rparr> else s)\<rparr>, r))))"

definition engine_replace ::
  "order_result \<Rightarrow> symbol \<Rightarrow> order_id \<Rightarrow> price \<Rightarrow> quantity \<Rightarrow> engine \<Rightarrow> (engine \<times> order_result) option" where
  "engine_replace junk sy i p q e =
     (case get_book sy e of
        None \<Rightarrow> Some (e, unknown_symbol junk)
      | Some a \<Rightarrow>
         (case en_heap e a of
            None \<Rightarrow> None
          | Some b \<Rightarrow>
              map_option (\<lambda>(b1, r). (e\<lparr>en_heap := (en_heap e)(a \<mapsto> b1)\<rparr>, r)) (replace_order junk i p q b)))"

section \<open>The inbound queue\<close>

definition push_message :: "inbound_message \<Rightarrow> engine \<Rightarrow> bool \<times> engine" where
  "push_message m e = (case try_push m (en_queue e) of (ok, q) \<Rightarrow> (ok, e\<lparr>en_queue := q\<rparr>))"

definition enqueue_order :: "inbound_message \<Rightarrow> order \<Rightarrow> engine \<Rightarrow> bool \<times> engine" where
  "enqueue_order mem ord e = push_message ((new_message mem)\<lparr>m_type := NewOrder, m_order := ord\<rparr>) e"

definition enqueue_cancel :: "inbound_message \<Rightarrow> symbol \<Rightarrow> order_id \<Rightarrow> engine \<Rightarrow> bool \<times> engine" where
  "enqueue_cancel mem sy i e =
     push_message ((new_message mem)\<lparr>m_type := CancelOrder, m_order_id := i, m_symbol := sy\<rparr>) e"

definition enqueue_replace ::
  "inbound_message \<Rightarrow> symbol \<Rightarrow> order_id \<Rightarrow> price \<Rightarrow> quantity \<Rightarrow> engine \<Rightarrow> bool \<times> engine" where
  "enqueue_replace mem sy i p q e =
     push_message ((new_message mem)\<lparr>m_type := ReplaceOrder, m_order_id := i, m_symbol := sy,
                                      m_new_price := p, m_new_qty := q\<rparr>) e"

text \<open>The body of \<^verbatim>\<open>process_one\<close> after a message has been popped.\<close>

definition handle_message :: "order_result \<Rightarrow> inbound_message \<Rightarrow> engine \<Rightarrow> engine option" where
  "handle_message junk m e0 =
     (let s = en_stats e0; e = e0\<lparr>en_stats := s\<lparr>st_messages_processed := st_messages_processed s + 1\<rparr>\<rparr> in
      map_option fst
        (case m_type m of
           NewOrder \<Rightarrow> submit_order junk (m_order m) e
         | CancelOrder \<Rightarrow> engine_cancel junk (m_symbol m) (m_order_id m) e
         | ReplaceOrder \<Rightarrow> engine_replace junk (m_symbol m) (m_order_id m) (m_new_price m) (m_new_qty m) e))"

definition process_one :: "order_result \<Rightarrow> engine \<Rightarrow> (bool \<times> engine) option" where
  "process_one junk e =
     (case try_pop (en_queue e) of
        (None, q) \<Rightarrow> Some (False, e\<lparr>en_queue := q\<rparr>)
      | (Some m, q) \<Rightarrow> map_option (Pair True) (handle_message junk m (e\<lparr>en_queue := q\<rparr>)))"

partial_function (option) process_loop :: "order_result \<Rightarrow> nat \<Rightarrow> engine \<Rightarrow> (nat \<times> engine) option" where
  "process_loop junk processed e =
     (case process_one junk e of
        None \<Rightarrow> None
      | Some (again, e1) \<Rightarrow> if again then process_loop junk (processed + 1) e1 else Some (processed, e1))"

declare process_loop.simps [code]

definition process_queue :: "order_result \<Rightarrow> engine \<Rightarrow> (nat \<times> engine) option" where
  "process_queue junk e = process_loop junk 0 e"

definition stats :: "engine \<Rightarrow> engine_stats" where
  "stats e = en_stats e"

definition reset_stats :: "engine \<Rightarrow> engine" where
  "reset_stats e = e\<lparr>en_stats := zero_stats\<rparr>"

section \<open>The engine loop and the runner\<close>

definition engine_stop :: "engine \<Rightarrow> engine" where
  "engine_stop e = e\<lparr>en_running := False\<rparr>"

text \<open>
  The destructor stops the engine; then the members go, and with \<^verbatim>\<open>books_\<close> every book it owns.
\<close>

definition engine_destroy :: "engine \<Rightarrow> engine" where
  "engine_destroy e =
     (let e1 = engine_stop e in
      e1\<lparr>en_heap := fold (\<lambda>(sy, a) h. h(a := None)) (en_books e1) (en_heap e1), en_books := [], en_symbol_to_book := []\<rparr>)"

text \<open>
  \<^verbatim>\<open>run\<close> on its thread, between steps of the others: a stop request from any thread, or a message
  enqueued by the producer. The handling of one message is one step: the producer touches nothing
  but the queue, whose own interleavings are the subject of \<open>Spsc_Concurrent\<close>.
\<close>

datatype run_pc = RunEntry | RunTest | RunBody | RunReturned

datatype run_event = Own | Stop | Push inbound_message

inductive run_step :: "order_result \<Rightarrow> run_event \<Rightarrow> run_pc \<times> engine \<Rightarrow> run_pc \<times> engine \<Rightarrow> bool" for junk where
  run_entry: "run_step junk Own (RunEntry, e) (RunTest, e\<lparr>en_running := True\<rparr>)"
| run_again: "en_running e \<Longrightarrow> run_step junk Own (RunTest, e) (RunBody, e)"
| run_leave: "\<not> en_running e \<Longrightarrow> run_step junk Own (RunTest, e) (RunReturned, e)"
| run_body: "process_one junk e = Some (again, e') \<Longrightarrow> run_step junk Own (RunBody, e) (RunTest, e')"
| run_stopped: "run_step junk Stop (pc, e) (pc, engine_stop e)"
| run_pushed: "push_message m e = (ok, e') \<Longrightarrow> run_step junk (Push m) (pc, e) (pc, e')"

inductive run_trace :: "order_result \<Rightarrow> run_pc \<times> engine \<Rightarrow> run_event list \<Rightarrow> run_pc \<times> engine \<Rightarrow> bool" for junk where
  trace_start: "run_trace junk s [] s"
| trace_step: "run_trace junk s evs t \<Longrightarrow> run_step junk ev t u \<Longrightarrow> run_trace junk s (evs @ [ev]) u"

inductive_cases run_stepE: "run_step junk ev (pc, e) t"
inductive_simps own_step: "run_step junk Own (pc, e) t"

record engine_runner =
  rn_engine :: engine
  rn_running :: bool

definition new_runner :: "engine \<Rightarrow> engine_runner" where
  "new_runner e = \<lparr>rn_engine = e, rn_running = False\<rparr>"

definition runner_start :: "engine_runner \<Rightarrow> engine_runner" where
  "runner_start r = r\<lparr>rn_running := True\<rparr>"

definition runner_stop :: "engine_runner \<Rightarrow> engine_runner" where
  "runner_stop r = (r\<lparr>rn_running := False\<rparr>)\<lparr>rn_engine := engine_stop (rn_engine r)\<rparr>"

definition runner_destroy :: "engine_runner \<Rightarrow> engine" where
  "runner_destroy r = rn_engine (runner_stop r)"

definition is_running :: "engine_runner \<Rightarrow> bool" where
  "is_running r = rn_running r"

end
