(* ===== verification/Engine_Invariant.thy ===== *)
theory Engine_Invariant
  imports Matching_Engine Book_Views
begin

text \<open>
  What holds of an engine between operations: its two symbol maps agree, its raw pointers are
  exactly the live books, and the book of a symbol carries that symbol and is one that
  \<^verbatim>\<open>OrderBook\<close> operations can build. Each operation is then described by the books it serves, with
  no pointers.
\<close>

section \<open>The books an engine serves\<close>

definition served :: "engine \<Rightarrow> symbol \<Rightarrow> book option" where
  "served e s = (case get_book s e of Some a \<Rightarrow> en_heap e a | None \<Rightarrow> None)"

definition book_config_of :: "engine \<Rightarrow> book_config" where
  "book_config_of e = ec_book_config (en_config e)"

definition ptr_ok :: "engine \<Rightarrow> symbol \<Rightarrow> book_ptr \<Rightarrow> bool" where
  "ptr_ok e s a \<longleftrightarrow> a < en_brk e \<and> (\<exists>b. en_heap e a = Some b \<and> reachable (book_config_of e) b \<and> b_symbol b = s)"

definition engine_inv :: "engine \<Rightarrow> bool" where
  "engine_inv e \<longleftrightarrow>
     om_sorted (en_books e) \<and> map_of (en_books e) = map_of (en_symbol_to_book e) \<and>
     dom (en_heap e) = ran (map_of (en_symbol_to_book e)) \<and>
     (\<forall>s a. get_book s e = Some a \<longrightarrow> ptr_ok e s a) \<and>
     spsc_inv (en_queue e) \<and> q_capacity (en_queue e) = INBOUND_CAPACITY"

lemma engine_invD:
  assumes "engine_inv e"
  shows "om_sorted (en_books e)" "map_of (en_books e) = map_of (en_symbol_to_book e)"
    "dom (en_heap e) = ran (map_of (en_symbol_to_book e))" "spsc_inv (en_queue e)" "q_capacity (en_queue e) = INBOUND_CAPACITY"
  using assms by (simp_all add: engine_inv_def)

lemma engine_ptr:
  assumes "engine_inv e" "get_book s e = Some a"
  obtains b where "en_heap e a = Some b" "reachable (book_config_of e) b" "b_symbol b = s" "a < en_brk e"
  using assms unfolding engine_inv_def ptr_ok_def by blast

lemma ptr_inj: "engine_inv e \<Longrightarrow> get_book s e = Some a \<Longrightarrow> get_book t e = Some a \<Longrightarrow> s = t"
  by (metis engine_ptr option.inject)

lemma served_some:
  assumes "engine_inv e" "served e s = Some b"
  shows "\<exists>a. get_book s e = Some a \<and> en_heap e a = Some b" "reachable (book_config_of e) b" "b_symbol b = s"
  using assms(2) engine_ptr [OF assms(1)] by (auto simp: served_def split: option.splits) (metis option.inject)+

lemma served_none: "engine_inv e \<Longrightarrow> served e s = None \<longleftrightarrow> get_book s e = None"
  by (auto simp: served_def split: option.splits elim: engine_ptr)

text \<open>The symbol of a book is fixed at construction.\<close>

lemma callback_static [simp]:
  "b_symbol (set_trade_callback cb b) = b_symbol b" "b_symbol (set_execution_callback cb b) = b_symbol b"
  by (simp_all add: set_trade_callback_def set_execution_callback_def)

lemma new_book_symbol [simp]: "b_symbol (new_book s cfg clock) = s"
  by (simp add: new_book_def)

lemma add_order_result:
  assumes "reachable cfg b" "valid_order b x"
  shows "\<exists>b' r. add_order x b = Some (b', r) \<and> reachable cfg b' \<and> b_symbol b' = b_symbol b"
proof -
  obtain b' r where ad: "add_order x b = Some (b', r)" using add_total [OF assms] by (cases "add_order x b") auto
  have "b_symbol b' = b_symbol b"
  proof (cases "admitted x b")
    case True
    have "order_wf x" "stp_defined b (market_price x)" using assms(2) by (auto simp: valid_order_def)
    from add_order_spec [OF reachable_inv(1) [OF assms(1)] True this] ad show ?thesis by (auto simp: same_static_def)
  next
    case False
    from add_order_not_admitted [OF False] ad show ?thesis by (auto simp: same_book_def)
  qed
  then show ?thesis using ad reach_add [OF assms ad] by auto
qed

lemma cancel_result:
  assumes "reachable cfg b"
  shows "reachable cfg (fst (cancel_order i b)) \<and> b_symbol (fst (cancel_order i b)) = b_symbol b"
proof (cases "map_of (b_orders b) i")
  case None
  then show ?thesis using assms by (simp add: cancel_absent)
next
  case (Some x)
  from cancel_spec [where stale = o_side, OF reachable_inv(1) [OF assms] Some refl, folded cancel_order_def]
  have "b_symbol (fst (cancel_order i b)) = b_symbol b" by (simp add: same_static_def)
  then show ?thesis using reach_cancel [OF assms] by simp
qed

definition valid_replace :: "book \<Rightarrow> order_id \<Rightarrow> price \<Rightarrow> quantity \<Rightarrow> bool" where
  "valid_replace b i p q \<longleftrightarrow>
     (\<forall>x. map_of (b_orders b) i = Some x \<longrightarrow>
        (if o_price x = p then o_filled_qty x = 0 \<and> q \<noteq> 0
         else valid_order (fst (cancel_order i b)) (mk_order i (o_symbol x) (o_side x) p q (o_type x) (o_tif x))))"

lemma replace_result:
  assumes r: "reachable cfg b" and v: "valid_replace b i p q"
  shows "\<exists>b' r. replace_order junk i p q b = Some (b', r) \<and> reachable cfg b' \<and> b_symbol b' = b_symbol b"
proof (cases "map_of (b_orders b) i")
  case None
  then show ?thesis using r by (simp add: replace_order_unfold Let_def)
next
  case (Some x)
  show ?thesis
  proof (cases "o_price x = p")
    case True
    then have q: "o_filled_qty x = 0" "q \<noteq> 0" using v Some by (auto simp: valid_replace_def)
    from amend_effect [OF reachable_inv(1) [OF r] Some, of junk q] obtain b2
      where a: "replace_order junk i (o_price x) q b = Some (maybe_emit_bbo b2, junk\<lparr>r_success := True\<rparr>)" "same_static b b2" by blast
    have "b_symbol (maybe_emit_bbo b2) = b_symbol b" using a(2) same_emit_bbo [of b2] by (simp add: same_static_def same_book_def)
    then show ?thesis using a(1) reach_amend [OF r Some q a(1)] True by simp
  next
    case False
    let ?y = "mk_order i (o_symbol x) (o_side x) p q (o_type x) (o_tif x)"
    have vy: "valid_order (fst (cancel_order i b)) ?y" using v Some False by (simp add: valid_replace_def)
    from add_order_result [OF reach_cancel [OF r] vy] obtain b' z
      where a: "add_order ?y (fst (cancel_order i b)) = Some (b', z)" "b_symbol b' = b_symbol b" using cancel_result [OF r] by auto
    then have rep: "replace_order junk i p q b = Some (b', z)" by (simp add: move_effect [OF Some False])
    from reach_move [OF r Some False vy rep] rep a(2) show ?thesis by simp
  qed
qed

text \<open>Every live book is owned, so that destroying the owner destroys them all.\<close>

lemma destroy_frees:
  assumes e: "engine_inv e"
  shows "en_heap (engine_destroy e) = Map.empty"
proof
  fix a
  have del: "fold (\<lambda>(s, a) h. h(a := None)) m h = (\<lambda>a. if a \<in> snd ` set m then None else h a)" for m :: "(symbol \<times> book_ptr) list" and h
    by (induction m arbitrary: h) (auto simp: fun_eq_iff)
  have "en_heap e a = None" if "a \<notin> snd ` set (en_books e)"
  proof -
    have "a \<notin> ran (map_of (en_books e))" using that by (force simp: ran_def dest!: map_of_SomeD)
    then show ?thesis using engine_invD(2,3) [OF e] by auto
  qed
  then show "en_heap (engine_destroy e) a = Map.empty a" by (simp add: engine_destroy_def engine_stop_def Let_def del)
qed

section \<open>One engine operation at a time\<close>

text \<open>Storing a new state of the book of one symbol.\<close>

lemma store_book:
  assumes e: "engine_inv e" "get_book s e = Some a" and b: "reachable (book_config_of e) b" "b_symbol b = s"
    and e': "en_heap e' = (en_heap e)(a \<mapsto> b)" "en_books e' = en_books e" "en_symbol_to_book e' = en_symbol_to_book e"
      "en_brk e' = en_brk e" "en_config e' = en_config e" "spsc_inv (en_queue e')" "q_capacity (en_queue e') = INBOUND_CAPACITY"
  shows "engine_inv e'" "served e' = (served e)(s \<mapsto> b)"
proof -
  have g: "get_book t e' = get_book t e" for t by (simp add: get_book_def e')
  have c: "book_config_of e' = book_config_of e" by (simp add: book_config_of_def e')
  have "ptr_ok e' t a'" if "get_book t e = Some a'" for t a'
  proof (cases "a' = a")
    case True
    then have "t = s" using ptr_inj [OF e(1) _ e(2)] that by simp
    then show ?thesis using True e e' b by (auto simp: ptr_ok_def c elim: engine_ptr)
  next
    case False
    then show ?thesis using e(1) that by (auto simp: ptr_ok_def c e' elim: engine_ptr)
  qed
  moreover have "dom (en_heap e') = dom (en_heap e)" using e by (auto simp: e' elim: engine_ptr)
  ultimately show "engine_inv e'" using e(1) e' g by (simp add: engine_inv_def)
  have "served e' t = ((served e)(s \<mapsto> b)) t" for t
  proof (cases "t = s")
    case True
    then show ?thesis using e(2) by (simp add: served_def g e')
  next
    case False
    then have "get_book t e \<noteq> Some a" using ptr_inj [OF e(1) _ e(2)] by blast
    then show ?thesis using False by (auto simp: served_def g e' split: option.splits)
  qed
  then show "served e' = (served e)(s \<mapsto> b)" by (rule ext)
qed

lemma same_engine:
  assumes "engine_inv e"
    and e': "en_heap e' = en_heap e" "en_books e' = en_books e" "en_symbol_to_book e' = en_symbol_to_book e"
      "en_brk e' = en_brk e" "en_config e' = en_config e" "spsc_inv (en_queue e')" "q_capacity (en_queue e') = INBOUND_CAPACITY"
  shows "engine_inv e'" "served e' = served e"
proof -
  have g: "get_book t e' = get_book t e" for t by (simp add: get_book_def e')
  show "engine_inv e'" using assms by (simp add: engine_inv_def ptr_ok_def book_config_of_def g)
  show "served e' = served e" by (rule ext) (simp add: served_def g e' split: option.splits)
qed

lemma submit_known:
  assumes e: "engine_inv e" and s: "served e (o_symbol x) = Some b" and v: "valid_order b x"
  shows "\<exists>b' r e'. add_order x b = Some (b', r) \<and> submit_order junk x e = Some (e', r) \<and> engine_inv e' \<and>
    served e' = (served e)(o_symbol x \<mapsto> b') \<and> en_queue e' = en_queue e \<and>
    en_stats e' = count_match r ((en_stats e)\<lparr>st_orders_received := st_orders_received (en_stats e) + 1\<rparr>)"
proof -
  obtain a where a: "get_book (o_symbol x) e = Some a" "en_heap e a = Some b" using served_some [OF e s] by auto
  note b = served_some(2,3) [OF e s]
  from add_order_result [OF b(1) v] obtain b' r where ad: "add_order x b = Some (b', r)" "reachable (book_config_of e) b'" "b_symbol b' = o_symbol x"
    using b by auto
  have g: "get_book t (e\<lparr>en_stats := z\<rparr>) = get_book t e" for t z by (simp add: get_book_def)
  note st = store_book [OF e a(1) ad(2,3), of "e\<lparr>en_heap := (en_heap e)(a \<mapsto> b'), en_stats := z\<rparr>" for z]
  show ?thesis
    using st engine_invD(4,5) [OF e] by (simp add: submit_order_def Let_def g a ad)
qed


lemma engine_cancel_known:
  assumes e: "engine_inv e" and s: "served e sy = Some b"
  shows "\<exists>e'. engine_cancel junk sy i e = Some (e', snd (cancel_order i b)) \<and> engine_inv e' \<and>
    served e' = (served e)(sy \<mapsto> fst (cancel_order i b)) \<and> en_queue e' = en_queue e \<and>
    en_stats e' = (if r_success (snd (cancel_order i b)) then (en_stats e)\<lparr>st_orders_cancelled := st_orders_cancelled (en_stats e) + 1\<rparr> else en_stats e)"
proof -
  obtain a where a: "get_book sy e = Some a" "en_heap e a = Some b" using served_some [OF e s] by auto
  note b = served_some(2,3) [OF e s]
  note c = cancel_result [OF b(1), of i]
  note st = store_book [OF e a(1), of "fst (cancel_order i b)" "e\<lparr>en_heap := (en_heap e)(a \<mapsto> fst (cancel_order i b)), en_stats := z\<rparr>" for z]
  show ?thesis
    using st engine_invD(4,5) [OF e] b c by (simp add: engine_cancel_def Let_def split_beta a)
qed

lemma engine_replace_known:
  assumes e: "engine_inv e" and s: "served e sy = Some b" and v: "valid_replace b i p q"
  shows "\<exists>b' r e'. replace_order junk i p q b = Some (b', r) \<and> engine_replace junk sy i p q e = Some (e', r) \<and> engine_inv e' \<and>
    served e' = (served e)(sy \<mapsto> b') \<and> en_queue e' = en_queue e \<and> en_stats e' = en_stats e"
proof -
  obtain a where a: "get_book sy e = Some a" "en_heap e a = Some b" using served_some [OF e s] by auto
  note b = served_some(2,3) [OF e s]
  from replace_result [OF b(1) v, of junk] b obtain b' r where
    rp: "replace_order junk i p q b = Some (b', r)" "reachable (book_config_of e) b'" "b_symbol b' = sy" by auto
  note st = store_book [OF e a(1) rp(2,3), of "e\<lparr>en_heap := (en_heap e)(a \<mapsto> b')\<rparr>"]
  show ?thesis
    using st engine_invD(4,5) [OF e] by (simp add: engine_replace_def a rp)
qed

lemma unknown_results:
  assumes "engine_inv e"
  shows "served e (o_symbol x) = None \<Longrightarrow>
      submit_order junk x e = Some (e\<lparr>en_stats := (en_stats e)\<lparr>st_orders_received := st_orders_received (en_stats e) + 1\<rparr>\<rparr>, unknown_symbol junk)"
    and "served e sy = None \<Longrightarrow> engine_cancel junk sy i e = Some (e, unknown_symbol junk)"
    and "served e sy = None \<Longrightarrow> engine_replace junk sy i p q e = Some (e, unknown_symbol junk)"
  using served_none [OF assms] by (simp_all add: submit_order_def engine_cancel_def engine_replace_def Let_def get_book_def)

section \<open>Symbols and callbacks\<close>

definition blank_book :: "(nat \<Rightarrow> timestamp) \<Rightarrow> symbol \<Rightarrow> engine \<Rightarrow> book" where
  "blank_book clock s e =
     (let b = new_book s (book_config_of e) clock;
          b1 = (if en_trade_callback e = None then b else set_trade_callback (en_trade_callback e) b)
      in if en_execution_callback e = None then b1 else set_execution_callback (en_execution_callback e) b1)"

lemma blank_book_facts: "reachable (book_config_of e) (blank_book clock s e)" "b_symbol (blank_book clock s e) = s"
  "entries t (blank_book clock s e) = []" "b_orders (blank_book clock s e) = []"
proof -
  show "reachable (book_config_of e) (blank_book clock s e)"
    by (auto simp: blank_book_def Let_def intro: reach_new reach_on_trade reach_on_execution)
  show "b_symbol (blank_book clock s e) = s" by (simp add: blank_book_def Let_def)
  show "entries t (blank_book clock s e) = []" "b_orders (blank_book clock s e) = []"
    by (cases t; simp add: blank_book_def Let_def entries_def set_trade_callback_def set_execution_callback_def new_book_def)+
qed

lemma add_symbol_shape:
  "add_symbol clock s e =
     e\<lparr>en_heap := (case map_of (en_books e) s of Some old \<Rightarrow> ((en_heap e)(en_brk e \<mapsto> blank_book clock s e))(old := None)
                  | None \<Rightarrow> (en_heap e)(en_brk e \<mapsto> blank_book clock s e)),
       en_brk := en_brk e + 1, en_symbol_to_book := om_put s (en_brk e) (en_symbol_to_book e),
       en_books := om_put s (en_brk e) (en_books e)\<rparr>"
  by (simp add: add_symbol_def blank_book_def Let_def book_config_of_def split: option.splits)

lemma add_symbol_ok:
  assumes e: "engine_inv e"
  shows "engine_inv (add_symbol clock s e)" "served (add_symbol clock s e) = (served e)(s \<mapsto> blank_book clock s e)"
proof -
  let ?e = "add_symbol clock s e" and ?a = "en_brk e" and ?b = "blank_book clock s e"
  have f: "get_book t ?e = (if t = s then Some ?a else get_book t e)" "en_brk ?e = Suc ?a" "en_queue ?e = en_queue e"
    "en_books ?e = om_put s ?a (en_books e)" "en_symbol_to_book ?e = om_put s ?a (en_symbol_to_book e)" "book_config_of ?e = book_config_of e" for t
    by (simp_all add: add_symbol_shape get_book_def book_config_of_def)
  have g: "map_of (en_books e) t = get_book t e" for t using engine_invD(2) [OF e] by (simp add: get_book_def)
  have h: "en_heap ?e = (case get_book s e of Some old \<Rightarrow> ((en_heap e)(?a \<mapsto> ?b))(old := None) | None \<Rightarrow> (en_heap e)(?a \<mapsto> ?b))"
    by (simp add: add_symbol_shape g)
  have fresh: "get_book t e \<noteq> Some ?a" for t using engine_ptr [OF e] by blast
  have ha: "en_heap ?e ?a = Some ?b" using fresh [of s] by (auto simp: h split: option.splits)
  have ho: "en_heap ?e a = en_heap e a" if "get_book t e = Some a" "t \<noteq> s" for t a
    using that fresh [of t] ptr_inj [OF e that(1), of s] by (auto simp: h split: option.splits)
  have ok: "ptr_ok ?e t a" if "get_book t ?e = Some a" for t a
  proof (cases "t = s")
    case True
    then show ?thesis using that ha blank_book_facts(1,2) by (auto simp: ptr_ok_def f)
  next
    case False
    then have t: "get_book t e = Some a" using that f(1) by simp
    then show ?thesis using ho [OF t False] by (auto simp: ptr_ok_def f elim: engine_ptr [OF e])
  qed
  have "dom (en_heap ?e) = ran (map_of (en_symbol_to_book ?e))"
  proof -
    have r: "a \<in> ran (map_of (en_symbol_to_book ?e)) \<longleftrightarrow> a = ?a \<or> (\<exists>t. t \<noteq> s \<and> get_book t e = Some a)" for a
      by (auto simp: ran_def f get_book_def split: if_splits)
    have d: "a \<in> dom (en_heap e) \<longleftrightarrow> (\<exists>t. get_book t e = Some a)" for a
      using engine_invD(3) [OF e] by (simp add: ran_def get_book_def)
    have "a \<in> dom (en_heap ?e) \<longleftrightarrow> a = ?a \<or> (a \<in> dom (en_heap e) \<and> get_book s e \<noteq> Some a)" for a
      using ha by (cases "a = ?a") (auto simp: h split: option.splits if_splits)
    then have "a \<in> dom (en_heap ?e) \<longleftrightarrow> a \<in> ran (map_of (en_symbol_to_book ?e))" for a
      unfolding r d using ptr_inj [OF e] by metis
    then show ?thesis by blast
  qed
  then show "engine_inv ?e"
    unfolding engine_inv_def using ok engine_invD [OF e] by (simp add: f)
  have "served ?e t = ((served e)(s \<mapsto> ?b)) t" for t
    using ha ho [of t] by (auto simp: served_def f split: option.splits)
  then show "served ?e = (served e)(s \<mapsto> ?b)" by (rule ext)
qed

lemma on_books_fold:
  assumes "distinct (map snd m)"
  shows "fold (\<lambda>(s, a) h. case h a of Some b \<Rightarrow> h(a \<mapsto> f b) | None \<Rightarrow> h) m h =
    (\<lambda>a. if a \<in> snd ` set m then map_option f (h a) else h a)"
  using assms
proof (induction m arbitrary: h)
  case (Cons p m)
  obtain s a where p: "p = (s, a)" by (cases p)
  show ?case using Cons.prems
    by (simp add: p Cons.IH) (auto simp: fun_eq_iff split: option.splits)
qed simp

lemma on_books_ok:
  assumes e: "engine_inv e" and f: "\<And>b. reachable (book_config_of e) b \<Longrightarrow> reachable (book_config_of e) (f b)" "\<And>b. b_symbol (f b) = b_symbol b"
  shows "engine_inv (on_books f e)" "served (on_books f e) s = map_option f (served e s)"
proof -
  let ?e = "on_books f e"
  have g: "map_of (en_books e) t = get_book t e" for t using engine_invD(2) [OF e] by (simp add: get_book_def)
  note so = engine_invD(1) [OF e]
  have "distinct (map snd (en_books e))"
  proof -
    have "inj_on snd (set (en_books e))"
      using ptr_inj [OF e] om_find_iff [OF so] by (auto intro!: inj_onI simp: g)
    then show ?thesis using om_distinct [OF so] by (simp add: distinct_map)
  qed
  then have "en_heap ?e = (\<lambda>a. if a \<in> snd ` set (en_books e) then map_option f (en_heap e a) else en_heap e a)"
    by (simp add: on_books_def on_books_fold)
  moreover have "en_heap e a = None" if "a \<notin> snd ` set (en_books e)" for a
  proof -
    have "a \<notin> ran (map_of (en_books e))" using that by (force simp: ran_def dest!: map_of_SomeD)
    then show ?thesis using engine_invD(2,3) [OF e] by auto
  qed
  ultimately have h: "en_heap ?e = map_option f \<circ> en_heap e" by (auto simp: fun_eq_iff)
  have o: "en_books ?e = en_books e" "en_symbol_to_book ?e = en_symbol_to_book e" "en_brk ?e = en_brk e" "en_queue ?e = en_queue e"
    "book_config_of ?e = book_config_of e" "get_book t ?e = get_book t e" for t
    by (simp_all add: on_books_def get_book_def book_config_of_def)
  have "ptr_ok ?e t a" if "get_book t e = Some a" for t a
    by (rule engine_ptr [OF e that]) (use f in \<open>auto simp: ptr_ok_def o h\<close>)
  moreover have "dom (en_heap ?e) = dom (en_heap e)" by (auto simp: h)
  ultimately show "engine_inv ?e" unfolding engine_inv_def using engine_invD [OF e] by (simp add: o)
  show "served ?e s = map_option f (served e s)" by (simp add: served_def o h split: option.splits)
qed

end
