(* ===== verification/Engine_Runs.thy ===== *)
theory Engine_Runs
  imports Engine_Invariant
begin

text \<open>
  The engine at work: one message, the loop that drains the queue, described symbol by symbol,
  and the engines a client can build by any sequence of operations.
\<close>

section \<open>One message\<close>

definition address :: "inbound_message \<Rightarrow> symbol" where
  "address m = (case m_type m of NewOrder \<Rightarrow> o_symbol (m_order m) | _ \<Rightarrow> m_symbol m)"

definition apply_message :: "order_result \<Rightarrow> inbound_message \<Rightarrow> book \<Rightarrow> book option" where
  "apply_message junk m b =
     (case m_type m of
        NewOrder \<Rightarrow> map_option fst (add_order (m_order m) b)
      | CancelOrder \<Rightarrow> Some (fst (cancel_order (m_order_id m) b))
      | ReplaceOrder \<Rightarrow> map_option fst (replace_order junk (m_order_id m) (m_new_price m) (m_new_qty m) b))"

fun apply_all :: "order_result \<Rightarrow> inbound_message list \<Rightarrow> book \<Rightarrow> book option" where
  "apply_all junk [] b = Some b"
| "apply_all junk (m # ms) b = Option.bind (apply_message junk m b) (apply_all junk ms)"

definition valid_message :: "book \<Rightarrow> inbound_message \<Rightarrow> bool" where
  "valid_message b m \<longleftrightarrow>
     (case m_type m of
        NewOrder \<Rightarrow> valid_order b (m_order m)
      | CancelOrder \<Rightarrow> True
      | ReplaceOrder \<Rightarrow> valid_replace b (m_order_id m) (m_new_price m) (m_new_qty m))"

definition tick :: "engine \<Rightarrow> engine" where
  "tick e = e\<lparr>en_stats := (en_stats e)\<lparr>st_messages_processed := st_messages_processed (en_stats e) + 1\<rparr>\<rparr>"

lemma tick_ok: "engine_inv e \<Longrightarrow> engine_inv (tick e)" "engine_inv e \<Longrightarrow> served (tick e) = served e" "en_queue (tick e) = en_queue e"
  using same_engine [of e "tick e"] engine_invD(4,5) [of e] by (simp_all add: tick_def)

lemma processed_count: "st_messages_processed (count_match r s) = st_messages_processed s"
  by (simp add: count_match_def)

lemma handle_message_ok:
  assumes e: "engine_inv e" and v: "\<And>b. served e (address m) = Some b \<Longrightarrow> valid_message b m"
  shows "\<exists>e'. handle_message junk m e = Some e' \<and> engine_inv e' \<and> en_queue e' = en_queue e \<and>
    (\<forall>s. served e' s = (if s = address m then Option.bind (served e s) (apply_message junk m) else served e s)) \<and>
    st_messages_processed (en_stats e') = st_messages_processed (en_stats e) + 1"
proof -
  note t = tick_ok(1,2) [OF e] tick_ok(3) [of e]
  have tick: "st_messages_processed (en_stats (tick e)) = st_messages_processed (en_stats e) + 1" by (simp add: tick_def)
  have shape: "handle_message junk m e = map_option fst
      (case m_type m of
         NewOrder \<Rightarrow> submit_order junk (m_order m) (tick e)
       | CancelOrder \<Rightarrow> engine_cancel junk (m_symbol m) (m_order_id m) (tick e)
       | ReplaceOrder \<Rightarrow> engine_replace junk (m_symbol m) (m_order_id m) (m_new_price m) (m_new_qty m) (tick e))"
    unfolding handle_message_def tick_def Let_def ..
  show ?thesis
  proof (cases "served e (address m)")
    case None
    let ?o = "tick e\<lparr>en_stats := (en_stats (tick e))\<lparr>st_orders_received := st_orders_received (en_stats (tick e)) + 1\<rparr>\<rparr>"
    have "engine_inv ?o" "served ?o = served e"
      using same_engine [OF t(1), of ?o] engine_invD(4,5) [OF t(1)] t(2) by simp_all
    then show ?thesis
      using None unknown_results [OF t(1)] t tick
      by (cases "m_type m") (auto simp: shape address_def)
  next
    case (Some b)
    note v = v [OF Some]
    show ?thesis
    proof (cases "m_type m")
      case NewOrder
      with Some v have s: "served (tick e) (o_symbol (m_order m)) = Some b" "valid_order b (m_order m)"
        by (simp_all add: t address_def valid_message_def)
      from submit_known [OF t(1) s, of junk] NewOrder Some t tick show ?thesis
        by (auto simp: shape address_def apply_message_def processed_count)
    next
      case CancelOrder
      with Some have s: "served (tick e) (m_symbol m) = Some b" by (simp add: t address_def)
      from engine_cancel_known [OF t(1) s, of junk "m_order_id m"] CancelOrder Some t tick show ?thesis
        by (auto simp: shape address_def apply_message_def)
    next
      case ReplaceOrder
      with Some v have s: "served (tick e) (m_symbol m) = Some b" "valid_replace b (m_order_id m) (m_new_price m) (m_new_qty m)"
        by (simp_all add: t address_def valid_message_def)
      from engine_replace_known [OF t(1) s, of junk] ReplaceOrder Some t tick show ?thesis
        by (auto simp: shape address_def apply_message_def)
    qed
  qed
qed

section \<open>Draining the queue\<close>

text \<open>Every message finds the book it addresses in a state in which it is valid.\<close>

fun valid_messages :: "order_result \<Rightarrow> (symbol \<Rightarrow> book option) \<Rightarrow> inbound_message list \<Rightarrow> bool" where
  "valid_messages junk bs [] \<longleftrightarrow> True"
| "valid_messages junk bs (m # ms) \<longleftrightarrow>
     (\<forall>b. bs (address m) = Some b \<longrightarrow> valid_message b m) \<and>
     valid_messages junk (bs(address m := Option.bind (bs (address m)) (apply_message junk m))) ms"

lemma process_one_item:
  assumes e: "engine_inv e" and q: "items (en_queue e) = m # ms" and v: "\<And>b. served e (address m) = Some b \<Longrightarrow> valid_message b m"
  shows "\<exists>e'. process_one junk e = Some (True, e') \<and> engine_inv e' \<and> items (en_queue e') = ms \<and>
    served e' = (served e)(address m := Option.bind (served e (address m)) (apply_message junk m)) \<and>
    st_messages_processed (en_stats e') = st_messages_processed (en_stats e) + 1"
proof -
  note inv = engine_invD(4,5) [OF e]
  from sq.pop_result [OF inv(1)] q have "fst (try_pop (en_queue e)) = Some m" by simp
  then obtain q' where p: "try_pop (en_queue e) = (Some m, q')" by (metis prod.collapse)
  have q': "spsc_inv q'" "items q' = ms" "q_capacity q' = INBOUND_CAPACITY"
    using sq.pop_inv [OF inv(1)] sq.pop_queue [OF inv(1)] sq.pop_bound [OF inv(1)] p q inv(2)
    by (simp_all add: INBOUND_CAPACITY_def)
  let ?e = "e\<lparr>en_queue := q'\<rparr>"
  have e1: "engine_inv ?e" "served ?e = served e" using same_engine [OF e, of ?e] q' by simp_all
  have v': "valid_message b m" if "served ?e (address m) = Some b" for b using v that e1(2) by simp
  from handle_message_ok [OF e1(1) v', of junk] obtain e' where h: "handle_message junk m ?e = Some e'" "engine_inv e'" "en_queue e' = q'"
    "\<And>s. served e' s = (if s = address m then Option.bind (served e s) (apply_message junk m) else served e s)"
    "st_messages_processed (en_stats e') = st_messages_processed (en_stats e) + 1"
    unfolding e1(2) by auto
  have "served e' = (served e)(address m := Option.bind (served e (address m)) (apply_message junk m))"
    by (rule ext) (simp add: h(4))
  with h(1-3,5) q' show ?thesis by (simp add: process_one_def p)
qed

lemma process_one_empty:
  assumes e: "engine_inv e" and q: "items (en_queue e) = []"
  shows "\<exists>e'. process_one junk e = Some (False, e') \<and> engine_inv e' \<and> items (en_queue e') = [] \<and> served e' = served e \<and> en_stats e' = en_stats e"
proof -
  note inv = engine_invD(4,5) [OF e]
  from sq.pop_result [OF inv(1)] q have "fst (try_pop (en_queue e)) = None" by simp
  then obtain q' where p: "try_pop (en_queue e) = (None, q')" by (metis prod.collapse)
  have q': "spsc_inv q'" "items q' = []" "q_capacity q' = INBOUND_CAPACITY"
    using sq.pop_inv [OF inv(1)] sq.pop_queue [OF inv(1)] sq.pop_bound [OF inv(1)] p q inv(2)
    by (simp_all add: INBOUND_CAPACITY_def)
  have "engine_inv (e\<lparr>en_queue := q'\<rparr>)" "served (e\<lparr>en_queue := q'\<rparr>) = served e"
    using same_engine [OF e, of "e\<lparr>en_queue := q'\<rparr>"] q' by simp_all
  then show ?thesis using q' by (simp add: process_one_def p)
qed


lemma process_loop_drains:
  assumes "engine_inv e" "valid_messages junk (served e) (items (en_queue e))"
  shows "\<exists>e'. process_loop junk n e = Some (n + length (items (en_queue e)), e') \<and> engine_inv e' \<and> items (en_queue e') = [] \<and>
    (\<forall>s. served e' s = Option.bind (served e s) (apply_all junk (filter (\<lambda>m. address m = s) (items (en_queue e))))) \<and>
    st_messages_processed (en_stats e') = st_messages_processed (en_stats e) + of_nat (length (items (en_queue e)))"
  using assms
proof (induction "items (en_queue e)" arbitrary: e n)
  case Nil
  from process_one_empty [OF Nil.prems(1) Nil.hyps [symmetric]] obtain e' where
    p: "process_one junk e = Some (False, e')" "engine_inv e'" "items (en_queue e') = []" "served e' = served e" "en_stats e' = en_stats e" by blast
  then show ?case by (simp add: process_loop.simps [of junk n e] Nil.hyps [symmetric])
next
  case (Cons m ms)
  note q = Cons.hyps(2) [symmetric]
  have v: "\<And>b. served e (address m) = Some b \<Longrightarrow> valid_message b m" using Cons.prems(2) by (simp add: q)
  from process_one_item [OF Cons.prems(1) q v] obtain e1 where
    p: "process_one junk e = Some (True, e1)" "engine_inv e1" "items (en_queue e1) = ms"
    "served e1 = (served e)(address m := Option.bind (served e (address m)) (apply_message junk m))"
    "st_messages_processed (en_stats e1) = st_messages_processed (en_stats e) + 1" by blast
  have "valid_messages junk (served e1) (items (en_queue e1))" using Cons.prems(2) by (simp add: q p(3,4))
  from Cons.hyps(1) [OF p(3) [symmetric] p(2) this, of "n + 1"] obtain e' where
    e': "process_loop junk (n + 1) e1 = Some (n + 1 + length ms, e')" "engine_inv e'" "items (en_queue e') = []"
    "\<And>s. served e' s = Option.bind (served e1 s) (apply_all junk (filter (\<lambda>m. address m = s) ms))"
    "st_messages_processed (en_stats e') = st_messages_processed (en_stats e1) + of_nat (length ms)"
    unfolding p(3) by blast
  have "served e' s = Option.bind (served e s) (apply_all junk (filter (\<lambda>m. address m = s) (m # ms)))" for s
    by (cases "s = address m"; cases "served e s") (simp_all add: e'(4) p(4))
  with e'(1-3,5) p(1,5) show ?case by (simp add: process_loop.simps [of junk n e] q)
qed

section \<open>Engines that clients can build\<close>

inductive engine_reach :: "engine_config \<Rightarrow> engine \<Rightarrow> bool" for cfg where
  er_new: "engine_reach cfg (new_engine mem cfg)"
| er_symbol: "engine_reach cfg e \<Longrightarrow> engine_reach cfg (add_symbol clock s e)"
| er_on_trade: "engine_reach cfg e \<Longrightarrow> engine_reach cfg (engine_set_trade_callback cb e)"
| er_on_execution: "engine_reach cfg e \<Longrightarrow> engine_reach cfg (engine_set_execution_callback cb e)"
| er_push: "engine_reach cfg e \<Longrightarrow> push_message m e = (ok, e') \<Longrightarrow> engine_reach cfg e'"
| er_submit: "engine_reach cfg e \<Longrightarrow> (\<And>b. served e (o_symbol x) = Some b \<Longrightarrow> valid_order b x) \<Longrightarrow>
    submit_order junk x e = Some (e', r) \<Longrightarrow> engine_reach cfg e'"
| er_cancel: "engine_reach cfg e \<Longrightarrow> engine_cancel junk s i e = Some (e', r) \<Longrightarrow> engine_reach cfg e'"
| er_replace: "engine_reach cfg e \<Longrightarrow> (\<And>b. served e s = Some b \<Longrightarrow> valid_replace b i p q) \<Longrightarrow>
    engine_replace junk s i p q e = Some (e', r) \<Longrightarrow> engine_reach cfg e'"
| er_process: "engine_reach cfg e \<Longrightarrow>
    (\<And>m b. fst (try_pop (en_queue e)) = Some m \<Longrightarrow> served e (address m) = Some b \<Longrightarrow> valid_message b m) \<Longrightarrow>
    process_one junk e = Some (again, e') \<Longrightarrow> engine_reach cfg e'"
| er_reset: "engine_reach cfg e \<Longrightarrow> engine_reach cfg (reset_stats e)"
| er_stop: "engine_reach cfg e \<Longrightarrow> engine_reach cfg (engine_stop e)"

lemma new_engine_inv: "engine_inv (new_engine mem cfg)" "served (new_engine mem cfg) s = None" "items (en_queue (new_engine mem cfg)) = []"
proof -
  have "q_capacity (spsc_new INBOUND_CAPACITY (new_message mem)) = INBOUND_CAPACITY"
    unfolding spsc_new_def q_capacity_def by simp
  then show "engine_inv (new_engine mem cfg)" "items (en_queue (new_engine mem cfg)) = []"
    using spsc_new_inv [of 16 "new_message mem"]
    by (simp_all add: engine_inv_def new_engine_def get_book_def INBOUND_CAPACITY_def)
  show "served (new_engine mem cfg) s = None" by (simp add: served_def new_engine_def get_book_def)
qed

lemma push_message_ok:
  assumes e: "engine_inv e" and p: "push_message m e = (ok, e')"
  shows "engine_inv e'" "served e' = served e" "en_stats e' = en_stats e" "ok \<longleftrightarrow> length (items (en_queue e)) < INBOUND_CAPACITY - 1"
    "items (en_queue e') = (if ok then items (en_queue e) @ [m] else items (en_queue e))"
proof -
  note inv = engine_invD(4,5) [OF e]
  obtain q where q: "try_push m (en_queue e) = (ok, q)" "e' = e\<lparr>en_queue := q\<rparr>"
    using p by (auto simp: push_message_def split: prod.splits)
  have q': "spsc_inv q" "q_capacity q = INBOUND_CAPACITY"
    using sq.push_inv [OF inv(1), of m] sq.push_bound [OF inv(1), of m] q inv(2) by (auto simp: INBOUND_CAPACITY_def)
  then show "engine_inv e'" "served e' = served e" using same_engine [OF e, of e'] q(2) by simp_all
  show "en_stats e' = en_stats e" by (simp add: q)
  show ok: "ok \<longleftrightarrow> length (items (en_queue e)) < INBOUND_CAPACITY - 1"
    using sq.push_ok [OF inv(1), of m] q inv(2) by simp
  show "items (en_queue e') = (if ok then items (en_queue e) @ [m] else items (en_queue e))"
    using sq.push_queue [OF inv(1), of m] q inv(2) ok by simp
qed

lemma process_one_inv:
  assumes e: "engine_inv e" and v: "\<And>m b. fst (try_pop (en_queue e)) = Some m \<Longrightarrow> served e (address m) = Some b \<Longrightarrow> valid_message b m"
  shows "\<exists>again e'. process_one junk e = Some (again, e') \<and> engine_inv e'"
proof (cases "items (en_queue e)")
  case Nil
  then show ?thesis using process_one_empty [OF e] by blast
next
  case (Cons m ms)
  then have "fst (try_pop (en_queue e)) = Some m" using sq.pop_result [OF engine_invD(4) [OF e]] by simp
  then show ?thesis using process_one_item [OF e Cons] v by blast
qed

lemma engine_reach_inv: "engine_reach cfg e \<Longrightarrow> engine_inv e"
proof (induction rule: engine_reach.induct)
  case (er_on_trade e cb)
  have "engine_inv (e\<lparr>en_trade_callback := cb\<rparr>)" using same_engine(1) [OF er_on_trade.IH] engine_invD(4,5) [OF er_on_trade.IH] by simp
  from on_books_ok(1) [OF this, of "set_trade_callback cb"] show ?case by (simp add: engine_set_trade_callback_def reach_on_trade)
next
  case (er_on_execution e cb)
  have "engine_inv (e\<lparr>en_execution_callback := cb\<rparr>)" using same_engine(1) [OF er_on_execution.IH] engine_invD(4,5) [OF er_on_execution.IH] by simp
  from on_books_ok(1) [OF this, of "set_execution_callback cb"] show ?case by (simp add: engine_set_execution_callback_def reach_on_execution)
next
  case (er_submit e x junk e' r)
  show ?case
  proof (cases "served e (o_symbol x)")
    case None
    then show ?thesis using er_submit.hyps(3) unknown_results(1) [OF er_submit.IH None, of junk] same_engine(1) [OF er_submit.IH, of e'] engine_invD(4,5) [OF er_submit.IH]
      by auto
  next
    case (Some b)
    then show ?thesis using submit_known [OF er_submit.IH Some er_submit.hyps(2) [OF Some], of junk] er_submit.hyps(3) by auto
  qed
next
  case (er_cancel e junk s i e' r)
  then show ?case using unknown_results(2) [OF er_cancel.IH, of s junk i] engine_cancel_known [OF er_cancel.IH, of s _ junk i]
    by (cases "served e s") auto
next
  case (er_replace e s i p q junk e' r)
  then show ?case using unknown_results(3) [OF er_replace.IH, of s junk i p q] engine_replace_known [OF er_replace.IH, of s _ i p q junk]
    by (cases "served e s") fastforce+
next
  case (er_process e junk again e')
  then show ?case using process_one_inv [OF er_process.IH er_process.hyps(2), of junk] by auto
next
  case (er_reset e)
  then show ?case using same_engine(1) [OF er_reset.IH, of "reset_stats e"] engine_invD(4,5) [OF er_reset.IH] by (simp add: reset_stats_def)
next
  case (er_stop e)
  then show ?case using same_engine(1) [OF er_stop.IH, of "engine_stop e"] engine_invD(4,5) [OF er_stop.IH] by (simp add: engine_stop_def)
qed (simp_all add: new_engine_inv add_symbol_ok push_message_ok)

end
