(* ===== verification/Engine_Properties.thy ===== *)
theory Engine_Properties
  imports Engine_Runs Demo_Book
begin

text \<open>
  The properties of the matching engine, with the small engine they are instantiated at.
\<close>

section \<open>A small engine for the witnesses\<close>

definition demo_mem :: inbound_message where
  "demo_mem = \<lparr>m_type = NewOrder, m_order = order_default, m_order_id = 0, m_symbol = symbol_default, m_new_price = 0, m_new_qty = 0\<rparr>"

definition demo_engine :: engine where
  "demo_engine = add_symbol (\<lambda>n. of_nat n) demo_symbol (engine_set_trade_callback (Some 0) (new_engine demo_mem default_engine_config))"

definition demo_message :: "order \<Rightarrow> inbound_message" where
  "demo_message x = (new_message demo_mem)\<lparr>m_type := NewOrder, m_order := x\<rparr>"

definition demo_orders :: "inbound_message list" where
  "demo_orders = [demo_message (demo_order 1 Sell 100 50 Limit Day), demo_message (demo_order 2 Buy 100 20 Limit Day)]"

definition demo_loaded :: engine where
  "demo_loaded = snd (enqueue_order demo_mem (demo_order 2 Buy 100 20 Limit Day)
     (snd (enqueue_order demo_mem (demo_order 1 Sell 100 50 Limit Day) demo_engine)))"

lemma demo_order_symbol [simp]: "o_symbol (demo_order i s p q ty tif) = demo_symbol"
  by (simp add: demo_order_def mk_order_def)

lemma demo_engine_reach: "engine_reach default_engine_config demo_engine"
  unfolding demo_engine_def by (intro er_symbol er_on_trade er_new)

lemma demo_engine_facts: "served demo_engine demo_symbol = Some (demo_start default_config)" "items (en_queue demo_engine) = []"
  "s \<noteq> demo_symbol \<Longrightarrow> served demo_engine s = None"
proof -
  let ?e = "engine_set_trade_callback (Some 0) (new_engine demo_mem default_engine_config)"
  have r: "engine_inv ?e" by (rule engine_reach_inv [OF er_on_trade [OF er_new]])
  have "blank_book (\<lambda>n. of_nat n) demo_symbol ?e = demo_start default_config"
    by (simp add: blank_book_def demo_start_def engine_set_trade_callback_def on_books_def new_engine_def book_config_of_def default_engine_config_def)
  then show "served demo_engine demo_symbol = Some (demo_start default_config)"
    unfolding demo_engine_def using add_symbol_ok(2) [OF r] by simp
  have "en_queue demo_engine = en_queue (new_engine demo_mem default_engine_config)"
    by (simp add: demo_engine_def add_symbol_shape engine_set_trade_callback_def on_books_def)
  then show "items (en_queue demo_engine) = []" using new_engine_inv(3) by simp
  have "served ?e s = None"
    by (simp add: served_def get_book_def engine_set_trade_callback_def on_books_def new_engine_def)
  then show "s \<noteq> demo_symbol \<Longrightarrow> served demo_engine s = None"
    unfolding demo_engine_def using add_symbol_ok(2) [OF r] by simp
qed

lemma enqueue_order_push: "enqueue_order demo_mem x e = push_message (demo_message x) e"
  by (simp add: enqueue_order_def demo_message_def)

lemma demo_loaded_facts: "engine_reach default_engine_config demo_loaded" "served demo_loaded = served demo_engine"
  "items (en_queue demo_loaded) = demo_orders"
proof -
  have c: "INBOUND_CAPACITY = 65536" by (simp add: INBOUND_CAPACITY_def)
  obtain ok1 e1 where p1: "push_message (demo_message (demo_order 1 Sell 100 50 Limit Day)) demo_engine = (ok1, e1)" by (cases "push_message (demo_message (demo_order 1 Sell 100 50 Limit Day)) demo_engine")
  obtain ok2 e2 where p2: "push_message (demo_message (demo_order 2 Buy 100 20 Limit Day)) e1 = (ok2, e2)" by (cases "push_message (demo_message (demo_order 2 Buy 100 20 Limit Day)) e1")
  note f1 = push_message_ok [OF engine_reach_inv [OF demo_engine_reach] p1]
  note f2 = push_message_ok [OF f1(1) p2]
  have e2: "demo_loaded = e2" by (simp add: demo_loaded_def enqueue_order_push p1 p2)
  show "engine_reach default_engine_config demo_loaded"
    unfolding e2 by (rule er_push [OF er_push [OF demo_engine_reach p1] p2])
  show "served demo_loaded = served demo_engine" using f1(2) f2(2) e2 by simp
  show "items (en_queue demo_loaded) = demo_orders" using f1(4,5) f2(4,5) demo_engine_facts(2) by (simp add: e2 c demo_orders_def)
qed

lemma demo_wf: "q \<noteq> 0 \<Longrightarrow> p < INVALID_PRICE \<Longrightarrow> order_wf (demo_order i s p q Limit Day)"
  by (simp add: demo_order_def mk_order_def order_wf_def)

lemma demo_valid_order: "reachable default_config b \<Longrightarrow> 0 < p \<Longrightarrow> p < INVALID_PRICE \<Longrightarrow> q \<noteq> 0 \<Longrightarrow> valid_order b (demo_order i s p q Limit Day)"
  using demo_wf [of q p i s] valid_order_off [of default_config b "demo_order i s p q Limit Day"]
  by (simp add: demo_order_def mk_order_def)

lemma demo_apply:
  assumes "reachable default_config b" "0 < p" "p < INVALID_PRICE" "q \<noteq> 0"
  shows "apply_message junk (demo_message (demo_order i s p q Limit Day)) b = Some (demo_add (demo_order i s p q Limit Day) b)"
  using add_total [OF assms(1) demo_valid_order [OF assms, of i s]]
  by (auto simp: apply_message_def demo_message_def demo_add_def)

lemma demo_address: "address (demo_message x) = o_symbol x" "valid_message b (demo_message x) = valid_order b x"
  by (simp_all add: address_def demo_message_def valid_message_def)

definition demo_after :: book where
  "demo_after = demo_add (demo_order 2 Buy 100 20 Limit Day) (demo_add (demo_order 1 Sell 100 50 Limit Day) (demo_start default_config))"

lemma demo_after_state: "demo_state demo_after ([], [(100, 1, 30)])"
proof -
  have 1: "demo_state (demo_add (demo_order 1 Sell 100 50 Limit Day) (demo_start default_config)) ([], [(100, 1, 50)])"
    by (rule demo_next [OF demo_start_state]; code_simp)
  show ?thesis unfolding demo_after_def by (rule demo_next [OF 1]; code_simp)
qed

lemma demo_run: "valid_messages junk (served demo_loaded) demo_orders" "apply_all junk demo_orders (demo_start default_config) = Some demo_after"
proof -
  have r: "reachable default_config (demo_start default_config)" using demo_start_state by (simp add: demo_state_def)
  have 1: "demo_state (demo_add (demo_order 1 Sell 100 50 Limit Day) (demo_start default_config)) ([], [(100, 1, 50)])"
    by (rule demo_next [OF demo_start_state]; code_simp)
  then have r1: "reachable default_config (demo_add (demo_order 1 Sell 100 50 Limit Day) (demo_start default_config))"
    by (simp add: demo_state_def)
  show "valid_messages junk (served demo_loaded) demo_orders"
    using demo_engine_facts(1) demo_valid_order [OF r] demo_valid_order [OF r1]
    by (simp add: INVALID_PRICE_def demo_orders_def demo_loaded_facts(2) demo_address demo_apply [OF r])
  show "apply_all junk demo_orders (demo_start default_config) = Some demo_after"
    by (simp add: demo_orders_def demo_apply [OF r] demo_apply [OF r1] demo_after_def INVALID_PRICE_def)
qed

section \<open>Properties of the matching engine\<close>

text \<open>
  C4. \<^verbatim>\<open>process_queue\<close> on any engine a client can build returns, provided every queued message is
  valid for the book it finds. It handles the messages first in, first out, leaves the queue empty
  and reports their number, and the symbols do not interfere: the book of each symbol ends up as if
  only the messages addressed to it had been applied to it, in their order.
\<close>

theorem process_queue_per_symbol:
  assumes "engine_reach cfg e" "valid_messages junk (served e) (items (en_queue e))"
  shows "\<exists>e'. process_queue junk e = Some (length (items (en_queue e)), e') \<and>
    items (en_queue e') = [] \<and> engine_inv e' \<and>
    (\<forall>s. served e' s = Option.bind (served e s) (apply_all junk (filter (\<lambda>m. address m = s) (items (en_queue e))))) \<and>
    st_messages_processed (en_stats e') = st_messages_processed (en_stats e) + of_nat (length (items (en_queue e)))"
  using process_loop_drains [OF engine_reach_inv [OF assms(1)] assms(2), of 0] by (auto simp: process_queue_def)

theorem process_queue_per_symbol_witness:
  "\<exists>e'. process_queue (init_result 0) demo_loaded = Some (2, e') \<and>
     (\<exists>b. served e' demo_symbol = Some b \<and> entries Sell b = [(100, 1, 30)] \<and> entries Buy b = [])"
proof -
  have "filter (\<lambda>m. address m = demo_symbol) demo_orders = demo_orders" "length demo_orders = 2"
    by (simp_all add: demo_orders_def demo_address)
  with process_queue_per_symbol [OF demo_loaded_facts(1), of "init_result 0"] demo_run(1) demo_run(2) demo_after_state demo_engine_facts(1)
  show ?thesis by (fastforce simp: demo_loaded_facts demo_state_def)
qed


text \<open>
  C16. Memory safety of the engine: in every state a client can reach, the raw pointer of a symbol
  points to a live book, built for that symbol and that configuration by order-book operations; no
  two symbols share a book, no live book is unreachable, and the destructor leaves no book behind.
\<close>

theorem engine_memory_safe:
  assumes "engine_reach cfg e"
  shows "(\<forall>s a. get_book s e = Some a \<longrightarrow>
      (\<exists>b. en_heap e a = Some b \<and> b_symbol b = s \<and> reachable (book_config_of e) b) \<and>
      map_of (en_books e) s = Some a \<and> (\<forall>t. get_book t e = Some a \<longrightarrow> t = s)) \<and>
    (\<forall>a b. en_heap e a = Some b \<longrightarrow> get_book (b_symbol b) e = Some a) \<and> en_heap (engine_destroy e) = Map.empty"
proof -
  note e = engine_reach_inv [OF assms]
  have 1: "map_of (en_books e) s = get_book s e" for s using engine_invD(2) [OF e] by (simp add: get_book_def)
  have 2: "get_book (b_symbol b) e = Some a" if h: "en_heap e a = Some b" for a b
  proof -
    have "a \<in> ran (map_of (en_symbol_to_book e))" using h engine_invD(3) [OF e] by blast
    then obtain s where s: "get_book s e = Some a" by (auto simp: ran_def get_book_def)
    show ?thesis by (rule engine_ptr [OF e s]) (use s h in auto)
  qed
  have "en_heap (engine_destroy e) = Map.empty" by (rule destroy_frees [OF e])
  moreover have "\<forall>s a. get_book s e = Some a \<longrightarrow>
      (\<exists>b. en_heap e a = Some b \<and> b_symbol b = s \<and> reachable (book_config_of e) b) \<and>
      map_of (en_books e) s = Some a \<and> (\<forall>t. get_book t e = Some a \<longrightarrow> t = s)"
    using 1 engine_ptr [OF e] ptr_inj [OF e] by metis
  ultimately show ?thesis using 2 by blast
qed

theorem engine_memory_safe_witness:
  "\<exists>a b. get_book demo_symbol demo_loaded = Some a \<and> en_heap demo_loaded a = Some b \<and> b_symbol b = demo_symbol"
proof -
  have "get_book demo_symbol demo_loaded \<noteq> None"
    using demo_engine_facts(1) demo_loaded_facts(2) served_none [OF engine_reach_inv [OF demo_loaded_facts(1)], of demo_symbol] by simp
  then show ?thesis using engine_memory_safe [OF demo_loaded_facts(1)] by blast
qed

text \<open>
  C24. A direct submission for a served symbol is \<^verbatim>\<open>add_order\<close> on that symbol's book and touches no
  other book and no queued message. The counters: one order received; if it traded, one order
  matched, one trade executed however many fills there were, and the filled quantity as volume.
\<close>

theorem submit_order_routes:
  assumes "engine_reach cfg e" "served e (o_symbol x) = Some b" "valid_order b x"
  shows "\<exists>b' r e'. add_order x b = Some (b', r) \<and> submit_order junk x e = Some (e', r) \<and>
    served e' = (served e)(o_symbol x \<mapsto> b') \<and> items (en_queue e') = items (en_queue e) \<and>
    (let hit = (if r_success r \<and> 0 < r_filled_qty r then 1 else 0); s = en_stats e in
     en_stats e' = s\<lparr>st_orders_received := st_orders_received s + 1, st_orders_matched := st_orders_matched s + hit,
       st_trades_executed := st_trades_executed s + hit, st_total_volume := st_total_volume s + hit * ucast (r_filled_qty r)\<rparr>)"
proof -
  from submit_known [OF engine_reach_inv [OF assms(1)] assms(2,3), of junk] obtain b' r e' where
    1: "add_order x b = Some (b', r)" "submit_order junk x e = Some (e', r)" "served e' = (served e)(o_symbol x \<mapsto> b')" "en_queue e' = en_queue e"
    "en_stats e' = count_match r ((en_stats e)\<lparr>st_orders_received := st_orders_received (en_stats e) + 1\<rparr>)" by blast
  show ?thesis by (intro exI [of _ b'] exI [of _ r] exI [of _ e']) (simp add: 1 count_match_def Let_def)
qed

theorem submit_order_routes_witness:
  "\<exists>e' r. submit_order (init_result 0) (demo_order 7 Sell 100 50 Limit Day) demo_engine = Some (e', r) \<and>
     st_orders_received (en_stats e') = 1"
proof -
  have r: "reachable default_config (demo_start default_config)" using demo_start_state by (simp add: demo_state_def)
  have "valid_order (demo_start default_config) (demo_order 7 Sell 100 50 Limit Day)"
    by (rule demo_valid_order [OF r]) (simp_all add: INVALID_PRICE_def)
  from submit_order_routes [OF demo_engine_reach _ this, of "init_result 0"] demo_engine_facts(1)
  obtain e' r where "submit_order (init_result 0) (demo_order 7 Sell 100 50 Limit Day) demo_engine = Some (e', r)"
    "st_orders_received (en_stats e') = st_orders_received (en_stats demo_engine) + 1"
    by (auto simp: Let_def)
  moreover have "st_orders_received (en_stats demo_engine) = 0"
    by (simp add: demo_engine_def add_symbol_shape engine_set_trade_callback_def on_books_def new_engine_def zero_stats_def)
  ultimately show ?thesis by auto
qed

text \<open>
  A request for a symbol that is not served is answered with \<^verbatim>\<open>UnknownSymbol\<close> and changes no book,
  no queue and no counter but the number of orders received; apart from the two fields written the
  returned result is the uninitialised memory it started as.
\<close>

theorem unknown_symbol_rejected:
  assumes "engine_reach cfg e" "served e (o_symbol x) = None" "served e s = None"
  shows "(\<exists>e'. submit_order junk x e = Some (e', junk\<lparr>r_success := False, r_reject_reason := UnknownSymbol\<rparr>) \<and> served e' = served e \<and>
      en_queue e' = en_queue e \<and>
      en_stats e' = (en_stats e)\<lparr>st_orders_received := st_orders_received (en_stats e) + 1\<rparr>) \<and>
    engine_cancel junk s i e = Some (e, junk\<lparr>r_success := False, r_reject_reason := UnknownSymbol\<rparr>) \<and>
    engine_replace junk s i p q e = Some (e, junk\<lparr>r_success := False, r_reject_reason := UnknownSymbol\<rparr>)"
proof -
  note e = engine_reach_inv [OF assms(1)]
  have "served (e\<lparr>en_stats := z\<rparr>) = served e" for z
    using same_engine(2) [OF e, of "e\<lparr>en_stats := z\<rparr>"] engine_invD(4,5) [OF e] by simp
  then show ?thesis using unknown_results [OF e] assms(2,3) by (simp add: unknown_symbol_def)
qed

theorem unknown_symbol_rejected_witness:
  "engine_cancel (init_result 0) symbol_default 5 demo_engine =
     Some (demo_engine, (init_result 0)\<lparr>r_success := False, r_reject_reason := UnknownSymbol\<rparr>)"
proof -
  have "symbol_default \<noteq> demo_symbol" by code_simp
  then have n: "served demo_engine symbol_default = None" by (rule demo_engine_facts(3))
  then have "served demo_engine (o_symbol order_default) = None" by (simp add: order_default_def)
  from unknown_symbol_rejected [OF demo_engine_reach this n] show ?thesis by blast
qed

text \<open>
  Adding a symbol gives it an empty book with the engine's callbacks and leaves the other symbols
  alone. Nothing protects a symbol that is already served: its book is destroyed with every resting
  order in it, and no report is sent.
\<close>

theorem add_symbol_replaces_book:
  assumes "engine_reach cfg e"
  shows "\<exists>b. served (add_symbol clock s e) = (served e)(s \<mapsto> b) \<and> engine_inv (add_symbol clock s e) \<and>
    b_symbol b = s \<and> order_count b = 0 \<and> entries Buy b = [] \<and> entries Sell b = [] \<and>
    b_on_trade b = en_trade_callback e \<and> b_on_execution b = en_execution_callback e \<and> b_out b = []"
proof -
  have "b_on_trade (blank_book clock s e) = en_trade_callback e" "b_on_execution (blank_book clock s e) = en_execution_callback e"
    "b_out (blank_book clock s e) = []"
    by (simp_all add: blank_book_def Let_def set_trade_callback_def set_execution_callback_def new_book_def)
  then show ?thesis
    using add_symbol_ok [OF engine_reach_inv [OF assms], of clock s] blank_book_facts [where e = e and clock = clock and s = s] by (auto simp: order_count_def)
qed

theorem add_symbol_replaces_book_witness:
  "\<exists>b. served (add_symbol (\<lambda>n. 0) demo_symbol demo_engine) demo_symbol = Some b \<and> order_count b = 0"
  using add_symbol_replaces_book [OF demo_engine_reach, of "\<lambda>n. 0" demo_symbol] by auto

text \<open>
  Enqueueing stores exactly the request, behind everything queued before it, and is refused exactly
  when 65535 messages are waiting, whatever \<^verbatim>\<open>inbound_queue_size\<close> the configuration asks for; a
  refusal changes nothing that can be observed.
\<close>

theorem enqueue_bounded:
  assumes "engine_reach cfg e"
    "(ok, e') = (case m_type m of NewOrder \<Rightarrow> enqueue_order mem (m_order m) e
        | CancelOrder \<Rightarrow> enqueue_cancel mem (m_symbol m) (m_order_id m) e
        | ReplaceOrder \<Rightarrow> enqueue_replace mem (m_symbol m) (m_order_id m) (m_new_price m) (m_new_qty m) e)"
  shows "(ok \<longleftrightarrow> length (items (en_queue e)) < 65535) \<and> served e' = served e \<and> en_stats e' = en_stats e \<and>
    (if ok then \<exists>z. items (en_queue e') = items (en_queue e) @ [z] \<and> address z = address m \<and>
       apply_message junk z = apply_message junk m
     else items (en_queue e') = items (en_queue e))"
proof -
  obtain z where z: "push_message z e = (ok, e')" "address z = address m" "apply_message junk z = apply_message junk m"
    using assms(2) by (cases "m_type m")
      (auto simp: enqueue_order_def enqueue_cancel_def enqueue_replace_def address_def apply_message_def fun_eq_iff new_message_def)
  from push_message_ok [OF engine_reach_inv [OF assms(1)] z(1)] z(2,3) show ?thesis by (auto simp: INBOUND_CAPACITY_def)
qed


theorem enqueue_bounded_witness:
  "fst (enqueue_cancel demo_mem demo_symbol 1 demo_loaded) = True \<and>
   length (items (en_queue (snd (enqueue_cancel demo_mem demo_symbol 1 demo_loaded)))) = 3"
proof -
  let ?m = "demo_mem\<lparr>m_type := CancelOrder, m_order_id := 1, m_symbol := demo_symbol\<rparr>"
  have "(fst (enqueue_cancel demo_mem demo_symbol 1 demo_loaded), snd (enqueue_cancel demo_mem demo_symbol 1 demo_loaded)) =
      (case m_type ?m of NewOrder \<Rightarrow> enqueue_order demo_mem (m_order ?m) demo_loaded
        | CancelOrder \<Rightarrow> enqueue_cancel demo_mem (m_symbol ?m) (m_order_id ?m) demo_loaded
        | ReplaceOrder \<Rightarrow> enqueue_replace demo_mem (m_symbol ?m) (m_order_id ?m) (m_new_price ?m) (m_new_qty ?m) demo_loaded)"
    by simp
  from enqueue_bounded [OF demo_loaded_facts(1) this, of "init_result 0"] show ?thesis
    by (auto simp: demo_loaded_facts(3) demo_orders_def)
qed

section \<open>The blocking loop\<close>

lemma process_one_running: "process_one junk e = Some (again, e') \<Longrightarrow> en_running e' = en_running e"
  by (auto simp: process_one_def handle_message_def submit_order_def engine_cancel_def engine_replace_def Let_def split_beta
      split: prod.splits option.splits message_type.splits if_splits)

lemma push_message_running: "push_message m e = (ok, e') \<Longrightarrow> en_running e' = en_running e"
  by (auto simp: push_message_def split: prod.splits)

definition run_phase :: "run_event list \<Rightarrow> run_pc \<times> engine \<Rightarrow> bool" where
  "run_phase evs t \<longleftrightarrow>
     (Own \<notin> set evs \<and> fst t = RunEntry) \<or>
     (\<exists>xs ys. evs = xs @ Own # ys \<and> Own \<notin> set xs \<and> fst t \<noteq> RunEntry \<and>
        (Stop \<in> set ys \<or> (en_running (snd t) \<and> fst t \<noteq> RunReturned)))"

lemma run_phase_step:
  assumes "run_phase evs t" "run_step junk ev t u"
  shows "run_phase (evs @ [ev]) u"
proof -
  from assms(1) consider (before) "Own \<notin> set evs" "fst t = RunEntry"
    | (since) xs ys where "evs = xs @ Own # ys" "Own \<notin> set xs" "fst t \<noteq> RunEntry"
        "Stop \<in> set ys \<or> en_running (snd t) \<and> fst t \<noteq> RunReturned"
    unfolding run_phase_def by blast
  then show ?thesis
  proof cases
    case before
    from assms(2) before show ?thesis unfolding run_phase_def
      by (cases rule: run_step.cases) (auto intro: exI [of _ evs])
  next
    case since
    have "fst u \<noteq> RunEntry" "Stop \<in> set (ys @ [ev]) \<or> en_running (snd u) \<and> fst u \<noteq> RunReturned"
      using assms(2) since(3,4) by (cases rule: run_step.cases; auto simp: process_one_running push_message_running)+
    with since(1,2) show ?thesis unfolding run_phase_def
      by (intro disjI2 exI [of _ xs] exI [of _ "ys @ [ev]"]) auto
  qed
qed

lemma run_trace_phase: "run_trace junk s evs t \<Longrightarrow> fst s = RunEntry \<Longrightarrow> run_phase evs t"
  by (induction rule: run_trace.induct) (auto simp: run_phase_def [of "[]"] intro: run_phase_step)

text \<open>
  C38. The blocking loop returns only if a stop request arrives after \<^verbatim>\<open>run\<close> has started: a stop that
  comes before its first step is overwritten and lost, and without another one the loop never
  returns. A stop that finds the loop at its test makes the next step the last.
\<close>

theorem run_returns_only_after_stop:
  assumes "run_trace junk (RunEntry, e) evs (RunReturned, e')"
  shows "(\<exists>before since. evs = before @ Own # since \<and> Own \<notin> set before \<and> Stop \<in> set since) \<and>
    run_step junk Own (RunEntry, engine_stop e) = (\<lambda>t. t = (RunTest, e\<lparr>en_running := True\<rparr>)) \<and>
    run_step junk Own (RunTest, engine_stop e) = (\<lambda>t. t = (RunReturned, engine_stop e))"
  using run_trace_phase [OF assms]
  by (auto simp: run_phase_def own_step fun_eq_iff engine_stop_def)

theorem run_returns_only_after_stop_witness:
  "\<exists>e' before since. run_trace (init_result 0) (RunEntry, demo_engine) [Stop, Own, Stop, Own] (RunReturned, e') \<and>
     [Stop, Own, Stop, Own] = before @ Own # since \<and> Own \<notin> set before \<and> Stop \<in> set since"
proof -
  let ?s = "engine_stop demo_engine" and ?r = "demo_engine\<lparr>en_running := True\<rparr>"
  have r: "engine_stop ?s\<lparr>en_running := True\<rparr> = ?r" "engine_stop ?r = ?s" by (simp_all add: engine_stop_def)
  have e: "run_step (init_result 0) Own (RunEntry, ?s) (RunTest, ?r)"
    using run_entry [of "init_result 0" ?s] by (simp add: engine_stop_def)
  have l: "run_step (init_result 0) Own (RunTest, ?s) (RunReturned, ?s)" by (rule run_leave) (simp add: engine_stop_def)
  note st = run_stopped [of "init_result 0"]
  have t: "run_trace (init_result 0) (RunEntry, demo_engine) [Stop, Own, Stop, Own] (RunReturned, ?s)"
    using trace_step [OF trace_step [OF trace_step [OF trace_step [OF trace_start st [of RunEntry demo_engine]] e] st] l [folded r(2)]] r
    by (simp add: engine_stop_def)
  with run_returns_only_after_stop [OF t] show ?thesis by blast
qed

end
