(* ===== verification/Histogram.thy ===== *)
theory Histogram
  imports Complex_Main Prelude
begin

text \<open>
  The histograms of \<^verbatim>\<open>include/utils/histogram.hpp\<close>: the log-linear latency histogram with its
  bucketing, percentiles and merge, and the linear counter histogram.
\<close>

unbundle bit_operations_syntax

section \<open>Latency histogram\<close>

definition NUM_BUCKETS :: nat where
  "NUM_BUCKETS = 256"

definition MAX_VALUE :: "64 word" where
  "MAX_VALUE = 1000000000"

record latency_histogram =
  h_count :: "64 word"
  h_sum :: "64 word"
  h_min :: "64 word"
  h_max :: "64 word"
  h_buckets :: "64 word list"

definition hist_reset :: latency_histogram where
  "hist_reset = \<lparr>h_count = 0, h_sum = 0, h_min = MAX_VALUE, h_max = 0, h_buckets = replicate NUM_BUCKETS 0\<rparr>"

text \<open>\<^verbatim>\<open>__builtin_clzll\<close>: the zero bits above the highest one.\<close>

primrec leading_zeros :: "nat \<Rightarrow> 64 word \<Rightarrow> nat" where
  "leading_zeros 0 v = 0"
| "leading_zeros (Suc n) v = (if bit v n then 0 else Suc (leading_zeros n v))"

definition value_to_bucket :: "64 word \<Rightarrow> nat" where
  "value_to_bucket v =
     (if v < 128 then unat v
      else if MAX_VALUE \<le> v then NUM_BUCKETS - 1
      else (let log = 63 - leading_zeros 64 v;
                bucket = 128 + (log - 7) * 16 + unat (drop_bit (log - 4) v AND 0xF)
            in min bucket (NUM_BUCKETS - 1)))"

definition bucket_to_value :: "nat \<Rightarrow> 64 word" where
  "bucket_to_value bucket =
     (if bucket < 128 then of_nat bucket
      else if NUM_BUCKETS \<le> bucket then MAX_VALUE
      else (let log = 7 + (bucket - 128) div 16; frac = (bucket - 128) mod 16
            in push_bit log 1 + push_bit (log - 4) (of_nat frac)))"

definition hist_record :: "64 word \<Rightarrow> latency_histogram \<Rightarrow> latency_histogram" where
  "hist_record v h =
     (let i = value_to_bucket v in
      h\<lparr>h_count := h_count h + 1, h_sum := h_sum h + v, h_min := min (h_min h) v, h_max := max (h_max h) v,
        h_buckets := (h_buckets h)[i := h_buckets h ! i + 1]\<rparr>)"

fun scan_buckets :: "64 word \<Rightarrow> 64 word \<Rightarrow> nat \<Rightarrow> 64 word list \<Rightarrow> nat option" where
  "scan_buckets target cumulative i [] = None"
| "scan_buckets target cumulative i (n # ns) =
     (if target \<le> cumulative + n then Some i else scan_buckets target (cumulative + n) (Suc i) ns)"

text \<open>
  Arithmetic on \<^verbatim>\<open>double\<close> is arithmetic on reals with every result rounded by \<open>rnd\<close>. The conversion to
  an integer truncates; a result that does not fit is undefined behaviour, \<^const>\<open>None\<close>.
\<close>

definition rank_of :: "(real \<Rightarrow> real) \<Rightarrow> 64 word \<Rightarrow> real \<Rightarrow> nat option" where
  "rank_of rnd n p =
     (let t = rnd (rnd (rnd (real (unat n)) * p) / 100)
      in if - 1 < t \<and> t < 2 ^ 64 then Some (nat \<lfloor>t\<rfloor>) else None)"

definition percentile :: "(real \<Rightarrow> real) \<Rightarrow> real \<Rightarrow> latency_histogram \<Rightarrow> 64 word option" where
  "percentile rnd p h =
     (if h_count h = 0 then Some 0
      else map_option (\<lambda>target.
             case scan_buckets (of_nat target) 0 0 (h_buckets h) of
               Some i \<Rightarrow> bucket_to_value i
             | None \<Rightarrow> h_max h)
           (rank_of rnd (h_count h) p))"

definition p50 :: "(real \<Rightarrow> real) \<Rightarrow> latency_histogram \<Rightarrow> 64 word option" where
  "p50 rnd h = percentile rnd 50 h"

definition p90 :: "(real \<Rightarrow> real) \<Rightarrow> latency_histogram \<Rightarrow> 64 word option" where
  "p90 rnd h = percentile rnd 90 h"

definition p95 :: "(real \<Rightarrow> real) \<Rightarrow> latency_histogram \<Rightarrow> 64 word option" where
  "p95 rnd h = percentile rnd 95 h"

definition p99 :: "(real \<Rightarrow> real) \<Rightarrow> latency_histogram \<Rightarrow> 64 word option" where
  "p99 rnd h = percentile rnd 99 h"

definition p999 :: "(real \<Rightarrow> real) \<Rightarrow> latency_histogram \<Rightarrow> 64 word option" where
  "p999 rnd h = percentile rnd (rnd (999 / 10)) h"

definition hist_min :: "latency_histogram \<Rightarrow> 64 word" where
  "hist_min h = (if 0 < h_count h then h_min h else 0)"

definition hist_mean :: "(real \<Rightarrow> real) \<Rightarrow> latency_histogram \<Rightarrow> real" where
  "hist_mean rnd h = (if 0 < h_count h then rnd (rnd (real (unat (h_sum h))) / rnd (real (unat (h_count h)))) else 0)"

definition hist_merge :: "latency_histogram \<Rightarrow> latency_histogram \<Rightarrow> latency_histogram" where
  "hist_merge other h =
     h\<lparr>h_count := h_count h + h_count other, h_sum := h_sum h + h_sum other,
       h_min := min (h_min h) (h_min other), h_max := max (h_max h) (h_max other),
       h_buckets := map (\<lambda>i. h_buckets h ! i + h_buckets other ! i) [0..<NUM_BUCKETS]\<rparr>"

definition bucket_boundaries :: "64 word list" where
  "bucket_boundaries = map bucket_to_value [0..<NUM_BUCKETS + 1]"

section \<open>Counter histogram\<close>

text \<open>The template parameters are arguments; the product is a 64-bit product.\<close>

record counter_histogram =
  k_count :: "64 word"
  k_sum :: "64 word"
  k_buckets :: "64 word list"

definition counter_reset :: "nat \<Rightarrow> counter_histogram" where
  "counter_reset num = \<lparr>k_count = 0, k_sum = 0, k_buckets = replicate num 0\<rparr>"

definition counter_bucket :: "nat \<Rightarrow> 64 word \<Rightarrow> 64 word \<Rightarrow> nat" where
  "counter_bucket num max_value v = min (unat (v * of_nat num div max_value)) (num - 1)"

definition counter_record :: "nat \<Rightarrow> 64 word \<Rightarrow> 64 word \<Rightarrow> counter_histogram \<Rightarrow> counter_histogram" where
  "counter_record num max_value v k =
     (let i = counter_bucket num max_value v in
      k\<lparr>k_count := k_count k + 1, k_sum := k_sum k + v, k_buckets := (k_buckets k)[i := k_buckets k ! i + 1]\<rparr>)"

definition counter_mean :: "(real \<Rightarrow> real) \<Rightarrow> counter_histogram \<Rightarrow> real" where
  "counter_mean rnd k = (if 0 < k_count k then rnd (rnd (real (unat (k_sum k))) / rnd (real (unat (k_count k)))) else 0)"

end
