(* ===== verification/Histogram_Properties.thy ===== *)
theory Histogram_Properties
  imports Histogram "HOL-Library.Multiset"
begin

text \<open>
  What the histograms keep of the values recorded into them: the accuracy of the buckets, the
  summary a histogram is of a multiset of values, and percentiles as order statistics.
\<close>

unbundle bit_operations_syntax

section \<open>The highest bit\<close>

lemma bit_high: "unat (v :: 64 word) < 2 ^ Suc n \<Longrightarrow> n < 64 \<Longrightarrow> bit v n \<longleftrightarrow> 2 ^ n \<le> unat v"
proof -
  assume v: "unat v < 2 ^ Suc n" and n: "n < 64"
  have "bit v n \<longleftrightarrow> bit (unat v) n" using n by (simp add: bit_unsigned_iff)
  also have "\<dots> \<longleftrightarrow> odd (unat v div 2 ^ n)" by (simp add: bit_iff_odd)
  also have "\<dots> \<longleftrightarrow> 2 ^ n \<le> unat v"
  proof (cases "2 ^ n \<le> unat v")
    case True
    then have "unat v div 2 ^ n = 1" using v by (intro div_nat_eqI) simp_all
    then show ?thesis using True by simp
  qed simp
  finally show ?thesis .
qed

lemma leading_zeros_bounds:
  "v \<noteq> 0 \<Longrightarrow> unat v < 2 ^ n \<Longrightarrow> n \<le> 64 \<Longrightarrow>
   leading_zeros n v < n \<and> 2 ^ (n - 1 - leading_zeros n v) \<le> unat v \<and> unat v < 2 ^ (n - leading_zeros n v)"
proof (induction n)
  case (Suc n)
  show ?case
  proof (cases "bit v n")
    case True
    then show ?thesis using Suc.prems bit_high [of v n] by simp
  next
    case False
    then have "unat v < 2 ^ n" using Suc.prems bit_high [of v n] by simp
    then show ?thesis using Suc False by (simp add: Suc_diff_le less_imp_le_nat)
  qed
qed (auto simp: unat_eq_zero)

definition log2 :: "64 word \<Rightarrow> nat" where
  "log2 v = 63 - leading_zeros 64 v"

lemma log2_bounds:
  assumes "v \<noteq> 0"
  shows "2 ^ log2 v \<le> unat v" "unat v < 2 * 2 ^ log2 v" "log2 v \<le> 63"
proof -
  have "unat v < 2 ^ 64" using unsigned_less [of v, where ?'a = nat] by simp
  note b = leading_zeros_bounds [OF assms this]
  then have "Suc (log2 v) = 64 - leading_zeros 64 v" unfolding log2_def by linarith
  then show "2 ^ log2 v \<le> unat v" "unat v < 2 * 2 ^ log2 v" "log2 v \<le> 63" using b by (simp_all add: log2_def flip: power_Suc)
qed

text \<open>The bucket as a closed formula, and what it says about the value.\<close>

definition raw_bucket :: "nat \<Rightarrow> nat \<Rightarrow> nat" where
  "raw_bucket l n = 16 * l + n div 2 ^ (l - 4)"

lemma upper_digits:
  assumes "(2 :: nat) ^ l \<le> n" "n < 2 * 2 ^ l" "4 \<le> l"
  shows "16 \<le> n div 2 ^ (l - 4)" "n div 2 ^ (l - 4) < 32"
proof -
  have l: "(2 :: nat) ^ l = 16 * 2 ^ (l - 4)" using assms(3) power_add [of "2 :: nat" 4 "l - 4"] by simp
  show "16 \<le> n div 2 ^ (l - 4)" using assms(1) l by (simp add: less_eq_div_iff_mult_less_eq)
  show "n div 2 ^ (l - 4) < 32" using assms(2) l by (simp add: div_less_iff_less_mult)
qed

lemma unat_low_digit: "unat ((w :: 64 word) AND 15) = unat w mod 16"
proof -
  have "(15 :: 64 word) = mask 4" by (simp add: mask_eq_exp_minus_1)
  then have "unat (w AND 15) = unat (take_bit 4 w)" by (simp only: take_bit_eq_mask)
  also have "\<dots> = unat w mod 16" unfolding unsigned_take_bit_eq by (simp add: take_bit_eq_mod)
  finally show ?thesis .
qed

lemma value_to_bucket_formula:
  assumes "128 \<le> v" "v < MAX_VALUE"
  shows "value_to_bucket v = min (raw_bucket (log2 v) (unat v)) 255" "7 \<le> log2 v"
proof -
  have v: "v \<noteq> 0" "128 \<le> unat v" using assms(1) by (auto simp: word_le_nat_alt)
  note b = log2_bounds [OF v(1)]
  show l: "7 \<le> log2 v"
  proof (rule ccontr)
    assume "\<not> 7 \<le> log2 v"
    then have "(2 :: nat) ^ log2 v \<le> 2 ^ 6" by (intro power_increasing) auto
    then show False using b v by simp
  qed
  note d = upper_digits [OF b(1,2)]
  have "unat (drop_bit (log2 v - 4) v AND 0xF) = unat v div 2 ^ (log2 v - 4) - 16"
  proof -
    have "unat (drop_bit (log2 v - 4) v AND 0xF) = unat v div 2 ^ (log2 v - 4) mod 16"
      unfolding unat_low_digit unat_drop_bit_eq by (simp add: drop_bit_eq_div)
    then show ?thesis using d l by (simp add: mod_if [of "unat v div _" 16] le_mod_geq)
  qed
  moreover have "128 + (log2 v - 7) * 16 + (unat v div 2 ^ (log2 v - 4) - 16) = raw_bucket (log2 v) (unat v)"
    using l d unfolding raw_bucket_def by linarith
  ultimately show "value_to_bucket v = min (raw_bucket (log2 v) (unat v)) 255"
    using assms unfolding value_to_bucket_def log2_def [symmetric] Let_def by (simp add: NUM_BUCKETS_def not_less [symmetric])
qed

definition edge :: "nat \<Rightarrow> nat" where
  "edge b = (if b < 128 then b else (16 + (b - 128) mod 16) * 2 ^ (3 + (b - 128) div 16))"

lemma bucket_to_value_edge:
  assumes "b < 256"
  shows "unat (bucket_to_value b) = edge b"
proof (cases "b < 128")
  case True
  then show ?thesis by (simp add: bucket_to_value_def edge_def unsigned_of_nat take_bit_nat_eq_self)
next
  case False
  let ?k = "(b - 128) div 16" and ?f = "(b - 128) mod 16"
  have k: "?k < 8" and f: "?f < 16" using assms by (simp_all add: less_mult_imp_div_less)
  have "push_bit (7 + ?k) 1 + push_bit (3 + ?k) (of_nat ?f) = (of_nat ((16 + ?f) * 2 ^ (3 + ?k)) :: 64 word)"
    by (simp add: push_bit_eq_mult power_add algebra_simps)
  moreover have "(16 + ?f) * 2 ^ (3 + ?k) < 2 ^ 64"
  proof -
    have "(2 :: nat) ^ (3 + ?k) \<le> 2 ^ 11" using k by (intro power_increasing) auto
    then have "(16 + ?f) * 2 ^ (3 + ?k) \<le> 32 * 2 ^ 11" using f by (intro mult_le_mono) auto
    then show ?thesis by simp
  qed
  moreover have "bucket_to_value b = push_bit (7 + ?k) 1 + push_bit (3 + ?k) (of_nat ?f)" "edge b = (16 + ?f) * 2 ^ (3 + ?k)"
    using False assms by (simp_all add: bucket_to_value_def edge_def NUM_BUCKETS_def Let_def)
  moreover have "n < 2 ^ 64 \<Longrightarrow> unat (of_nat n :: 64 word) = n" for n
    by (simp add: unsigned_of_nat take_bit_nat_eq_self)
  ultimately show ?thesis by metis
qed

lemma raw_bucket_edge:
  assumes "7 \<le> l" "16 \<le> n div 2 ^ (l - 4)" "n div 2 ^ (l - 4) < 32"
  shows "edge (raw_bucket l n) \<le> n" "n < edge (raw_bucket l n) + 2 ^ (l - 4)" "128 \<le> raw_bucket l n"
    "edge (raw_bucket l n) = n div 2 ^ (l - 4) * 2 ^ (l - 4)"
proof -
  let ?q = "n div 2 ^ (l - 4)"
  from assms(1) obtain k where k: "l = 7 + k" using le_Suc_ex by blast
  from assms(2) obtain f where f: "?q = 16 + f" using le_Suc_ex by blast
  have r: "raw_bucket l n = 128 + 16 * k + f" and f16: "f < 16" using assms(3) f by (simp_all add: raw_bucket_def k)
  then show "128 \<le> raw_bucket l n" by simp
  have "(raw_bucket l n - 128) mod 16 = f" "(raw_bucket l n - 128) div 16 = k" using r f16 by simp_all
  then have e: "edge (raw_bucket l n) = ?q * 2 ^ (l - 4)" using r f by (simp add: edge_def k)
  have m: "?q * 2 ^ (l - 4) + n mod 2 ^ (l - 4) = n" "n mod 2 ^ (l - 4) < 2 ^ (l - 4)"
    using div_mult_mod_eq [of n "2 ^ (l - 4)"] by simp_all
  show "edge (raw_bucket l n) = ?q * 2 ^ (l - 4)" by (rule e)
  show "edge (raw_bucket l n) \<le> n" "n < edge (raw_bucket l n) + 2 ^ (l - 4)" using e m by linarith+
qed

lemma edge_next:
  assumes "128 \<le> b"
  shows "edge (Suc b) = edge b + 2 ^ (3 + (b - 128) div 16)"
proof -
  define k f where "k = (b - 128) div 16" and "f = (b - 128) mod 16"
  have b: "b - 128 = 16 * k + f" "f < 16" by (auto simp: k_def f_def)
  then have s: "Suc b - 128 = 16 * k + Suc f" using assms by simp
  have e: "edge b = (16 + f) * 2 ^ (3 + k)" using assms by (simp add: edge_def k_def f_def)
  show ?thesis
  proof (cases "f = 15")
    case True
    then have "Suc b - 128 = 16 * Suc k" using s by simp
    then have "(Suc b - 128) div 16 = Suc k" "(Suc b - 128) mod 16 = 0" by simp_all
    then have "edge (Suc b) = 16 * 2 ^ (3 + Suc k)" using assms by (simp add: edge_def)
    then show ?thesis using True by (simp add: e k_def [symmetric] power_add)
  next
    case False
    then have "(Suc b - 128) div 16 = k" "(Suc b - 128) mod 16 = Suc f" unfolding s using b(2) by simp_all
    then have "edge (Suc b) = (16 + Suc f) * 2 ^ (3 + k)" using assms by (simp add: edge_def)
    then show ?thesis by (simp add: e k_def [symmetric] algebra_simps)
  qed
qed

lemma edge_Suc: "edge b < edge (Suc b)"
proof (cases "128 \<le> b")
  case True
  then show ?thesis by (simp add: edge_next)
next
  case False
  then show ?thesis by (cases "b = 127") (simp_all add: edge_def)
qed

lemma edge_less: "a < b \<Longrightarrow> edge a < edge b"
  by (rule lift_Suc_mono_less [of edge, OF edge_Suc])

lemma edge_mono: "a \<le> b \<Longrightarrow> edge a \<le> edge b"
  by (metis edge_less order.order_iff_strict)

lemma value_bucket_bounds:
  fixes v :: "64 word" and b :: nat
  defines "b \<equiv> value_to_bucket v"
  shows "b < 256" "edge b \<le> unat v" "b < 255 \<Longrightarrow> unat v < edge (Suc b)" "b < 255 \<Longrightarrow> 16 * (unat v - edge b) \<le> unat v"
proof -
  have "b < 256 \<and> edge b \<le> unat v \<and> (b < 255 \<longrightarrow> unat v < edge (Suc b) \<and> 16 * (unat v - edge b) \<le> unat v)"
  proof (cases "v < 128 \<or> MAX_VALUE \<le> v")
    case True
    then show ?thesis
    proof
      assume v: "v < 128"
      then have b: "b = unat v" "unat v < 128" by (simp_all add: b_def value_to_bucket_def word_less_nat_alt)
      then have "edge b = unat v" by (simp add: edge_def)
      then show ?thesis using b edge_Suc [of b] by simp
    next
      assume v: "MAX_VALUE \<le> v"
      then have "\<not> v < 128" "1000000000 \<le> unat v" by (auto simp: MAX_VALUE_def word_le_nat_alt word_less_nat_alt)
      then have "b = 255" using v by (simp add: b_def value_to_bucket_def NUM_BUCKETS_def)
      then show ?thesis using \<open>1000000000 \<le> unat v\<close> by (simp add: edge_def)
    qed
  next
    case False
    then have v: "128 \<le> v" "v < MAX_VALUE" by auto
    then have nz: "v \<noteq> 0" by auto
    note f = value_to_bucket_formula [OF v, folded b_def]
    note l = log2_bounds [OF nz]
    let ?r = "raw_bucket (log2 v) (unat v)"
    have d: "16 \<le> unat v div 2 ^ (log2 v - 4)" "unat v div 2 ^ (log2 v - 4) < 32"
      using upper_digits [OF l(1,2)] f(2) by simp_all
    note e = raw_bucket_edge [OF f(2) d]
    have low: "edge b \<le> unat v" using edge_mono [of b ?r] e(1) f(1) by simp
    have "unat v < edge (Suc b) \<and> 16 * (unat v - edge b) \<le> unat v" if "b < 255"
    proof -
      have b: "b = ?r" using that f(1) by simp
      have "edge (Suc b) = edge b + 2 ^ (log2 v - 4)"
      proof -
        obtain k where k: "log2 v = 7 + k" using f(2) le_Suc_ex by blast
        have "(?r - 128) div 16 = k" using d by (simp add: raw_bucket_def k)
        then show ?thesis using edge_next [of b] e(3) k b by (simp add: add.commute)
      qed
      moreover have "(16 :: nat) * 2 ^ (log2 v - 4) = 2 ^ log2 v"
        using f(2) power_add [of "2 :: nat" 4 "log2 v - 4"] by simp
      ultimately show ?thesis using e(1,2) [folded b] l(1) by (intro conjI) linarith+
    qed
    then show ?thesis using low f(1) by auto
  qed
  then show "b < 256" "edge b \<le> unat v" "b < 255 \<Longrightarrow> unat v < edge (Suc b)" "b < 255 \<Longrightarrow> 16 * (unat v - edge b) \<le> unat v"
    by blast+
qed

lemma value_to_bucket_mono: "v \<le> w \<Longrightarrow> value_to_bucket v \<le> value_to_bucket w"
proof (rule ccontr)
  assume vw: "v \<le> w" and "\<not> value_to_bucket v \<le> value_to_bucket w"
  then have lt: "value_to_bucket w < value_to_bucket v" by simp
  note bv = value_bucket_bounds [of v] and bw = value_bucket_bounds [of w]
  have "value_to_bucket w < 255" using lt bv(1) by simp
  with bw(3) have "unat w < edge (Suc (value_to_bucket w))" by blast
  also have "\<dots> \<le> edge (value_to_bucket v)" using lt by (intro edge_mono) simp
  finally show False using bv(2) vw by (simp add: word_le_nat_alt)
qed

lemma value_to_bucket_inverse:
  assumes "i < 256"
  shows "value_to_bucket (bucket_to_value i) = i"
proof -
  let ?b = "value_to_bucket (bucket_to_value i)"
  note b = value_bucket_bounds [of "bucket_to_value i", unfolded bucket_to_value_edge [OF assms]]
  have "\<not> i < ?b" using b(2) edge_less [of i ?b] by auto
  moreover have "\<not> ?b < i" using b(3) edge_mono [of "Suc ?b" i] assms by auto
  ultimately show ?thesis by simp
qed


section \<open>Recording\<close>

definition hist_of :: "64 word list \<Rightarrow> latency_histogram" where
  "hist_of vs = fold hist_record vs hist_reset"

definition bucket_count :: "nat \<Rightarrow> 64 word list \<Rightarrow> nat" where
  "bucket_count i vs = length (filter (\<lambda>v. value_to_bucket v = i) vs)"

lemma hist_of_snoc: "hist_of (vs @ [v]) = hist_record v (hist_of vs)"
  by (simp add: hist_of_def)

lemma bucket_count_simps [simp]: "bucket_count i [] = 0" "bucket_count i (vs @ ws) = bucket_count i vs + bucket_count i ws"
  "bucket_count i [v] = (if value_to_bucket v = i then 1 else 0)"
  by (simp_all add: bucket_count_def)

lemma hist_of_fields:
  "h_count (hist_of vs) = of_nat (length vs) \<and> h_sum (hist_of vs) = sum_list vs \<and>
   h_min (hist_of vs) = fold min vs MAX_VALUE \<and> h_max (hist_of vs) = fold max vs 0 \<and>
   h_buckets (hist_of vs) = map (\<lambda>i. of_nat (bucket_count i vs)) [0..<NUM_BUCKETS]"
proof (induction vs rule: rev_induct)
  case Nil
  show ?case by (simp add: hist_of_def hist_reset_def map_replicate_trivial)
next
  case (snoc v vs)
  have b: "value_to_bucket v < NUM_BUCKETS" using value_bucket_bounds(1) [of v] by (simp add: NUM_BUCKETS_def)
  have "h_buckets (hist_of (vs @ [v])) = map (\<lambda>i. of_nat (bucket_count i (vs @ [v]))) [0..<NUM_BUCKETS]"
    by (rule nth_equalityI) (use b snoc in \<open>auto simp: hist_of_snoc hist_record_def Let_def nth_list_update\<close>)
  then show ?case using snoc by (simp add: hist_of_snoc hist_record_def Let_def min.commute max.commute add.commute)
qed

lemma fold_min_max: "fold min vs (a :: 'a::linorder) = Min (set (a # vs))" "fold max vs (a :: 'a::linorder) = Max (set (a # vs))"
  by (simp_all only: Min.set_eq_fold Max.set_eq_fold)

lemma merge_hist_of: "hist_merge (hist_of ws) (hist_of vs) = hist_of (vs @ ws)"
proof -
  have m: "fold min (vs @ ws) MAX_VALUE = min (fold min vs MAX_VALUE) (fold min ws MAX_VALUE)"
    "fold max (vs @ ws) 0 = max (fold max vs 0) (fold max ws (0 :: 64 word))"
    unfolding fold_min_max by (subst Min_Un [symmetric] Max_Un [symmetric]; auto intro: arg_cong [where f = Min] arg_cong [where f = Max])+
  show ?thesis
    using hist_of_fields [of vs] hist_of_fields [of ws] hist_of_fields [of "vs @ ws"] m
    by (intro latency_histogram.equality) (auto simp: hist_merge_def add.commute)
qed


section \<open>Percentiles\<close>

lemma unat_add_small: "unat (a :: 64 word) + unat b < 2 ^ 64 \<Longrightarrow> unat (a + b) = unat a + unat b"
  by (subst unat_add_lem [THEN iffD1]) simp_all

lemma rank_of_bound: "rank_of rnd n p = Some r \<Longrightarrow> r < 2 ^ 64"
proof -
  define t where "t = rnd (rnd (rnd (real (unat n)) * p) / 100)"
  assume "rank_of rnd n p = Some r"
  then have "t < 2 ^ 64" "r = nat \<lfloor>t\<rfloor>" by (auto simp: rank_of_def Let_def t_def split: if_splits)
  moreover from this(1) have "\<lfloor>t\<rfloor> < int (2 ^ 64)" by (simp add: floor_less_iff)
  then have "nat \<lfloor>t\<rfloor> < 2 ^ 64" by (metis nat_int nat_mono_iff of_nat_0_less_iff zero_less_numeral zero_less_power)
  ultimately show ?thesis by simp
qed

lemma scan_buckets_some:
  assumes "scan_buckets t c i ns = Some j" "unat c + sum_list (map unat ns) < 2 ^ 64"
  shows "\<exists>k < length ns. j = i + k \<and> unat t \<le> unat c + sum_list (map unat (take (Suc k) ns)) \<and>
    (k = 0 \<or> unat c + sum_list (map unat (take k ns)) < unat t)"
  using assms
proof (induction t c i ns rule: scan_buckets.induct)
  case (2 t c i n ns)
  have a: "unat (c + n) = unat c + unat n" using "2.prems"(2) by (intro unat_add_small) simp
  show ?case
  proof (cases "t \<le> c + n")
    case True
    then show ?thesis using "2.prems"(1) a by (intro exI [of _ 0]) (simp add: word_le_nat_alt)
  next
    case False
    have "scan_buckets t (c + n) (Suc i) ns = Some j" using "2.prems"(1) False by simp
    from "2.IH" [OF False this] "2.prems"(2) a obtain k where k: "k < length ns" "j = Suc i + k"
      "unat t \<le> unat (c + n) + sum_list (map unat (take (Suc k) ns))" "k = 0 \<or> unat (c + n) + sum_list (map unat (take k ns)) < unat t"
      by auto
    then show ?thesis using False a by (intro exI [of _ "Suc k"]) (auto simp: word_le_nat_alt)
  qed
qed simp

lemma scan_buckets_none:
  assumes "scan_buckets t c i ns = None" "unat c + sum_list (map unat ns) < 2 ^ 64" "ns \<noteq> []"
  shows "unat c + sum_list (map unat ns) < unat t"
  using assms
proof (induction t c i ns rule: scan_buckets.induct)
  case (2 t c i n ns)
  have a: "unat (c + n) = unat c + unat n" using "2.prems"(2) by (intro unat_add_small) simp
  have f: "\<not> t \<le> c + n" "scan_buckets t (c + n) (Suc i) ns = None" using "2.prems"(1) by (auto split: if_splits)
  show ?case
  proof (cases ns)
    case Nil
    then show ?thesis using f(1) a by (simp add: word_le_nat_alt)
  next
    case (Cons m ms)
    then show ?thesis using "2.IH" [OF f] "2.prems"(2) a by simp
  qed
qed simp

lemma bucket_count_below: "(\<Sum>i<k. bucket_count i vs) = length (filter (\<lambda>v. value_to_bucket v < k) vs)"
proof (induction k)
  case (Suc k)
  have "length (filter (\<lambda>v. value_to_bucket v < Suc k) vs) =
      length (filter (\<lambda>v. value_to_bucket v < k) vs) + bucket_count k vs"
    unfolding bucket_count_def by (induction vs) auto
  then show ?case using Suc by simp
qed simp

lemma bucket_sums:
  assumes "length vs < 2 ^ 64" "k \<le> 256"
  shows "sum_list (map unat (take k (h_buckets (hist_of vs)))) = length (filter (\<lambda>v. value_to_bucket v < k) vs)"
proof -
  have u: "unat (of_nat (bucket_count i vs) :: 64 word) = bucket_count i vs" for i
  proof -
    have "bucket_count i vs < 2 ^ 64" unfolding bucket_count_def by (rule le_less_trans [OF length_filter_le assms(1)])
    then show ?thesis by (simp add: unsigned_of_nat take_bit_nat_eq_self)
  qed
  have "take k (h_buckets (hist_of vs)) = map (\<lambda>i. of_nat (bucket_count i vs)) [0..<k]"
    using hist_of_fields [of vs] assms(2) by (simp add: take_map NUM_BUCKETS_def)
  then have "sum_list (map unat (take k (h_buckets (hist_of vs)))) = sum_list (map (\<lambda>i. bucket_count i vs) [0..<k])"
    using u by (simp add: comp_def)
  also have "\<dots> = (\<Sum>i<k. bucket_count i vs)" by (simp add: interv_sum_list_conv_sum_set_nat atLeast0LessThan)
  finally show ?thesis by (simp add: bucket_count_below)
qed

lemma sorted_rank:
  assumes "sorted xs" "length (filter (\<lambda>x. x < j) xs) < r" "r \<le> length (filter (\<lambda>x. x < Suc j) xs)"
  shows "xs ! (r - 1) = (j :: nat)"
proof -
  have r: "0 < r" "r \<le> length xs" using assms(2,3) length_filter_le [of "\<lambda>x. x < Suc j" xs] by linarith+
  have split: "length (filter P xs) = length (filter P (take r xs)) + length (filter P (drop r xs))" for P
    by (metis append_take_drop_id filter_append length_append)
  have split1: "length (filter P xs) = length (filter P (take (r - 1) xs)) + length (filter P (drop (r - 1) xs))" for P
    by (metis append_take_drop_id filter_append length_append)
  have "\<not> xs ! (r - 1) < j"
  proof
    assume lt: "xs ! (r - 1) < j"
    have "x < j" if x: "x \<in> set (take r xs)" for x
    proof -
      obtain i where "i < r" "x = xs ! i" using x r by (auto simp: in_set_conv_nth)
      moreover from this(1) have "xs ! i \<le> xs ! (r - 1)" using r by (intro sorted_nth_mono [OF assms(1)]) linarith+
      ultimately show ?thesis using lt by simp
    qed
    then have "filter (\<lambda>x. x < j) (take r xs) = take r xs" by (simp add: filter_id_conv)
    then show False using split [of "\<lambda>x. x < j"] assms(2) r by simp
  qed
  moreover have "\<not> j < xs ! (r - 1)"
  proof
    assume lt: "j < xs ! (r - 1)"
    have "\<not> x < Suc j" if x: "x \<in> set (drop (r - 1) xs)" for x
    proof -
      obtain i where "i < length (drop (r - 1) xs)" "x = drop (r - 1) xs ! i" using x unfolding in_set_conv_nth by metis
      then have "r - 1 + i < length xs" "x = xs ! (r - 1 + i)" using r by auto
      then show ?thesis using sorted_nth_mono [OF assms(1), of "r - 1" "r - 1 + i"] lt by simp
    qed
    then have "filter (\<lambda>x. x < Suc j) (drop (r - 1) xs) = []" by (simp add: filter_empty_conv)
    then show False using split1 [of "\<lambda>x. x < Suc j"] length_filter_le [of "\<lambda>x. x < Suc j" "take (r - 1) xs"] assms(3) r by simp
  qed
  ultimately show ?thesis by simp
qed

lemma sorted_buckets:
  assumes "length (filter (\<lambda>v. value_to_bucket v < j) vs) < r" "r \<le> length (filter (\<lambda>v. value_to_bucket v < Suc j) vs)"
  shows "value_to_bucket (sort vs ! (r - 1)) = j"
proof -
  let ?xs = "map value_to_bucket (sort vs)"
  have len: "length (filter (\<lambda>x. x < k) ?xs) = length (filter (\<lambda>v. value_to_bucket v < k) vs)" for k
  proof -
    have "mset (filter (\<lambda>v. value_to_bucket v < k) (sort vs)) = mset (filter (\<lambda>v. value_to_bucket v < k) vs)" by simp
    then have "length (filter (\<lambda>v. value_to_bucket v < k) (sort vs)) = length (filter (\<lambda>v. value_to_bucket v < k) vs)"
      by (metis size_mset)
    then show ?thesis by (simp add: filter_map comp_def)
  qed
  have s: "sorted ?xs" unfolding sorted_map by (rule sorted_wrt_mono_rel [OF _ sorted_sort]) (rule value_to_bucket_mono)
  have "r - 1 < length vs" using assms length_filter_le [of "\<lambda>v. value_to_bucket v < Suc j" vs] by linarith
  then show ?thesis using sorted_rank [OF s, of j r, unfolded len, OF assms] by simp
qed


text \<open>
  C29. Bucketing is accurate and ordered: the buckets partition the values in increasing order, a value
  lies between the boundary of its bucket and the next one, within a sixteenth above the boundary,
  and every boundary is in its own bucket. But the last bucket starts at 31744 ns, not near the
  one second of \<^verbatim>\<open>MAX_VALUE\<close>: all larger latencies fall together.
\<close>

theorem histogram_buckets:
  "value_to_bucket v < NUM_BUCKETS \<and> bucket_to_value (value_to_bucket v) \<le> v \<and>
   (v < 31744 \<longrightarrow> v < bucket_to_value (value_to_bucket v + 1) \<and>
      16 * (unat v - unat (bucket_to_value (value_to_bucket v))) \<le> unat v) \<and>
   (31744 \<le> v \<longrightarrow> value_to_bucket v = NUM_BUCKETS - 1) \<and>
   (v \<le> w \<longrightarrow> value_to_bucket v \<le> value_to_bucket w) \<and>
   (i < NUM_BUCKETS \<longrightarrow> value_to_bucket (bucket_to_value i) = i)"
proof -
  note b = value_bucket_bounds [of v]
  have e: "unat (bucket_to_value (value_to_bucket v)) = edge (value_to_bucket v)" by (rule bucket_to_value_edge [OF b(1)])
  have last: "edge 255 = 31744" by (simp add: edge_def)
  have small: "value_to_bucket v < 255" if "v < 31744"
    using that b(1,2) edge_mono [of 255 "value_to_bucket v"] last by (auto simp: word_less_nat_alt not_less [symmetric])
  have big: "\<not> value_to_bucket v < 255" if "31744 \<le> v"
    using that b(3) edge_mono [of "Suc (value_to_bucket v)" 255] last by (force simp: word_le_nat_alt)
  have "v < bucket_to_value (value_to_bucket v + 1)" if "v < 31744"
    using small [OF that] b(3) bucket_to_value_edge [of "value_to_bucket v + 1"] by (simp add: word_less_nat_alt)
  then show ?thesis
    using b(1,2,4) small big e value_to_bucket_mono value_to_bucket_inverse
    by (auto simp: NUM_BUCKETS_def word_le_nat_alt [of "bucket_to_value _"])
qed

theorem histogram_buckets_witness:
  "16 * (unat (1000 :: 64 word) - unat (bucket_to_value (value_to_bucket 1000))) \<le> unat (1000 :: 64 word) \<and>
   value_to_bucket 1000 \<le> value_to_bucket 50000 \<and> value_to_bucket 50000 = 255"
  using histogram_buckets [of 1000 50000 0] histogram_buckets [of 50000 0 0] by (simp add: NUM_BUCKETS_def)

text \<open>
  C28. A histogram is a summary of the multiset of recorded values: recording keeps exact counters
  (modulo 64 bits), the extremes (the minimum never above \<^verbatim>\<open>MAX_VALUE\<close>) and the number of values in
  each bucket, in whatever order they come, and merging two histograms gives what recording both
  sets of values into one would have given.
\<close>

theorem histogram_records:
  "h_count (hist_of vs) = of_nat (length vs) \<and> h_sum (hist_of vs) = sum_list vs \<and>
   h_min (hist_of vs) = Min (insert MAX_VALUE (set vs)) \<and> h_max (hist_of vs) = Max (insert 0 (set vs)) \<and>
   length (h_buckets (hist_of vs)) = NUM_BUCKETS \<and>
   (\<forall>i. i < NUM_BUCKETS \<longrightarrow> h_buckets (hist_of vs) ! i = of_nat (length (filter (\<lambda>v. value_to_bucket v = i) vs))) \<and>
   hist_merge (hist_of ws) (hist_of vs) = hist_of (vs @ ws) \<and>
   (mset ws = mset vs \<longrightarrow> hist_of ws = hist_of vs)"
proof -
  have "hist_of ws = hist_of vs" if m: "mset ws = mset vs"
  proof -
    have "bucket_count i ws = bucket_count i vs" for i
      unfolding bucket_count_def by (metis m mset_filter size_mset)
    moreover have "set ws = set vs" "length ws = length vs" "sum_list ws = sum_list vs"
      using m by (metis set_mset_mset, metis size_mset, metis sum_mset_sum_list)
    ultimately show ?thesis
      using hist_of_fields [of vs] hist_of_fields [of ws] by (intro latency_histogram.equality) (simp_all add: fold_min_max)
  qed
  then show ?thesis
    using hist_of_fields [of vs] merge_hist_of [of ws vs] by (auto simp: fold_min_max bucket_count_def)
qed

theorem histogram_records_witness: "hist_of [7, 300] = hist_of [300, 7] \<and> h_buckets (hist_of [7, 300]) ! 7 = 1"
  using histogram_records [of "[300, 7]" "[7, 300]"] histogram_records [of "[7, 300]" "[]"]
  by (auto simp: NUM_BUCKETS_def value_to_bucket_def)

text \<open>
  C27. A percentile is the lower boundary of the bucket of an order statistic: with \<open>r\<close> the rank that
  the double arithmetic computes (\<open>rnd\<close> is its rounding), the result for the recorded values \<open>vs\<close> is
  the boundary below the \<open>r\<close>-th smallest of them; rank 0 gives 0 whatever was recorded and a rank
  above the count gives the largest value. It is undefined exactly when the rank does not fit.
\<close>

theorem percentile_order_statistic:
  assumes "vs \<noteq> []" "length vs < 2 ^ 64"
  shows "percentile rnd p (hist_of vs) = map_option (\<lambda>r.
      if r = 0 then 0
      else if r \<le> length vs then bucket_to_value (value_to_bucket (sort vs ! (r - 1)))
      else Max (insert 0 (set vs))) (rank_of rnd (of_nat (length vs)) p)"
proof (cases "rank_of rnd (of_nat (length vs)) p")
  case None
  have "h_count (hist_of vs) \<noteq> 0"
    using hist_of_fields [of vs] assms by (simp add: word_of_nat_eq_0_iff nat_dvd_not_less)
  then show ?thesis using None hist_of_fields [of vs] by (simp add: percentile_def)
next
  case (Some r)
  let ?ns = "h_buckets (hist_of vs)"
  have c: "h_count (hist_of vs) = of_nat (length vs)" "h_count (hist_of vs) \<noteq> 0" "h_max (hist_of vs) = Max (insert 0 (set vs))"
    using hist_of_fields [of vs] assms by (simp_all add: word_of_nat_eq_0_iff nat_dvd_not_less fold_min_max)
  have ln: "length ?ns = 256" using hist_of_fields [of vs] by (simp add: NUM_BUCKETS_def)
  have r: "unat (of_nat r :: 64 word) = r"
  proof -
    have "r < 2 ^ 64" by (rule rank_of_bound [OF Some])
    then show ?thesis by (simp add: unsigned_of_nat take_bit_nat_eq_self)
  qed
  have all: "filter (\<lambda>v. value_to_bucket v < 256) vs = vs" using value_bucket_bounds(1) by (simp add: filter_id_conv)
  have total: "sum_list (map unat ?ns) = length vs" using bucket_sums [OF assms(2), of 256] ln all by simp
  have bound: "unat (0 :: 64 word) + sum_list (map unat ?ns) < 2 ^ 64" using total assms(2) by simp
  show ?thesis
  proof (cases "scan_buckets (of_nat r) 0 0 ?ns")
    case None
    have "?ns \<noteq> []" using ln by auto
    from scan_buckets_none [OF None bound this] have "length vs < r" by (simp add: total r)
    then show ?thesis using Some None c by (simp add: percentile_def)
  next
    case (Some j)
    from scan_buckets_some [OF Some bound] have k: "j < 256" "r \<le> sum_list (map unat (take (Suc j) ?ns))"
      "j = 0 \<or> sum_list (map unat (take j ?ns)) < r" by (auto simp: r ln)
    then have k': "r \<le> length (filter (\<lambda>v. value_to_bucket v < Suc j) vs)" "j = 0 \<or> length (filter (\<lambda>v. value_to_bucket v < j) vs) < r"
      using bucket_sums [OF assms(2)] by auto
    then have "r \<le> length vs" using length_filter_le [of "\<lambda>v. value_to_bucket v < Suc j" vs] by linarith
    moreover have "value_to_bucket (sort vs ! (r - 1)) = j" if "r \<noteq> 0"
      using k' that by (intro sorted_buckets) (cases "j = 0"; simp)+
    moreover have "j = 0" if "r = 0" using k' that by simp
    ultimately show ?thesis using Some \<open>rank_of rnd (of_nat (length vs)) p = Some r\<close> c
      by (simp add: percentile_def) (simp add: bucket_to_value_def)
  qed
qed

theorem percentile_order_statistic_witness:
  "percentile (\<lambda>x. x) 50 (hist_of [1000, 5, 200]) = Some 5"
proof -
  have "rank_of (\<lambda>x. x) (of_nat (length [1000, 5, 200 :: 64 word])) 50 = Some 1"
    by (simp add: rank_of_def Let_def floor_eq_iff)
  moreover have "sort [1000, 5, 200 :: 64 word] = [5, 200, 1000]" by simp
  ultimately show ?thesis
    using percentile_order_statistic [of "[1000, 5, 200]" "\<lambda>x. x" 50]
    by (simp add: value_to_bucket_def bucket_to_value_def)
qed

text \<open>
  The counter histogram scales a value linearly onto its buckets, clamped to the last one, as long
  as the product with the number of buckets fits 64 bits. Beyond that the product wraps: with the
  default parameters \<open>2 ^ 58\<close> is counted in the first bucket.
\<close>

theorem counter_bucket_linear:
  "(unat v * num < 2 ^ 64 \<longrightarrow> counter_bucket num mx v = min (unat v * num div unat mx) (num - 1)) \<and>
   counter_bucket 64 1000000 (2 ^ 58) = 0"
proof -
  have "counter_bucket num mx v = min (unat v * num div unat mx) (num - 1)" if f: "unat v * num < 2 ^ 64"
  proof -
    have "unat (v * of_nat num) = unat v * num"
    proof -
      have "v * of_nat num = of_nat (unat v * num)" by simp
      also have "unat \<dots> = unat v * num" using f by (simp only: unsigned_of_nat take_bit_nat_eq_self) (simp add: take_bit_nat_eq_self)
      finally show ?thesis .
    qed
    then show ?thesis by (simp add: counter_bucket_def unat_div)
  qed
  moreover have "counter_bucket 64 1000000 (2 ^ 58) = 0" by code_simp
  ultimately show ?thesis by blast
qed

theorem counter_bucket_linear_witness: "counter_bucket 64 1000000 500000 = 32"
  using counter_bucket_linear [of 500000 64 1000000] by simp

end
