(* ===== verification/Crc32.thy ===== *)
theory Crc32
  imports Prelude
begin

text \<open>
  The CRC-32 of \<^verbatim>\<open>src/replay/event_journal.cpp\<close>: the table, the byte-wise loop that both the journal
  and its reader run over it, and the facts the journal rests on: the table version equals the
  bit-by-bit one, and changing one byte changes the checksum.
\<close>

unbundle bit_operations_syntax

type_synonym byte = "8 word"

section \<open>The table and the loop\<close>

definition crc_bit :: "32 word \<Rightarrow> 32 word" where
  "crc_bit c = (if c AND 1 \<noteq> 0 then 0xEDB88320 XOR drop_bit 1 c else drop_bit 1 c)"

definition crc_entry :: "32 word \<Rightarrow> 32 word" where
  "crc_entry i = (crc_bit ^^ 8) i"

text \<open>
  The table is a static array, zero until \<^verbatim>\<open>init_crc32_table\<close> has run; the pair of the flag and the
  table is the state of the module.
\<close>

type_synonym crc_state = "bool \<times> 32 word list"

definition crc_initial :: crc_state where
  "crc_initial = (False, replicate 256 0)"

definition init_crc32_table :: "crc_state \<Rightarrow> crc_state" where
  "init_crc32_table g =
     (if fst g then g
      else (True, fold (\<lambda>i t. t[i := crc_entry (of_nat i)]) [0..<256] (snd g)))"

definition crc_update :: "32 word list \<Rightarrow> byte \<Rightarrow> 32 word \<Rightarrow> 32 word" where
  "crc_update table b crc = (table ! unat ((crc XOR ucast b) AND 0xFF)) XOR drop_bit 8 crc"

definition compute_checksum :: "32 word list \<Rightarrow> byte list \<Rightarrow> 32 word" where
  "compute_checksum table bs = fold (crc_update table) bs 0xFFFFFFFF XOR 0xFFFFFFFF"

section \<open>The reference: one bit at a time\<close>

definition crc_byte :: "byte \<Rightarrow> 32 word \<Rightarrow> 32 word" where
  "crc_byte b c = (crc_bit ^^ 8) (c XOR ucast b)"

definition crc32 :: "byte list \<Rightarrow> 32 word" where
  "crc32 bs = NOT (fold crc_byte bs (NOT 0))"

definition crc_table :: "32 word list" where
  "crc_table = map (\<lambda>i. crc_entry (of_nat i)) [0..<256]"

lemma init_table: "init_crc32_table crc_initial = (True, crc_table)"
proof -
  have "fold (\<lambda>i t. t[i := f i]) [0..<n] t = map f [0..<n] @ drop n t" if "n \<le> length t" for f :: "nat \<Rightarrow> 32 word" and n t
    using that
  proof (induction n)
    case (Suc n)
    then have d: "drop n t = t ! n # drop (Suc n) t" by (simp add: Cons_nth_drop_Suc)
    show ?case using Suc by (simp add: list_update_append d)
  qed simp
  from this [of 256 "replicate 256 0" "\<lambda>i. crc_entry (of_nat i)"] show ?thesis
    by (simp add: init_crc32_table_def crc_initial_def crc_table_def)
qed

lemma init_twice: "init_crc32_table (True, t) = (True, t)"
  by (simp add: init_crc32_table_def)

section \<open>Linearity\<close>

lemma and_one: "c AND 1 \<noteq> 0 \<longleftrightarrow> bit (c :: 'w::len word) 0"
  by (simp add: and_one_eq odd_iff_mod_2_eq_one bit_0)

lemma bit_crc_bit: "n < 32 \<Longrightarrow> bit (crc_bit c) n \<longleftrightarrow> ((bit c 0 \<and> bit (0xEDB88320 :: 32 word) n) \<noteq> bit c (Suc n))"
  by (simp add: crc_bit_def and_one bit_xor_iff bit_drop_bit_eq)

lemma crc_bit_xor: "crc_bit (a XOR b) = crc_bit a XOR crc_bit b"
  by (rule bit_word_eqI) (auto simp: bit_crc_bit bit_xor_iff)

lemma crc_bits_xor: "(crc_bit ^^ n) (a XOR b) = (crc_bit ^^ n) a XOR (crc_bit ^^ n) b"
  by (induction n) (simp_all add: crc_bit_xor)

lemma crc_bits_shift: "(\<And>i. i < n \<Longrightarrow> \<not> bit c i) \<Longrightarrow> (crc_bit ^^ n) c = drop_bit n c"
proof (induction n)
  case (Suc n)
  have "(crc_bit ^^ n) c = drop_bit n c" using Suc by simp
  moreover have "\<not> bit (drop_bit n c) 0" using Suc.prems [of n] by (simp add: bit_drop_bit_eq)
  then have "crc_bit (drop_bit n c) = drop_bit 1 (drop_bit n c)" by (simp add: crc_bit_def and_one)
  ultimately show ?case by simp
qed simp

lemma table_byte:
  shows "crc_update crc_table b c = crc_byte b c"
proof -
  let ?x = "c XOR ucast b" and ?h = "drop_bit 8 c"
  have lo: "unat (?x AND 255) < 256"
  proof -
    have "?x AND 255 \<le> 255" by (rule word_and_le1)
    then show ?thesis by (simp add: word_le_nat_alt)
  qed
  have split: "?x = (?x AND 255) XOR (?x AND NOT 255)" by (rule bit_word_eqI) (auto simp: bit_simps)
  have mask: "bit (255 :: 32 word) i \<longleftrightarrow> i < 8" for i
  proof -
    have "(255 :: 32 word) = mask 8" by (simp add: mask_eq_exp_minus_1)
    then show ?thesis by (simp only: bit_mask_iff) auto
  qed
  have "(crc_bit ^^ 8) (?x AND NOT 255) = drop_bit 8 (?x AND NOT 255)"
    by (rule crc_bits_shift) (unfold bit_and_iff bit_not_iff mask, simp)
  also have "\<dots> = ?h"
  proof (rule bit_word_eqI)
    fix n
    assume "n < LENGTH(32)"
    show "bit (drop_bit 8 (?x AND NOT 255)) n \<longleftrightarrow> bit ?h n"
      unfolding bit_drop_bit_eq bit_and_iff bit_not_iff mask bit_xor_iff comp_def bit_ucast_iff
      using bit_imp_le_length [of b "8 + n"] bit_imp_le_length [of c "8 + n"] by auto
  qed
  finally have "crc_byte b c = (crc_bit ^^ 8) (?x AND 255) XOR ?h"
    unfolding crc_byte_def by (subst split) (simp only: crc_bits_xor)
  moreover have "crc_table ! unat (?x AND 255) = (crc_bit ^^ 8) (?x AND 255)"
    using lo by (simp add: crc_table_def crc_entry_def)
  ultimately show ?thesis by (simp add: crc_update_def)
qed

lemma checksum_crc32: "compute_checksum crc_table bs = crc32 bs"
proof -
  have "crc_update crc_table = crc_byte" by (intro ext table_byte)
  moreover have "(0xFFFFFFFF :: 32 word) = - 1" by code_simp
  ultimately show ?thesis by (simp only: compute_checksum_def crc32_def) simp
qed

section \<open>Detection of a changed byte\<close>

lemma crc_bit_inj: "crc_bit a = crc_bit b \<Longrightarrow> a = b"
proof -
  assume eq: "crc_bit a = crc_bit b"
  have "bit (0xEDB88320 :: 32 word) 31" by code_simp
  then have b0: "bit a 0 \<longleftrightarrow> bit b 0"
    using bit_crc_bit [of 31 a] bit_crc_bit [of 31 b] eq bit_imp_le_length [of a 32] bit_imp_le_length [of b 32] by auto
  show "a = b"
  proof (rule bit_word_eqI)
    fix n
    assume n: "n < LENGTH(32)"
    show "bit a n \<longleftrightarrow> bit b n"
    proof (cases n)
      case 0
      then show ?thesis using b0 by simp
    next
      case (Suc m)
      then have "m < 32" using n by simp
      then show ?thesis using bit_crc_bit [of m a] bit_crc_bit [of m b] eq b0 Suc by auto
    qed
  qed
qed

lemma crc_bits_inj: "(crc_bit ^^ n) a = (crc_bit ^^ n) b \<Longrightarrow> a = b"
  by (induction n) (auto dest: crc_bit_inj)

lemma xor_cancel: "(a :: 'w::len word) XOR b = c XOR b \<longleftrightarrow> a = c"
  by (metis xor.assoc xor.right_neutral xor_self_eq)

lemma crc_byte_inj: "crc_byte b c = crc_byte b d \<Longrightarrow> c = d" "crc_byte a c = crc_byte b c \<Longrightarrow> a = b"
proof -
  show "crc_byte b c = crc_byte b d \<Longrightarrow> c = d" unfolding crc_byte_def by (drule crc_bits_inj) (simp add: xor_cancel)
  assume "crc_byte a c = crc_byte b c"
  then have "c XOR ucast a = c XOR ucast b" unfolding crc_byte_def by (rule crc_bits_inj)
  then have u: "(ucast a :: 32 word) = ucast b" by (simp add: xor.commute [of c] xor_cancel)
  show "a = b"
  proof (rule bit_word_eqI)
    fix n
    assume "n < LENGTH(8)"
    then show "bit a n \<longleftrightarrow> bit b n" using arg_cong [OF u, of "\<lambda>w. bit w n"] by (simp add: bit_ucast_iff)
  qed
qed

lemma crc_run_inj: "fold crc_byte bs c = fold crc_byte bs d \<Longrightarrow> c = d"
  by (induction bs arbitrary: c d) (auto dest: crc_byte_inj)

lemma crc32_one_byte:
  assumes "a \<noteq> b"
  shows "crc32 (xs @ a # ys) \<noteq> crc32 (xs @ b # ys)"
proof
  assume "crc32 (xs @ a # ys) = crc32 (xs @ b # ys)"
  then have "fold crc_byte (xs @ a # ys) (NOT 0) = fold crc_byte (xs @ b # ys) (NOT 0)"
    by (simp add: crc32_def bit.double_compl) 
  then have "fold crc_byte ys (crc_byte a (fold crc_byte xs (NOT 0))) = fold crc_byte ys (crc_byte b (fold crc_byte xs (NOT 0)))" by simp
  then have "crc_byte a (fold crc_byte xs (NOT 0)) = crc_byte b (fold crc_byte xs (NOT 0))" by (rule crc_run_inj)
  with assms crc_byte_inj(2) show False by blast
qed

end
