(* ===== verification/Journal_Format.thy ===== *)
theory Journal_Format
  imports Core_Types Crc32
begin

text \<open>
  The file format of the event journal (\<^verbatim>\<open>include/replay/event_journal.hpp\<close>): the bytes of the header
  and of the two payload structures, and that reading them back gives the structure that was
  written.
\<close>

section \<open>Bytes of machine integers\<close>

primrec le_bytes :: "nat \<Rightarrow> nat \<Rightarrow> byte list" where
  "le_bytes 0 x = []"
| "le_bytes (Suc n) x = of_nat x # le_bytes n (x div 256)"

fun of_le :: "byte list \<Rightarrow> nat" where
  "of_le [] = 0"
| "of_le (b # bs) = unat b + 256 * of_le bs"

lemma length_le_bytes [simp]: "length (le_bytes n x) = n"
  by (induction n arbitrary: x) simp_all

lemma unat_byte: "unat (of_nat x :: byte) = x mod 256"
  by (simp add: unsigned_of_nat take_bit_eq_mod)

lemma of_le_bytes [simp]: "of_le (le_bytes n x) = x mod 256 ^ n"
  by (induction n arbitrary: x) (simp_all add: unat_byte mod_mult2_eq)

lemma le_bytes_of_le: "le_bytes (length bs) (of_le bs) = bs"
proof (induction bs)
  case (Cons b bs)
  have b: "unat b < 256" using unsigned_less [of b, where ?'a = nat] by simp
  then have "(unat b + 256 * of_le bs) div 256 = of_le bs" by simp
  moreover have "of_nat (unat b + 256 * of_le bs) = b"
  proof -
    have "unat (of_nat (unat b + 256 * of_le bs) :: byte) = unat b" unfolding unat_byte using b by simp
    then show ?thesis by (simp only: word_unat_eq_iff)
  qed
  ultimately show ?case using Cons by simp
qed simp

definition word_bytes :: "nat \<Rightarrow> 'w::len word \<Rightarrow> byte list" where
  "word_bytes n w = le_bytes n (unat w)"

definition of_word_bytes :: "byte list \<Rightarrow> 'w::len word" where
  "of_word_bytes bs = of_nat (of_le bs)"

lemma length_word_bytes [simp]: "length (word_bytes n w) = n"
  by (simp add: word_bytes_def)

lemma of_word_bytes_64 [simp]: "of_word_bytes (word_bytes 8 w) = (w :: 64 word)"
proof -
  have "unat w < 256 ^ 8" using unsigned_less [of w, where ?'a = nat] by simp
  then show ?thesis by (simp add: of_word_bytes_def word_bytes_def)
qed

lemma of_word_bytes_32 [simp]: "of_word_bytes (word_bytes 4 w) = (w :: 32 word)"
proof -
  have "unat w < 256 ^ 4" using unsigned_less [of w, where ?'a = nat] by simp
  then show ?thesis by (simp add: of_word_bytes_def word_bytes_def)
qed

text \<open>A price is stored as the two's complement of its 64 bits.\<close>

definition price_bytes :: "price \<Rightarrow> byte list" where
  "price_bytes p = word_bytes 8 (of_int p :: 64 word)"

definition of_price_bytes :: "byte list \<Rightarrow> price" where
  "of_price_bytes bs = sint (of_word_bytes bs :: 64 word)"

lemma length_price_bytes [simp]: "length (price_bytes p) = 8"
  by (simp add: price_bytes_def)

lemma of_price_bytes [simp]: "s64_range p \<Longrightarrow> of_price_bytes (price_bytes p) = p"
  by (simp add: of_price_bytes_def price_bytes_def s64_range_def signed_of_int signed_take_bit_int_eq_self)

section \<open>Enumerations as bytes\<close>

definition side_code :: "side \<Rightarrow> byte" where
  "side_code s = (case s of Buy \<Rightarrow> 0 | Sell \<Rightarrow> 1)"

definition order_type_code :: "order_type \<Rightarrow> byte" where
  "order_type_code t = (case t of Limit \<Rightarrow> 0 | Market \<Rightarrow> 1 | ImmediateOrCancel \<Rightarrow> 2 | FillOrKill \<Rightarrow> 3 | PostOnly \<Rightarrow> 4)"

definition tif_code :: "time_in_force \<Rightarrow> byte" where
  "tif_code t = (case t of Day \<Rightarrow> 0 | GoodTillCancel \<Rightarrow> 1 | TifImmediateOrCancel \<Rightarrow> 2 | TifFillOrKill \<Rightarrow> 3)"

datatype event_type = OrderNew | OrderCancel | OrderReplace | TradeEvent | BookSnapshot

definition event_code :: "event_type \<Rightarrow> byte" where
  "event_code t = (case t of OrderNew \<Rightarrow> 0 | OrderCancel \<Rightarrow> 1 | OrderReplace \<Rightarrow> 2 | TradeEvent \<Rightarrow> 3 | BookSnapshot \<Rightarrow> 4)"

section \<open>The structures of the file\<close>

text \<open>
  The three structures as the compiler lays them out on a 64-bit little-endian machine, the layout
  their \<^verbatim>\<open>static_assert\<close>s pin: fields at their natural alignment. A field of enumeration type is the
  byte in memory, since \<^verbatim>\<open>memcpy\<close> from a file can put any byte there. \<open>gap\<close> is the content of the
  bytes the compiler inserts between fields.
\<close>

record journal_header =
  jh_sequence :: "64 word"
  jh_timestamp :: "64 word"
  jh_event_type :: byte
  jh_reserved :: "byte list"
  jh_payload_size :: "32 word"
  jh_checksum :: "32 word"

record journal_order =
  jo_id :: order_id
  jo_symbol :: symbol
  jo_side :: byte
  jo_type :: byte
  jo_tif :: byte
  jo_pad :: byte
  jo_price :: price
  jo_quantity :: quantity
  jo_timestamp :: "64 word"

record journal_trade =
  jt_seq_num :: seq_num
  jt_symbol :: symbol
  jt_price :: price
  jt_quantity :: quantity
  jt_buy_order_id :: order_id
  jt_sell_order_id :: order_id
  jt_aggressor_side :: byte
  jt_pad :: "byte list"

definition HEADER_SIZE :: nat where "HEADER_SIZE = 32"
definition ORDER_SIZE :: nat where "ORDER_SIZE = 48"
definition TRADE_SIZE :: nat where "TRADE_SIZE = 56"

definition header_bytes :: "journal_header \<Rightarrow> byte list" where
  "header_bytes h =
     word_bytes 8 (jh_sequence h) @ word_bytes 8 (jh_timestamp h) @ [jh_event_type h] @ jh_reserved h @
     word_bytes 4 (jh_payload_size h) @ word_bytes 4 (jh_checksum h)"

definition field :: "nat \<Rightarrow> nat \<Rightarrow> byte list \<Rightarrow> byte list" where
  "field off n bs = take n (drop off bs)"

definition header_of_bytes :: "byte list \<Rightarrow> journal_header" where
  "header_of_bytes bs =
     \<lparr>jh_sequence = of_word_bytes (field 0 8 bs), jh_timestamp = of_word_bytes (field 8 8 bs),
      jh_event_type = bs ! 16, jh_reserved = field 17 7 bs,
      jh_payload_size = of_word_bytes (field 24 4 bs), jh_checksum = of_word_bytes (field 28 4 bs)\<rparr>"

definition order_bytes :: "byte list \<Rightarrow> journal_order \<Rightarrow> byte list" where
  "order_bytes gap jo =
     word_bytes 8 (jo_id jo) @ sym_data (jo_symbol jo) @ [jo_side jo, jo_type jo, jo_tif jo, jo_pad jo] @ field 0 4 gap @
     price_bytes (jo_price jo) @ word_bytes 4 (jo_quantity jo) @ field 4 4 gap @ word_bytes 8 (jo_timestamp jo)"

definition order_of_bytes :: "byte list \<Rightarrow> journal_order" where
  "order_of_bytes bs =
     \<lparr>jo_id = of_word_bytes (field 0 8 bs), jo_symbol = Symbol (field 8 8 bs), jo_side = bs ! 16, jo_type = bs ! 17,
      jo_tif = bs ! 18, jo_pad = bs ! 19, jo_price = of_price_bytes (field 24 8 bs),
      jo_quantity = of_word_bytes (field 32 4 bs), jo_timestamp = of_word_bytes (field 40 8 bs)\<rparr>"

definition trade_bytes :: "byte list \<Rightarrow> journal_trade \<Rightarrow> byte list" where
  "trade_bytes gap jt =
     word_bytes 8 (jt_seq_num jt) @ sym_data (jt_symbol jt) @ price_bytes (jt_price jt) @ word_bytes 4 (jt_quantity jt) @
     field 0 4 gap @ word_bytes 8 (jt_buy_order_id jt) @ word_bytes 8 (jt_sell_order_id jt) @ [jt_aggressor_side jt] @ jt_pad jt"

definition trade_of_bytes :: "byte list \<Rightarrow> journal_trade" where
  "trade_of_bytes bs =
     \<lparr>jt_seq_num = of_word_bytes (field 0 8 bs), jt_symbol = Symbol (field 8 8 bs), jt_price = of_price_bytes (field 16 8 bs),
      jt_quantity = of_word_bytes (field 24 4 bs), jt_buy_order_id = of_word_bytes (field 32 8 bs),
      jt_sell_order_id = of_word_bytes (field 40 8 bs), jt_aggressor_side = bs ! 48, jt_pad = field 49 7 bs\<rparr>"

section \<open>Round trips of the structures\<close>

definition symbol_ok :: "symbol \<Rightarrow> bool" where
  "symbol_ok s \<longleftrightarrow> length (sym_data s) = SYMBOL_SIZE"

lemma field_here: "length xs = n \<Longrightarrow> field 0 n (xs @ ys) = xs"
  by (simp add: field_def)

lemma field_skip: "length xs \<le> off \<Longrightarrow> field off n (xs @ ys) = field (off - length xs) n ys"
  by (simp add: field_def)

lemma length_header [simp]: "length (jh_reserved h) = 7 \<Longrightarrow> length (header_bytes h) = HEADER_SIZE"
  by (simp add: header_bytes_def HEADER_SIZE_def)

lemma length_order [simp]: "symbol_ok (jo_symbol jo) \<Longrightarrow> 8 \<le> length gap \<Longrightarrow> length (order_bytes gap jo) = ORDER_SIZE"
  by (simp add: order_bytes_def ORDER_SIZE_def symbol_ok_def SYMBOL_SIZE_def field_def)

lemma length_trade [simp]: "symbol_ok (jt_symbol jt) \<Longrightarrow> 4 \<le> length gap \<Longrightarrow> length (jt_pad jt) = 7 \<Longrightarrow> length (trade_bytes gap jt) = TRADE_SIZE"
  by (simp add: trade_bytes_def TRADE_SIZE_def symbol_ok_def SYMBOL_SIZE_def field_def)

lemma header_roundtrip: "length (jh_reserved h) = 7 \<Longrightarrow> header_of_bytes (header_bytes h) = h"
  by (simp add: header_of_bytes_def header_bytes_def field_skip field_here nth_append) (simp add: field_def)

lemma order_roundtrip:
  assumes "symbol_ok (jo_symbol jo)" "s64_range (jo_price jo)" "8 \<le> length gap"
  shows "order_of_bytes (order_bytes gap jo) = jo"
  using assms
  by (simp add: order_of_bytes_def order_bytes_def symbol_ok_def SYMBOL_SIZE_def field_def nth_append)

lemma trade_roundtrip:
  assumes "symbol_ok (jt_symbol jt)" "s64_range (jt_price jt)" "4 \<le> length gap" "length (jt_pad jt) = 7"
  shows "trade_of_bytes (trade_bytes gap jt) = jt"
  using assms
  by (simp add: trade_of_bytes_def trade_bytes_def symbol_ok_def SYMBOL_SIZE_def field_def nth_append)

end
