(* ===== verification/Event_Journal.thy ===== *)
theory Event_Journal
  imports Journal_Format
begin

text \<open>
  The event journal of \<^verbatim>\<open>include/replay/event_journal.hpp\<close> and \<^verbatim>\<open>src/replay/event_journal.cpp\<close>: the
  append-only writer, the reader with its stream state, and the replay harness with its
  verification. The file system, the clock and the two callbacks are outside the program: a file is
  its bytes, clock readings are arguments, callbacks are sinks.
\<close>

section \<open>Writing\<close>

text \<open>
  \<open>ej_file\<close> is the content of the file, \<open>ej_buffer\<close> what has been handed to the stream and is not
  in the file yet. The library may move bytes from one to the other at any time; the model moves
  them when it must, at a flush. Opening appends to whatever the file holds; when it fails the
  constructor goes on, and writes to the closed stream are ignored.
\<close>

record event_journal =
  ej_open :: bool
  ej_file :: "byte list"
  ej_buffer :: "byte list"
  ej_sequence :: "64 word"
  ej_file_size :: "64 word"

definition new_journal :: "bool \<Rightarrow> byte list \<Rightarrow> crc_state \<Rightarrow> event_journal \<times> crc_state" where
  "new_journal opens content g =
     (\<lparr>ej_open = opens, ej_file = content, ej_buffer = [], ej_sequence = 0, ej_file_size = 0\<rparr>, init_crc32_table g)"

definition stream_write :: "byte list \<Rightarrow> event_journal \<Rightarrow> event_journal" where
  "stream_write bs j = (if ej_open j then j\<lparr>ej_buffer := ej_buffer j @ bs\<rparr> else j)"

text \<open>\<open>now\<close> is the reading of the clock, \<open>gap\<close> the padding bytes of the structure on the stack.\<close>

definition write_header :: "timestamp \<Rightarrow> byte \<Rightarrow> 32 word \<Rightarrow> 32 word \<Rightarrow> event_journal \<Rightarrow> event_journal" where
  "write_header now type payload_size checksum j =
     (let h = \<lparr>jh_sequence = ej_sequence j, jh_timestamp = now, jh_event_type = type, jh_reserved = replicate 7 0,
               jh_payload_size = payload_size, jh_checksum = checksum\<rparr>
      in stream_write (header_bytes h) (j\<lparr>ej_sequence := ej_sequence j + 1\<rparr>))"

definition order_payload :: "order \<Rightarrow> journal_order" where
  "order_payload x =
     \<lparr>jo_id = o_id x, jo_symbol = o_symbol x, jo_side = side_code (o_side x), jo_type = order_type_code (o_type x),
      jo_tif = tif_code (o_tif x), jo_pad = 0, jo_price = o_price x, jo_quantity = o_quantity x,
      jo_timestamp = o_timestamp x\<rparr>"

definition trade_payload :: "trade \<Rightarrow> journal_trade" where
  "trade_payload t =
     \<lparr>jt_seq_num = t_seq_num t, jt_symbol = t_symbol t, jt_price = t_price t, jt_quantity = t_quantity t,
      jt_buy_order_id = t_buy_order_id t, jt_sell_order_id = t_sell_order_id t,
      jt_aggressor_side = side_code (t_aggressor_side t), jt_pad = replicate 7 0\<rparr>"

definition log_order :: "32 word list \<Rightarrow> byte list \<Rightarrow> timestamp \<Rightarrow> order \<Rightarrow> event_type \<Rightarrow> event_journal \<Rightarrow> event_journal" where
  "log_order table gap now x type j =
     (let jo = order_bytes gap (order_payload x);
          j1 = write_header now (event_code type) (of_nat ORDER_SIZE) (compute_checksum table jo) j;
          j2 = stream_write jo j1
      in j2\<lparr>ej_file_size := ej_file_size j2 + of_nat (HEADER_SIZE + ORDER_SIZE)\<rparr>)"

definition log_trade :: "32 word list \<Rightarrow> byte list \<Rightarrow> timestamp \<Rightarrow> trade \<Rightarrow> event_journal \<Rightarrow> event_journal" where
  "log_trade table gap now t j =
     (let jt = trade_bytes gap (trade_payload t);
          j1 = write_header now (event_code TradeEvent) (of_nat TRADE_SIZE) (compute_checksum table jt) j;
          j2 = stream_write jt j1
      in j2\<lparr>ej_file_size := ej_file_size j2 + of_nat (HEADER_SIZE + TRADE_SIZE)\<rparr>)"

definition journal_flush :: "event_journal \<Rightarrow> event_journal" where
  "journal_flush j = (if ej_open j then j\<lparr>ej_file := ej_file j @ ej_buffer j, ej_buffer := []\<rparr> else j)"

text \<open>Off Windows \<^verbatim>\<open>sync\<close> is another flush: nothing reaches the device.\<close>

definition journal_sync :: "event_journal \<Rightarrow> event_journal" where
  "journal_sync j = journal_flush j"

definition journal_close :: "event_journal \<Rightarrow> event_journal" where
  "journal_close j = (if ej_open j then (journal_flush j)\<lparr>ej_open := False\<rparr> else j)"

definition journal_destroy :: "event_journal \<Rightarrow> event_journal" where
  "journal_destroy j = journal_close j"

text \<open>The size counts what this object has asked to be written, not what the file held before.\<close>

definition journal_size :: "event_journal \<Rightarrow> 64 word" where
  "journal_size j = ej_file_size j"

definition journal_sequence :: "event_journal \<Rightarrow> 64 word" where
  "journal_sequence j = ej_sequence j"

section \<open>Reading\<close>

text \<open>
  An input stream over the bytes of a file: position and the two error flags. A read on a stream
  that is not good takes nothing and sets the fail flag; a short read takes what is left and sets
  both.
\<close>

record journal_reader =
  jr_file :: "byte list"
  jr_open :: bool
  jr_pos :: nat
  jr_eof :: bool
  jr_fail :: bool
  jr_last_header :: journal_header
  jr_last_payload :: "byte list"
  jr_last_valid :: bool

definition new_reader :: "journal_header \<Rightarrow> bool \<Rightarrow> byte list \<Rightarrow> journal_reader" where
  "new_reader mem opens content =
     \<lparr>jr_file = content, jr_open = opens, jr_pos = 0, jr_eof = False, jr_fail = (\<not> opens),
      jr_last_header = mem, jr_last_payload = [], jr_last_valid = False\<rparr>"

definition stream_read :: "nat \<Rightarrow> journal_reader \<Rightarrow> byte list \<times> journal_reader" where
  "stream_read n r =
     (if jr_fail r \<or> jr_eof r \<or> \<not> jr_open r then ([], r\<lparr>jr_fail := True\<rparr>)
      else (let bs = take n (drop (jr_pos r) (jr_file r)); r1 = r\<lparr>jr_pos := jr_pos r + length bs\<rparr>
            in if length bs < n then (bs, r1\<lparr>jr_eof := True, jr_fail := True\<rparr>) else (bs, r1)))"

definition read_next :: "journal_reader \<Rightarrow> (journal_header \<times> byte list) option \<times> journal_reader" where
  "read_next r =
     (if jr_fail r \<or> \<not> jr_open r then (None, r)
      else (let (hb, r1) = stream_read HEADER_SIZE r in
        if jr_fail r1 \<or> length hb \<noteq> HEADER_SIZE then (None, r1\<lparr>jr_last_valid := False\<rparr>)
        else (let h = header_of_bytes hb; n = unat (jh_payload_size h); (pb, r2) = stream_read n r1 in
          if jr_fail r2 \<or> length pb \<noteq> n then (None, r2\<lparr>jr_last_valid := False\<rparr>)
          else (Some (h, pb), r2\<lparr>jr_last_header := h, jr_last_payload := pb, jr_last_valid := True\<rparr>))))"

definition reader_destroy :: "journal_reader \<Rightarrow> journal_reader" where
  "reader_destroy r = (if jr_open r then r\<lparr>jr_open := False\<rparr> else r)"

text \<open>Clearing and seeking; a seek on a stream without a file fails.\<close>

definition reader_reset :: "journal_reader \<Rightarrow> journal_reader" where
  "reader_reset r = r\<lparr>jr_pos := 0, jr_eof := False, jr_fail := (\<not> jr_open r), jr_last_valid := False\<rparr>"

definition seek_back :: "nat \<Rightarrow> journal_reader \<Rightarrow> journal_reader" where
  "seek_back n r = r\<lparr>jr_pos := jr_pos r - n, jr_eof := False\<rparr>"

lemma stream_read_keeps: "stream_read n r = (bs, r1) \<Longrightarrow> jr_file r1 = jr_file r \<and> jr_open r1 = jr_open r"
  by (auto simp: stream_read_def Let_def split: if_splits)

lemma stream_read_pos: "stream_read n r = (bs, r1) \<Longrightarrow> \<not> jr_fail r1 \<Longrightarrow> jr_pos r1 = jr_pos r + n \<and> (0 < n \<longrightarrow> jr_pos r1 \<le> length (jr_file r))"
  by (auto simp: stream_read_def Let_def split: if_splits)

lemma read_next_advances:
  assumes "read_next r = (Some x, r1)"
  shows "jr_file r1 = jr_file r" "jr_pos r < jr_pos r1" "jr_pos r < length (jr_file r)"
proof -
  obtain hb r2 where 1: "stream_read HEADER_SIZE r = (hb, r2)" by fastforce
  obtain pb r3 where 2: "stream_read (unat (jh_payload_size (header_of_bytes hb))) r2 = (pb, r3)" by fastforce
  have f: "\<not> jr_fail r2" "\<not> jr_fail r3" "jr_file r1 = jr_file r3" "jr_pos r1 = jr_pos r3"
    using assms by (auto simp: read_next_def 1 2 Let_def split: if_splits)
  show "jr_file r1 = jr_file r" "jr_pos r < jr_pos r1" "jr_pos r < length (jr_file r)"
    using f stream_read_pos [OF 1] stream_read_pos [OF 2] stream_read_keeps [OF 1] stream_read_keeps [OF 2]
    by (auto simp: HEADER_SIZE_def)
qed

definition unread :: "journal_reader \<Rightarrow> nat" where
  "unread r = length (jr_file r) - jr_pos r"

lemma read_next_unread: "(Some x, r1) = read_next r \<Longrightarrow> unread r1 < unread r"
  using read_next_advances [of r x r1] by (simp add: unread_def)

function seek_loop :: "64 word \<Rightarrow> journal_reader \<Rightarrow> bool \<times> journal_reader" where
  "seek_loop sq r =
     (case read_next r of
        (Some (h, pb), r1) \<Rightarrow>
          if sq \<le> jh_sequence h then (True, seek_back (HEADER_SIZE + unat (jh_payload_size h)) r1) else seek_loop sq r1
      | (None, r1) \<Rightarrow> (False, r1))"
  by pat_completeness auto
termination by (relation "measure (\<lambda>(s, r). unread r)") (auto dest: read_next_unread)

definition seek_to_sequence :: "64 word \<Rightarrow> journal_reader \<Rightarrow> bool \<times> journal_reader" where
  "seek_to_sequence sq r = seek_loop sq (reader_reset r)"

definition has_more :: "journal_reader \<Rightarrow> bool \<times> journal_reader" where
  "has_more r =
     (if jr_fail r then (False, r)
      else if jr_eof r then (False, r\<lparr>jr_fail := True\<rparr>)
      else if jr_pos r < length (jr_file r) then (True, r)
      else (False, r\<lparr>jr_eof := True\<rparr>))"

definition verify_checksum :: "32 word list \<Rightarrow> journal_reader \<Rightarrow> bool" where
  "verify_checksum table r =
     (if \<not> jr_last_valid r \<or> jr_last_payload r = [] then False
      else compute_checksum table (jr_last_payload r) = jh_checksum (jr_last_header r))"

text \<open>\<^verbatim>\<open>tellg\<close> gives minus one, as an unsigned number, on a stream that is not good.\<close>

definition reader_position :: "journal_reader \<Rightarrow> 64 word \<times> journal_reader" where
  "reader_position r =
     (if jr_fail r \<or> jr_eof r then (- 1, r\<lparr>jr_fail := True\<rparr>) else (of_nat (jr_pos r), r))"

section \<open>The replay harness\<close>

datatype replay_event = OrderSeen journal_order byte | TradeSeen journal_trade

text \<open>The callbacks are sinks: \<open>rh_out\<close> is what they have been given. The flags say which are set.\<close>

record replay_harness =
  rh_reader :: "journal_reader option"
  rh_current_seq :: "64 word"
  rh_on_order :: bool
  rh_on_trade :: bool
  rh_out :: "replay_event list"

definition new_harness :: replay_harness where
  "new_harness = \<lparr>rh_reader = None, rh_current_seq = 0, rh_on_order = False, rh_on_trade = False, rh_out = []\<rparr>"

definition set_order_sink :: "bool \<Rightarrow> replay_harness \<Rightarrow> replay_harness" where
  "set_order_sink c h = h\<lparr>rh_on_order := c\<rparr>"

definition set_trade_sink :: "bool \<Rightarrow> replay_harness \<Rightarrow> replay_harness" where
  "set_trade_sink c h = h\<lparr>rh_on_trade := c\<rparr>"

definition current_sequence :: "replay_harness \<Rightarrow> 64 word" where
  "current_sequence h = rh_current_seq h"

text \<open>A reader loaded before is destroyed.\<close>

definition load_journal :: "journal_header \<Rightarrow> bool \<Rightarrow> byte list \<Rightarrow> replay_harness \<Rightarrow> replay_harness" where
  "load_journal mem opens content h = h\<lparr>rh_reader := Some (new_reader mem opens content), rh_current_seq := 0\<rparr>"

definition dispatch :: "journal_header \<Rightarrow> byte list \<Rightarrow> replay_harness \<Rightarrow> replay_event list" where
  "dispatch hdr pb h =
     (if jh_event_type hdr \<in> {event_code OrderNew, event_code OrderCancel, event_code OrderReplace} then
        (if rh_on_order h \<and> ORDER_SIZE \<le> length pb then [OrderSeen (order_of_bytes (take ORDER_SIZE pb)) (jh_event_type hdr)] else [])
      else if jh_event_type hdr = event_code TradeEvent then
        (if rh_on_trade h \<and> TRADE_SIZE \<le> length pb then [TradeSeen (trade_of_bytes (take TRADE_SIZE pb))] else [])
      else [])"

definition replay_step :: "replay_harness \<Rightarrow> bool \<times> replay_harness" where
  "replay_step h =
     (case rh_reader h of
        None \<Rightarrow> (False, h)
      | Some r \<Rightarrow>
         (case read_next r of
            (None, r1) \<Rightarrow> (False, h\<lparr>rh_reader := Some r1\<rparr>)
          | (Some (hdr, pb), r1) \<Rightarrow>
              (True, h\<lparr>rh_reader := Some r1, rh_current_seq := jh_sequence hdr, rh_out := rh_out h @ dispatch hdr pb h\<rparr>)))"

definition harness_unread :: "replay_harness \<Rightarrow> nat" where
  "harness_unread h = (case rh_reader h of None \<Rightarrow> 0 | Some r \<Rightarrow> unread r)"

lemma replay_step_unread: "(True, h1) = replay_step h \<Longrightarrow> harness_unread h1 < harness_unread h"
  by (auto simp: replay_step_def harness_unread_def dest!: sym [of "(True, h1)"] split: option.splits prod.splits intro: read_next_unread [OF sym])

function replay_all_loop :: "replay_harness \<Rightarrow> replay_harness" where
  "replay_all_loop h = (case replay_step h of (again, h1) \<Rightarrow> if again then replay_all_loop h1 else h1)"
  by pat_completeness auto
termination by (relation "measure harness_unread") (auto dest: replay_step_unread)

definition replay_all :: "replay_harness \<Rightarrow> replay_harness" where
  "replay_all h = (if rh_reader h = None then h else replay_all_loop h)"

function replay_until_loop :: "64 word \<Rightarrow> replay_harness \<Rightarrow> replay_harness" where
  "replay_until_loop sq h =
     (if rh_current_seq h < sq
      then (case replay_step h of (again, h1) \<Rightarrow> if again then replay_until_loop sq h1 else h1)
      else h)"
  by pat_completeness auto
termination by (relation "measure (\<lambda>(s, h). harness_unread h)") (auto dest: replay_step_unread)

definition replay_until :: "64 word \<Rightarrow> replay_harness \<Rightarrow> replay_harness" where
  "replay_until sq h = (if rh_reader h = None then h else replay_until_loop sq h)"

definition same_entry :: "journal_header \<times> byte list \<Rightarrow> journal_header \<times> byte list \<Rightarrow> bool" where
  "same_entry x y \<longleftrightarrow>
     \<not> (jh_sequence (fst x) \<noteq> jh_sequence (fst y) \<or> jh_event_type (fst x) \<noteq> jh_event_type (fst y) \<or>
        jh_payload_size (fst x) \<noteq> jh_payload_size (fst y) \<or> jh_checksum (fst x) \<noteq> jh_checksum (fst y)) \<and>
     snd x = snd y"

function verify_loop :: "32 word list \<Rightarrow> journal_reader \<Rightarrow> journal_reader \<Rightarrow> bool \<times> journal_reader" where
  "verify_loop table r e =
     (case (read_next r, read_next e) of
        ((x, r1), (y, e1)) \<Rightarrow>
          if (x = None) \<noteq> (y = None) then (False, r1)
          else case (x, y) of
            (Some a, Some b) \<Rightarrow>
              if \<not> verify_checksum table r1 \<or> \<not> verify_checksum table e1 then (False, r1)
              else if \<not> same_entry a b then (False, r1)
              else verify_loop table r1 e1
          | _ \<Rightarrow> (True, r1))"
  by pat_completeness auto
termination by (relation "measure (\<lambda>(t, r, e). unread r)") (auto dest: read_next_unread)

definition verify_against ::
  "journal_header \<Rightarrow> 32 word list \<Rightarrow> bool \<Rightarrow> byte list \<Rightarrow> replay_harness \<Rightarrow> bool \<times> replay_harness" where
  "verify_against mem table opens expected h =
     (case rh_reader h of
        None \<Rightarrow> (False, h)
      | Some r \<Rightarrow>
         (case verify_loop table (reader_reset r) (new_reader mem opens expected) of
            (ok, r1) \<Rightarrow> (ok, h\<lparr>rh_reader := Some r1\<rparr>)))"

text \<open>The loops unfold only on demand.\<close>

declare seek_loop.simps [simp del] replay_all_loop.simps [simp del] replay_until_loop.simps [simp del] verify_loop.simps [simp del]

end
