(* ===== verification/Journal_Entries.thy ===== *)
theory Journal_Entries
  imports Event_Journal
begin

text \<open>
  The journal as a list of entries: what a file holds as a pure function of its bytes, the reader as
  an event source over that list, replay as a map over it, and what the writer appends to it.
\<close>

section \<open>The entries of a file\<close>

type_synonym entry_read = "journal_header \<times> byte list"

function entries_in :: "byte list \<Rightarrow> entry_read list" where
  "entries_in bs =
     (if length bs < HEADER_SIZE then []
      else (let h = header_of_bytes (take HEADER_SIZE bs); n = unat (jh_payload_size h) in
            if length bs < HEADER_SIZE + n then []
            else (h, take n (drop HEADER_SIZE bs)) # entries_in (drop (HEADER_SIZE + n) bs)))"
  by pat_completeness auto
termination by (relation "measure length") (auto simp: HEADER_SIZE_def)

declare entries_in.simps [simp del]

definition rest :: "journal_reader \<Rightarrow> byte list" where
  "rest r = (if jr_fail r \<or> jr_eof r \<or> \<not> jr_open r then [] else drop (jr_pos r) (jr_file r))"

definition remaining_entries :: "journal_reader \<Rightarrow> entry_read list" where
  "remaining_entries r = entries_in (rest r)"

lemma entries_short: "length bs < HEADER_SIZE \<Longrightarrow> entries_in bs = []"
  by (simp add: entries_in.simps)

lemma read_next_stops:
  assumes "remaining_entries r = []"
  shows "\<exists>r1. read_next r = (None, r1) \<and> remaining_entries r1 = []"
proof -
  have stuck: "remaining_entries r1 = []" if "jr_fail r1 \<or> jr_eof r1 \<or> \<not> jr_open r1" for r1
    using that by (auto simp: remaining_entries_def rest_def entries_short HEADER_SIZE_def)
  show ?thesis
  proof (cases "jr_fail r \<or> jr_eof r \<or> \<not> jr_open r")
    case True
    then show ?thesis using assms stuck by (auto simp: read_next_def stream_read_def Let_def HEADER_SIZE_def)
  next
    case False
    have e: "entries_in (drop (jr_pos r) (jr_file r)) = []" using assms False by (simp add: remaining_entries_def rest_def)
    let ?bs = "drop (jr_pos r) (jr_file r)"
    show ?thesis
    proof (cases "length ?bs < HEADER_SIZE")
      case True
      then show ?thesis using False stuck by (auto simp: read_next_def stream_read_def Let_def)
    next
      case long: False
      let ?h = "header_of_bytes (take HEADER_SIZE ?bs)"
      have "length ?bs < HEADER_SIZE + unat (jh_payload_size ?h)"
        using e long by (subst (asm) entries_in.simps) (auto simp: Let_def split: if_splits)
      then show ?thesis using False long stuck by (auto simp: read_next_def stream_read_def Let_def add.commute)
    qed
  qed
qed

lemma read_next_entry:
  assumes "remaining_entries r = x # xs"
  shows "\<exists>r1. read_next r = (Some x, r1) \<and> remaining_entries r1 = xs \<and> jr_last_header r1 = fst x \<and> jr_last_payload r1 = snd x \<and>
    jr_last_valid r1 \<and> jr_file r1 = jr_file r \<and> jr_open r1 \<and> \<not> jr_fail r1 \<and> \<not> jr_eof r1 \<and>
    jr_pos r1 = jr_pos r + (HEADER_SIZE + unat (jh_payload_size (fst x)))"
proof -
  have g: "\<not> jr_fail r" "\<not> jr_eof r" "jr_open r"
    using assms by (auto simp: remaining_entries_def rest_def entries_short HEADER_SIZE_def split: if_splits)
  let ?bs = "drop (jr_pos r) (jr_file r)" and ?h = "header_of_bytes (take HEADER_SIZE (drop (jr_pos r) (jr_file r)))"
  let ?n = "unat (jh_payload_size ?h)"
  have e: "entries_in ?bs = x # xs" using assms g by (simp add: remaining_entries_def rest_def)
  then have l: "HEADER_SIZE \<le> length ?bs" "HEADER_SIZE + ?n \<le> length ?bs" "x = (?h, take ?n (drop HEADER_SIZE ?bs))"
    "xs = entries_in (drop (HEADER_SIZE + ?n) ?bs)"
    by (subst (asm) entries_in.simps; auto simp: Let_def split: if_splits)+
  have 1: "stream_read HEADER_SIZE r = (take HEADER_SIZE ?bs, r\<lparr>jr_pos := jr_pos r + HEADER_SIZE\<rparr>)"
    using g l(1) by (simp add: stream_read_def Let_def)
  have 2: "stream_read ?n (r\<lparr>jr_pos := jr_pos r + HEADER_SIZE\<rparr>) =
      (take ?n (drop HEADER_SIZE ?bs), r\<lparr>jr_pos := jr_pos r + (HEADER_SIZE + ?n)\<rparr>)"
    using g l(2) by (simp add: stream_read_def Let_def add.commute add.left_commute)
  have len: "length (take HEADER_SIZE ?bs) = HEADER_SIZE" "length (take ?n (drop HEADER_SIZE ?bs)) = ?n" using l(1,2) by simp_all
  define r1 where "r1 = r\<lparr>jr_pos := jr_pos r + (HEADER_SIZE + ?n), jr_last_header := ?h,
    jr_last_payload := take ?n (drop HEADER_SIZE ?bs), jr_last_valid := True\<rparr>"
  have "read_next r = (Some x, r1)"
    unfolding read_next_def 1 using g len by (simp add: Let_def 2 l(3) r1_def)
  moreover have "remaining_entries r1 = xs"
    using g by (simp add: remaining_entries_def rest_def r1_def l(4) add.commute)
  ultimately show ?thesis using g l(3) by (simp add: r1_def)
qed

section \<open>The interface of an event source\<close>

locale event_source =
  fixes pull :: "'r \<Rightarrow> 'e option \<times> 'r"
    and left :: "'r \<Rightarrow> 'e list"
  assumes pull_end: "left r = [] \<Longrightarrow> fst (pull r) = None \<and> left (snd (pull r)) = []"
    and pull_item: "left r = x # xs \<Longrightarrow> fst (pull r) = Some x \<and> left (snd (pull r)) = xs"
begin

lemma pull_cases:
  obtains (stop) r1 where "pull r = (None, r1)" "left r = []" "left r1 = []"
  | (item) x r1 where "pull r = (Some x, r1)" "left r = x # left r1"
proof (cases "left r")
  case Nil
  then show ?thesis using pull_end [OF Nil] by (intro stop [of "snd (pull r)"]) (auto simp: prod_eq_iff)
next
  case (Cons x xs)
  then show ?thesis using pull_item [OF Cons] by (intro item [of x "snd (pull r)"]) (auto simp: prod_eq_iff)
qed

lemma pull_none_iff: "fst (pull r) = None \<longleftrightarrow> left r = []"
  by (rule pull_cases [of r]) auto

end

interpretation js: event_source read_next remaining_entries
proof
  fix r x xs
  show "remaining_entries r = [] \<Longrightarrow> fst (read_next r) = None \<and> remaining_entries (snd (read_next r)) = []"
    using read_next_stops [of r] by auto
  show "remaining_entries r = x # xs \<Longrightarrow> fst (read_next r) = Some x \<and> remaining_entries (snd (read_next r)) = xs"
    using read_next_entry [of r x xs] by auto
qed

section \<open>Replaying\<close>

definition seen :: "replay_harness \<Rightarrow> entry_read list \<Rightarrow> replay_event list" where
  "seen h es = concat (map (\<lambda>(hdr, pb). dispatch hdr pb h) es)"

lemma seen_frame: "rh_on_order h' = rh_on_order h \<Longrightarrow> rh_on_trade h' = rh_on_trade h \<Longrightarrow> seen h' = seen h"
  by (rule ext) (simp only: seen_def dispatch_def)

lemma replay_all_entries:
  assumes "rh_reader h = Some r"
  shows "\<exists>r1. replay_all h = h\<lparr>rh_reader := Some r1, rh_out := rh_out h @ seen h (remaining_entries r),
      rh_current_seq := (if remaining_entries r = [] then rh_current_seq h else jh_sequence (fst (last (remaining_entries r))))\<rparr>
    \<and> remaining_entries r1 = []"
proof -
  have "\<exists>r1. replay_all_loop h = h\<lparr>rh_reader := Some r1, rh_out := rh_out h @ seen h (remaining_entries r),
      rh_current_seq := (if remaining_entries r = [] then rh_current_seq h else jh_sequence (fst (last (remaining_entries r))))\<rparr>
    \<and> remaining_entries r1 = []"
    using assms
  proof (induction "remaining_entries r" arbitrary: h r)
    case Nil
    from js.pull_end [OF Nil.hyps [symmetric]] obtain r1 where "read_next r = (None, r1)" "remaining_entries r1 = []"
      by (metis prod.collapse)
    then show ?case using Nil by (subst replay_all_loop.simps) (auto simp: replay_step_def seen_def intro!: exI [of _ r1])
  next
    case (Cons x xs)
    from js.pull_item [OF Cons.hyps(2) [symmetric]] obtain r1 where r1: "read_next r = (Some x, r1)" "remaining_entries r1 = xs"
      by (metis prod.collapse)
    obtain hdr pb where x: "x = (hdr, pb)" by (cases x)
    let ?h = "h\<lparr>rh_reader := Some r1, rh_current_seq := jh_sequence hdr, rh_out := rh_out h @ dispatch hdr pb h\<rparr>"
    have st: "replay_step h = (True, ?h)" using Cons.prems r1 x by (simp add: replay_step_def)
    have d: "seen ?h es = seen h es" for es by (subst seen_frame [of ?h h]) simp_all
    from Cons.hyps(1) [OF r1(2) [symmetric], of ?h] obtain r2 where "replay_all_loop ?h = ?h\<lparr>rh_reader := Some r2,
        rh_out := rh_out ?h @ seen h xs, rh_current_seq := (if xs = [] then rh_current_seq ?h else jh_sequence (fst (last xs)))\<rparr>"
      "remaining_entries r2 = []" unfolding r1(2) d by auto
    then show ?case unfolding Cons.hyps(2) [symmetric]
      by (subst replay_all_loop.simps) (auto simp: st x seen_def intro!: exI [of _ r2])
  qed
  then show ?thesis using assms by (simp add: replay_all_def)
qed


section \<open>What the writer leaves in the file\<close>

definition entry_ok :: "entry_read \<Rightarrow> bool" where
  "entry_ok x \<longleftrightarrow> length (jh_reserved (fst x)) = 7 \<and> unat (jh_payload_size (fst x)) = length (snd x)"

definition image_of :: "entry_read list \<Rightarrow> byte list" where
  "image_of es = concat (map (\<lambda>x. header_bytes (fst x) @ snd x) es)"

lemma entries_in_image: "list_all entry_ok es \<Longrightarrow> entries_in (image_of es @ bs) = es @ entries_in bs"
proof (induction es)
  case (Cons x es)
  have x: "length (header_bytes (fst x)) = HEADER_SIZE" "header_of_bytes (header_bytes (fst x)) = fst x"
    "unat (jh_payload_size (fst x)) = length (snd x)"
    using Cons.prems by (simp_all add: entry_ok_def header_roundtrip)
  have "entries_in (header_bytes (fst x) @ snd x @ image_of es @ bs) = x # entries_in (image_of es @ bs)"
    by (subst entries_in.simps) (simp add: x Let_def)
  then show ?case using Cons by (simp add: image_of_def)
qed (simp add: image_of_def)

lemma entries_of_image: "list_all entry_ok es \<Longrightarrow> entries_in (image_of es) = es"
  using entries_in_image [of es "[]"] by (simp add: entries_short HEADER_SIZE_def)

datatype logged = LoggedOrder order event_type | LoggedTrade trade

type_synonym log_call = "byte list \<times> timestamp \<times> logged"

fun log_event :: "32 word list \<Rightarrow> log_call \<Rightarrow> event_journal \<Rightarrow> event_journal" where
  "log_event table (gap, now, LoggedOrder x type) j = log_order table gap now x type j"
| "log_event table (gap, now, LoggedTrade t) j = log_trade table gap now t j"

text \<open>Calls the file format is made for: eight symbol bytes, 64-bit prices, order events logged as such.\<close>

fun call_ok :: "log_call \<Rightarrow> bool" where
  "call_ok (gap, now, LoggedOrder x type) \<longleftrightarrow>
     8 \<le> length gap \<and> symbol_ok (o_symbol x) \<and> s64_range (o_price x) \<and> type \<in> {OrderNew, OrderCancel, OrderReplace}"
| "call_ok (gap, now, LoggedTrade t) \<longleftrightarrow> 4 \<le> length gap \<and> symbol_ok (t_symbol t) \<and> s64_range (t_price t)"

fun call_payload :: "log_call \<Rightarrow> byte list" where
  "call_payload (gap, now, LoggedOrder x type) = order_bytes gap (order_payload x)"
| "call_payload (gap, now, LoggedTrade t) = trade_bytes gap (trade_payload t)"

fun call_type :: "log_call \<Rightarrow> event_type" where
  "call_type (gap, now, LoggedOrder x type) = type"
| "call_type (gap, now, LoggedTrade t) = TradeEvent"

fun call_seen :: "log_call \<Rightarrow> replay_event" where
  "call_seen (gap, now, LoggedOrder x type) = OrderSeen (order_payload x) (event_code type)"
| "call_seen (gap, now, LoggedTrade t) = TradeSeen (trade_payload t)"

definition call_entry :: "32 word list \<Rightarrow> 64 word \<Rightarrow> log_call \<Rightarrow> entry_read" where
  "call_entry table sq c =
     (\<lparr>jh_sequence = sq, jh_timestamp = fst (snd c), jh_event_type = event_code (call_type c), jh_reserved = replicate 7 0,
       jh_payload_size = of_nat (length (call_payload c)), jh_checksum = compute_checksum table (call_payload c)\<rparr>, call_payload c)"

fun call_entries :: "32 word list \<Rightarrow> 64 word \<Rightarrow> log_call list \<Rightarrow> entry_read list" where
  "call_entries table sq [] = []"
| "call_entries table sq (c # cs) = call_entry table sq c # call_entries table (sq + 1) cs"

lemma payload_symbol [simp]: "jo_symbol (order_payload x) = o_symbol x" "jt_symbol (trade_payload t) = t_symbol t"
  "jo_price (order_payload x) = o_price x" "jt_price (trade_payload t) = t_price t" "length (jt_pad (trade_payload t)) = 7"
  by (simp_all add: order_payload_def trade_payload_def)

lemma call_payload_length: "call_ok c \<Longrightarrow> length (call_payload c) = (case snd (snd c) of LoggedOrder x type \<Rightarrow> ORDER_SIZE | LoggedTrade t \<Rightarrow> TRADE_SIZE)"
  by (cases c rule: call_ok.cases) auto

lemma call_entry_ok: "call_ok c \<Longrightarrow> entry_ok (call_entry table sq c)"
  using call_payload_length [of c]
  by (cases c rule: call_ok.cases) (auto simp: entry_ok_def call_entry_def ORDER_SIZE_def TRADE_SIZE_def)

lemma call_entries_ok: "list_all call_ok cs \<Longrightarrow> list_all entry_ok (call_entries table sq cs)"
  by (induction cs arbitrary: sq) (auto simp: call_entry_ok)

lemma log_event_effect:
  assumes "call_ok c" "ej_open j"
  shows "log_event table c j = j\<lparr>ej_buffer := ej_buffer j @ image_of [call_entry table (ej_sequence j) c],
    ej_sequence := ej_sequence j + 1, ej_file_size := ej_file_size j + of_nat (length (image_of [call_entry table (ej_sequence j) c]))\<rparr>"
  using assms call_payload_length [OF assms(1)]
  by (cases c rule: call_ok.cases)
    (auto simp: log_order_def log_trade_def write_header_def stream_write_def Let_def call_entry_def image_of_def)

lemma log_events_effect:
  assumes "list_all call_ok cs" "ej_open j"
  shows "fold (log_event table) cs j = j\<lparr>ej_buffer := ej_buffer j @ image_of (call_entries table (ej_sequence j) cs),
    ej_sequence := ej_sequence j + of_nat (length cs),
    ej_file_size := ej_file_size j + of_nat (length (image_of (call_entries table (ej_sequence j) cs)))\<rparr>"
  using assms
proof (induction cs arbitrary: j)
  case (Cons c cs)
  have c: "call_ok c" "ej_open j" "list_all call_ok cs" using Cons.prems by auto
  have im: "image_of (x # xs) = image_of [x] @ image_of xs" for x xs by (simp add: image_of_def)
  show ?case
    using c by (simp add: log_event_effect Cons.IH im [of _ "call_entries _ _ _"] add.assoc)
qed (simp add: image_of_def)

section \<open>Dispatching what was written\<close>

lemma dispatch_call:
  assumes "call_ok c" "rh_on_order h" "rh_on_trade h"
  shows "dispatch (fst (call_entry table sq c)) (snd (call_entry table sq c)) h = [call_seen c]"
proof (cases c rule: call_ok.cases)
  case (1 gap now x type)
  then have "order_of_bytes (take ORDER_SIZE (order_bytes gap (order_payload x))) = order_payload x"
    using assms(1) by (simp add: order_roundtrip)
  then show ?thesis using 1 assms by (auto simp: dispatch_def call_entry_def event_code_def)
next
  case (2 gap now t)
  then have "trade_of_bytes (take TRADE_SIZE (trade_bytes gap (trade_payload t))) = trade_payload t"
    using assms(1) by (simp add: trade_roundtrip)
  then show ?thesis using 2 assms by (auto simp: dispatch_def call_entry_def event_code_def)
qed

lemma seen_calls:
  assumes "list_all call_ok cs" "rh_on_order h" "rh_on_trade h"
  shows "seen h (call_entries table sq cs) = map call_seen cs"
  using assms by (induction cs arbitrary: sq) (simp_all add: seen_def split_beta dispatch_call)

lemma call_sequences: "map (jh_sequence \<circ> fst) (call_entries table sq cs) = map (\<lambda>i. sq + of_nat i) [0..<length cs]"
  by (induction cs arbitrary: sq) (simp_all add: call_entry_def map_upt_Suc add.assoc del: upt_Suc)

end
