(* ===== verification/Journal_Properties.thy ===== *)
theory Journal_Properties
  imports Journal_Entries "HOL-Library.Sublist"
begin

text \<open>
  The properties of the journal, with the small journal they are instantiated at.
\<close>

section \<open>The tables a program can have\<close>

text \<open>The table after any number of journals, at least one, has been constructed.\<close>

definition live_table :: "nat \<Rightarrow> 32 word list" where
  "live_table n = snd ((init_crc32_table ^^ Suc n) crc_initial)"

lemma live_table: "live_table n = crc_table"
proof -
  have "(init_crc32_table ^^ Suc n) crc_initial = (True, crc_table)"
    by (induction n) (simp_all add: init_table init_twice)
  then show ?thesis by (simp add: live_table_def)
qed

definition entry_checks :: "32 word list \<Rightarrow> entry_read \<Rightarrow> bool" where
  "entry_checks table x \<longleftrightarrow> snd x \<noteq> [] \<and> compute_checksum table (snd x) = jh_checksum (fst x)"

lemma verify_after_read:
  assumes "remaining_entries r = x # xs"
  shows "verify_checksum table (snd (read_next r)) = entry_checks table x"
  using read_next_entry [OF assms] by (auto simp: verify_checksum_def entry_checks_def)

lemma new_reader_entries: "remaining_entries (new_reader mem True bs) = entries_in bs"
  by (simp add: remaining_entries_def rest_def new_reader_def)

lemma reset_entries: "jr_open r \<Longrightarrow> remaining_entries (reader_reset r) = entries_in (jr_file r)"
  by (simp add: remaining_entries_def rest_def reader_reset_def)

section \<open>A small journal for the witnesses\<close>

definition demo_journal_order :: order where
  "demo_journal_order = mk_order 7 (symbol_of_cstr [65, 66]) Sell (- 5) 30 Limit Day"

definition demo_trade :: trade where
  "demo_trade = \<lparr>t_seq_num = 3, t_symbol = symbol_of_cstr [65, 66], t_price = 100, t_quantity = 8, t_buy_order_id = 1,
     t_sell_order_id = 7, t_timestamp = 0, t_aggressor_side = Buy\<rparr>"

definition demo_calls :: "log_call list" where
  "demo_calls = [(replicate 8 1, 50, LoggedOrder demo_journal_order OrderNew), (replicate 8 2, 60, LoggedTrade demo_trade)]"

definition demo_header :: journal_header where
  "demo_header = \<lparr>jh_sequence = 0, jh_timestamp = 0, jh_event_type = 0, jh_reserved = replicate 7 0, jh_payload_size = 0, jh_checksum = 0\<rparr>"

definition demo_entry :: entry_read where
  "demo_entry = call_entry crc_table 0 (hd demo_calls)"

definition demo_reader :: "byte list \<Rightarrow> journal_reader" where
  "demo_reader bs = new_reader demo_header True bs"

definition demo_harness :: replay_harness where
  "demo_harness = set_trade_sink True (set_order_sink True new_harness)"

lemma demo_harness_sinks [simp]: "rh_on_order demo_harness" "rh_on_trade demo_harness" "rh_out demo_harness = []" "rh_reader demo_harness = None"
  by (simp_all add: demo_harness_def set_trade_sink_def set_order_sink_def new_harness_def)

lemma demo_calls_ok: "list_all call_ok demo_calls"
proof -
  have "symbol_ok (symbol_of_cstr [65, 66])" "s64_range (- 5)" "s64_range 100" by code_simp+
  then show ?thesis by (simp add: demo_calls_def demo_journal_order_def demo_trade_def mk_order_def)
qed

lemma demo_entry_facts: "entry_ok demo_entry" "length (snd demo_entry) = 48" "jh_checksum (fst demo_entry) = compute_checksum crc_table (snd demo_entry)"
proof -
  have c: "call_ok (hd demo_calls)" using demo_calls_ok by (simp add: demo_calls_def)
  show "entry_ok demo_entry" using call_entry_ok [OF c] by (simp add: demo_entry_def)
  show "length (snd demo_entry) = 48" using call_payload_length [OF c] by (simp add: demo_entry_def call_entry_def demo_calls_def ORDER_SIZE_def)
  show "jh_checksum (fst demo_entry) = compute_checksum crc_table (snd demo_entry)" by (simp add: demo_entry_def call_entry_def)
qed

lemma demo_reader_entries: "list_all entry_ok es \<Longrightarrow> remaining_entries (demo_reader (image_of es)) = es"
  by (simp add: demo_reader_def new_reader_entries entries_of_image)

text \<open>The entry with the first byte of its payload changed.\<close>

definition demo_corrupt :: entry_read where
  "demo_corrupt = (fst demo_entry, (hd (snd demo_entry) + 1) # tl (snd demo_entry))"

lemma demo_corrupt_ok: "entry_ok demo_corrupt" "snd demo_entry = hd (snd demo_entry) # tl (snd demo_entry)"
proof -
  show 1: "snd demo_entry = hd (snd demo_entry) # tl (snd demo_entry)" using demo_entry_facts(2) by (cases "snd demo_entry") auto
  show "entry_ok demo_corrupt" using demo_entry_facts(1,2) by (simp add: entry_ok_def demo_corrupt_def)
qed

section \<open>Properties of the journal\<close>

text \<open>
  C6. Writing and replaying are inverse: whatever orders and trades are logged and the journal destroyed,
  replaying the file hands the callbacks exactly these orders and trades, every journalled field
  intact, in the order they were logged, after what the file held before. The entries carry
  consecutive sequence numbers, starting at 0 also when the file is reopened with entries in it,
  and each passes its checksum. The size the journal gives is that of the bytes it has added itself.
\<close>

theorem journal_replay_roundtrip:
  assumes "list_all entry_ok old" "list_all call_ok cs" "rh_on_order h" "rh_on_trade h"
  shows "let (j0, g) = new_journal True (image_of old) ((init_crc32_table ^^ n) crc_initial);
      j = journal_destroy (fold (log_event (snd g)) cs j0);
      logged = call_entries crc_table 0 cs;
      h1 = replay_all (load_journal mem True (ej_file j) h)
    in entries_in (ej_file j) = old @ logged \<and> map (jh_sequence \<circ> fst) logged = map of_nat [0..<length cs] \<and>
       list_all (entry_checks crc_table) logged \<and>
       rh_out h1 = rh_out h @ seen h old @ map call_seen cs \<and>
       (cs \<noteq> [] \<longrightarrow> current_sequence h1 = of_nat (length cs - 1)) \<and> journal_sequence j = of_nat (length cs) \<and>
       of_nat (length (ej_file j)) = of_nat (length (image_of old)) + journal_size j"
proof -
  let ?logged = "call_entries crc_table 0 cs"
  let ?j0 = "\<lparr>ej_open = True, ej_file = image_of old, ej_buffer = [], ej_sequence = 0, ej_file_size = 0\<rparr>"
  let ?f = "image_of old @ image_of ?logged"
  have nj: "new_journal True (image_of old) ((init_crc32_table ^^ n) crc_initial) = (?j0, (True, crc_table))"
    using live_table [of n] by (cases n) (auto simp: new_journal_def init_table init_twice live_table_def prod_eq_iff init_crc32_table_def)
  have content: "ej_file (journal_destroy (fold (log_event crc_table) cs ?j0)) = ?f"
    "journal_sequence (journal_destroy (fold (log_event crc_table) cs ?j0)) = of_nat (length cs)"
    "journal_size (journal_destroy (fold (log_event crc_table) cs ?j0)) = of_nat (length (image_of ?logged))"
    using log_events_effect [OF assms(2), of ?j0 crc_table]
    by (simp_all add: journal_destroy_def journal_close_def journal_flush_def journal_sequence_def journal_size_def)
  have ok: "list_all entry_ok (old @ ?logged)" using assms(1) call_entries_ok [OF assms(2)] by simp
  have ent: "entries_in ?f = old @ ?logged"
    using entries_of_image [OF ok] by (simp add: image_of_def)
  have sq: "map (jh_sequence \<circ> fst) ?logged = map of_nat [0..<length cs]" using call_sequences [of crc_table 0 cs] by simp
  have chk: "list_all (entry_checks crc_table) (call_entries crc_table sq cs)" for sq
    using assms(2)
  proof (induction cs arbitrary: sq)
    case (Cons c cs)
    then have "call_payload c \<noteq> []" using call_payload_length [of c] by (auto simp: ORDER_SIZE_def TRADE_SIZE_def split: logged.splits)
    then show ?case using Cons by (simp add: entry_checks_def call_entry_def)
  qed simp
  let ?h = "load_journal mem True ?f h"
  have re: "remaining_entries (new_reader mem True ?f) = old @ ?logged" by (simp add: new_reader_entries ent)
  from replay_all_entries [of ?h "new_reader mem True ?f"] obtain r1 where
    rep: "replay_all ?h = ?h\<lparr>rh_reader := Some r1, rh_out := rh_out ?h @ seen ?h (old @ ?logged),
      rh_current_seq := (if old @ ?logged = [] then rh_current_seq ?h else jh_sequence (fst (last (old @ ?logged))))\<rparr>"
    unfolding re by (auto simp: load_journal_def)
  have sn: "seen ?h = seen h" by (rule seen_frame) (simp_all add: load_journal_def)
  have "seen h (old @ ?logged) = seen h old @ map call_seen cs"
    using seen_calls [OF assms(2-4), of crc_table 0] by (simp add: seen_def)
  moreover have "jh_sequence (fst (last (old @ ?logged))) = of_nat (length cs - 1)" if "cs \<noteq> []"
  proof -
    have ne: "?logged \<noteq> []" using that by (cases cs) simp_all
    have "jh_sequence (fst (last ?logged)) = last (map (jh_sequence \<circ> fst) ?logged)" using ne by (simp add: last_map)
    also have "\<dots> = of_nat (length cs - 1)" using that by (simp add: sq last_map)
    finally show ?thesis using ne by simp
  qed
  ultimately have "rh_out (replay_all ?h) = rh_out h @ seen h old @ map call_seen cs"
    "cs \<noteq> [] \<Longrightarrow> rh_current_seq (replay_all ?h) = of_nat (length cs - 1)"
    unfolding rep sn by (auto simp: load_journal_def)
  then show ?thesis by (simp add: nj content ent sq chk current_sequence_def)
qed

theorem journal_replay_roundtrip_witness:
  "let (j0, g) = new_journal True [] crc_initial; j = journal_destroy (fold (log_event (snd g)) demo_calls j0)
   in rh_out (replay_all (load_journal demo_header True (ej_file j) demo_harness)) =
      [OrderSeen (order_payload demo_journal_order) 0, TradeSeen (trade_payload demo_trade)]"
  using journal_replay_roundtrip [of "[]" demo_calls demo_harness 0 demo_header] demo_calls_ok
  by (simp add: image_of_def seen_def demo_calls_def event_code_def split_beta Let_def)

text \<open>
  C21. The table-driven checksum of the journal and its reader is the bit-by-bit CRC-32, whichever
  journal built the table, and it catches every corruption of one byte: an entry whose header holds
  the checksum of the payload that was written, and whose payload differs from it in at most one
  byte, passes verification exactly if it does not differ.
\<close>

theorem checksum_detects_corruption:
  assumes "remaining_entries r = (h, xs @ b # ys) # es" "jh_checksum h = compute_checksum (live_table m) (xs @ a # ys)"
  shows "compute_checksum (live_table n) bs = crc32 bs \<and>
    (verify_checksum (live_table n) (snd (read_next r)) \<longleftrightarrow> b = a)"
proof -
  have "crc32 (xs @ b # ys) = crc32 (xs @ a # ys) \<longleftrightarrow> b = a" using crc32_one_byte [of b a xs ys] by auto
  then show ?thesis
    unfolding verify_after_read [OF assms(1)] using assms(2) by (simp add: entry_checks_def live_table checksum_crc32)
qed

theorem checksum_detects_corruption_witness:
  "verify_checksum (live_table 0) (snd (read_next (demo_reader (image_of [demo_entry])))) = True \<and>
   verify_checksum (live_table 0) (snd (read_next (demo_reader (image_of [demo_corrupt])))) = False"
proof -
  let ?b = "hd (snd demo_entry)" and ?t = "tl (snd demo_entry)"
  have c: "jh_checksum (fst demo_entry) = compute_checksum (live_table 0) ([] @ ?b # ?t)"
    using demo_entry_facts(3) demo_corrupt_ok(2) by (simp add: live_table)
  have "remaining_entries (demo_reader (image_of [demo_entry])) = (fst demo_entry, [] @ ?b # ?t) # []"
    using demo_reader_entries [of "[demo_entry]"] demo_entry_facts(1) demo_corrupt_ok(2) by (simp add: prod_eq_iff)
  from checksum_detects_corruption [OF this c, of 0] have 1: "verify_checksum (live_table 0) (snd (read_next (demo_reader (image_of [demo_entry])))) = True"
    by blast
  have "remaining_entries (demo_reader (image_of [demo_corrupt])) = (fst demo_entry, [] @ (?b + 1) # ?t) # []"
    using demo_reader_entries [of "[demo_corrupt]"] demo_corrupt_ok(1) by (simp add: demo_corrupt_def)
  from checksum_detects_corruption [OF this c, of 0] have "verify_checksum (live_table 0) (snd (read_next (demo_reader (image_of [demo_corrupt])))) = False"
    by simp
  with 1 show ?thesis by blast
qed

text \<open>
  A process that has never constructed an \<^verbatim>\<open>EventJournal\<close>, as a pure reader does not, still has the
  zero table: verification of an intact entry of at least four bytes then fails, unless its checksum
  happens to be all ones.
\<close>

theorem verify_needs_writer:
  assumes "remaining_entries r = (h, pb) # es" "4 \<le> length pb"
  shows "verify_checksum (snd crc_initial) (snd (read_next r)) \<longleftrightarrow> jh_checksum h = 0xFFFFFFFF"
proof -
  have z: "crc_update (snd crc_initial) b c = drop_bit 8 c" for b c
  proof -
    have "(c XOR ucast b) AND 255 \<le> 255" by (rule word_and_le1)
    then have "unat ((c XOR ucast b) AND 255) < 256" by (simp add: word_le_nat_alt)
    then show ?thesis by (simp add: crc_update_def crc_initial_def)
  qed
  have f: "fold (crc_update (snd crc_initial)) bs c = drop_bit (8 * length bs) c" for bs c
    by (induction bs arbitrary: c) (simp_all add: z add.commute)
  have "drop_bit (8 * length pb) (0xFFFFFFFF :: 32 word) = 0"
    using assms(2) by (intro bit_word_eqI) (auto simp: bit_drop_bit_eq dest: bit_imp_le_length)
  then have "compute_checksum (snd crc_initial) pb = 0xFFFFFFFF" by (simp add: compute_checksum_def f)
  then show ?thesis unfolding verify_after_read [OF assms(1)] using assms(2) by (auto simp: entry_checks_def)
qed


theorem verify_needs_writer_witness:
  "verify_checksum (live_table 0) (snd (read_next (demo_reader (image_of [demo_entry])))) = True \<and>
   verify_checksum (snd crc_initial) (snd (read_next (demo_reader (image_of [demo_entry])))) =
     (compute_checksum crc_table (snd demo_entry) = 0xFFFFFFFF)"
proof -
  have r: "remaining_entries (demo_reader (image_of [demo_entry])) = (fst demo_entry, snd demo_entry) # []"
    using demo_reader_entries [of "[demo_entry]"] demo_entry_facts(1) by simp
  have "4 \<le> length (snd demo_entry)" using demo_entry_facts(2) by simp
  from verify_needs_writer [OF r this] verify_after_read [OF r] demo_entry_facts(2,3) show ?thesis
    by (auto simp: entry_checks_def live_table)
qed

section \<open>Interrupted journals\<close>

lemma entries_prefix: "prefix (entries_in (take n bs)) (entries_in bs)"
proof (induction bs arbitrary: n rule: entries_in.induct)
  case (1 bs)
  let ?h = "header_of_bytes (take HEADER_SIZE bs)"
  let ?n = "unat (jh_payload_size ?h)"
  show ?case
  proof (cases "HEADER_SIZE + ?n \<le> length (take n bs)")
    case True
    then have l: "\<not> length bs < HEADER_SIZE" "\<not> length bs < HEADER_SIZE + ?n" "HEADER_SIZE + ?n \<le> n" by auto
    have h: "take HEADER_SIZE (take n bs) = take HEADER_SIZE bs" "take ?n (drop HEADER_SIZE (take n bs)) = take ?n (drop HEADER_SIZE bs)"
      using l(3) by (simp_all add: drop_take min_def)
    have d: "drop (HEADER_SIZE + ?n) (take n bs) = take (n - (HEADER_SIZE + ?n)) (drop (HEADER_SIZE + ?n) bs)" by (simp add: drop_take)
    have "entries_in (take n bs) = (?h, take ?n (drop HEADER_SIZE bs)) # entries_in (drop (HEADER_SIZE + ?n) (take n bs))"
      using True by (subst entries_in.simps) (simp add: Let_def h not_less)
    moreover have "entries_in bs = (?h, take ?n (drop HEADER_SIZE bs)) # entries_in (drop (HEADER_SIZE + ?n) bs)"
      using l by (subst entries_in.simps) (simp add: Let_def)
    ultimately show ?thesis using 1 [OF l(1) refl refl l(2)] by (simp add: d)
  next
    case False
    have "entries_in (take n bs) = []"
    proof (cases "HEADER_SIZE \<le> n \<and> HEADER_SIZE \<le> length bs")
      case True
      then have h: "take HEADER_SIZE (take n bs) = take HEADER_SIZE bs" by (simp add: min_def)
      have "length (take n bs) < HEADER_SIZE + unat (jh_payload_size (header_of_bytes (take HEADER_SIZE (take n bs))))"
        unfolding h using False by (rule not_le_imp_less)
      then show ?thesis by (subst entries_in.simps) (simp only: Let_def if_True simp_thms split: if_split)
    qed (auto simp: entries_short)
    then show ?thesis by simp
  qed
qed

text \<open>
  C25. Replay of an interrupted journal: cutting a file after any number of bytes, in the middle of a
  header or a payload or not, replays to a prefix of what the whole file replays to, and nothing
  that was completely written before the cut is lost.
\<close>

theorem interrupted_journal_prefix:
  "prefix (rh_out (replay_all (load_journal mem True (take n bs) h))) (rh_out (replay_all (load_journal mem True bs h))) \<and>
   (list_all entry_ok es \<and> length (image_of es) \<le> n \<and> take (length (image_of es)) bs = image_of es \<longrightarrow>
     prefix (rh_out h @ seen h es) (rh_out (replay_all (load_journal mem True (take n bs) h))))"
proof -
  have out: "rh_out (replay_all (load_journal mem True bs h)) = rh_out h @ seen h (entries_in bs)" for bs
  proof -
    have "seen (load_journal mem True bs h) = seen h" by (rule seen_frame) (simp_all add: load_journal_def)
    then show ?thesis
      using replay_all_entries [of "load_journal mem True bs h" "new_reader mem True bs"]
      by (auto simp: new_reader_entries load_journal_def)
  qed
  have mono: "prefix (seen h xs) (seen h ys)" if "prefix xs ys" for xs ys
    using that by (auto simp: prefix_def seen_def)
  have "prefix es (entries_in (take n bs))"
    if e: "list_all entry_ok es" "length (image_of es) \<le> n" "take (length (image_of es)) bs = image_of es"
  proof -
    have "take n bs = image_of es @ drop (length (image_of es)) (take n bs)"
      using e(2,3) by (metis append_take_drop_id min.absorb1 take_take)
    then have "entries_in (take n bs) = es @ entries_in (drop (length (image_of es)) (take n bs))"
      using entries_in_image [OF e(1)] by metis
    then show ?thesis by simp
  qed
  then show ?thesis unfolding out using mono [OF entries_prefix] mono by auto
qed

theorem interrupted_journal_prefix_witness:
  "prefix [OrderSeen (order_payload demo_journal_order) 0]
     (rh_out (replay_all (load_journal demo_header True (take 85 (image_of [demo_entry, demo_entry])) demo_harness)))"
proof -
  have h: "length (header_bytes (fst demo_entry)) = 32" using demo_entry_facts(1) by (simp add: entry_ok_def HEADER_SIZE_def)
  then have "length (image_of [demo_entry]) = 80" using demo_entry_facts(2) by (simp add: image_of_def)
  moreover have "take (length (image_of [demo_entry])) (image_of [demo_entry, demo_entry]) = image_of [demo_entry]" by (simp add: image_of_def)
  moreover have "seen demo_harness [demo_entry] = [OrderSeen (order_payload demo_journal_order) 0]"
    using dispatch_call [of "hd demo_calls" demo_harness crc_table 0] demo_calls_ok
    by (simp add: seen_def demo_entry_def split_beta) (simp add: demo_calls_def event_code_def)
  ultimately show ?thesis
    using interrupted_journal_prefix [of demo_header 85 "image_of [demo_entry, demo_entry]" demo_harness "[demo_entry]"] demo_entry_facts(1)
    by simp
qed

section \<open>Seeking and comparing\<close>

lemma seek_loop_entries:
  assumes "jr_open r" "\<not> jr_fail r" "\<not> jr_eof r"
  shows "\<exists>r1. seek_loop sq r = (dropWhile (\<lambda>x. jh_sequence (fst x) < sq) (remaining_entries r) \<noteq> [], r1) \<and>
    remaining_entries r1 = dropWhile (\<lambda>x. jh_sequence (fst x) < sq) (remaining_entries r)"
  using assms
proof (induction "remaining_entries r" arbitrary: r)
  case Nil
  from js.pull_end [OF Nil.hyps [symmetric]] obtain r1 where "read_next r = (None, r1)" "remaining_entries r1 = []" by (metis prod.collapse)
  then show ?case using Nil.hyps [symmetric] by (simp add: seek_loop.simps [of sq r])
next
  case (Cons x xs)
  note q = Cons.hyps(2) [symmetric]
  from read_next_entry [OF q] obtain r1 where r1: "read_next r = (Some x, r1)" "remaining_entries r1 = xs" "jr_file r1 = jr_file r"
    "jr_open r1" "\<not> jr_fail r1" "\<not> jr_eof r1" "jr_pos r1 = jr_pos r + (HEADER_SIZE + unat (jh_payload_size (fst x)))" by blast
  obtain h pb where x: "x = (h, pb)" by (cases x)
  show ?case
  proof (cases "sq \<le> jh_sequence h")
    case True
    let ?s = "seek_back (HEADER_SIZE + unat (jh_payload_size h)) r1"
    have "rest ?s = rest r" using r1 Cons.prems x by (simp add: rest_def seek_back_def)
    then have "remaining_entries ?s = x # xs" using q by (simp add: remaining_entries_def)
    then show ?thesis using True r1(1) x q by (simp add: seek_loop.simps [of sq r] not_less)
  next
    case False
    then have "seek_loop sq r = seek_loop sq r1" using r1(1) x by (simp add: seek_loop.simps [of sq r])
    then show ?thesis using Cons.hyps(1) [OF r1(2) [symmetric] r1(4-6)] False x q r1(2) by (simp add: not_le)
  qed
qed

text \<open>
  C31. Seeking terminates on every file and stops before the first entry whose sequence number is not
  below the target, wherever the reader was before: the next read returns that entry, and the ones
  after it follow. It fails exactly when there is no such entry.
\<close>

theorem seek_finds_first:
  assumes "jr_open r"
  shows "let later = dropWhile (\<lambda>x. jh_sequence (fst x) < sq) (entries_in (jr_file r)); (found, r1) = seek_to_sequence sq r
    in (found \<longleftrightarrow> later \<noteq> []) \<and> remaining_entries r1 = later \<and>
       (found \<longrightarrow> fst (read_next r1) = Some (hd later))"
proof -
  have "jr_open (reader_reset r)" "\<not> jr_fail (reader_reset r)" "\<not> jr_eof (reader_reset r)" using assms by (simp_all add: reader_reset_def)
  from seek_loop_entries [OF this, of sq] obtain r1 where
    s: "seek_to_sequence sq r = (dropWhile (\<lambda>x. jh_sequence (fst x) < sq) (entries_in (jr_file r)) \<noteq> [], r1)"
    "remaining_entries r1 = dropWhile (\<lambda>x. jh_sequence (fst x) < sq) (entries_in (jr_file r))"
    unfolding seek_to_sequence_def reset_entries [OF assms] by blast
  define later where "later = dropWhile (\<lambda>x. jh_sequence (fst x) < sq) (entries_in (jr_file r))"
  have "later \<noteq> [] \<longrightarrow> fst (read_next r1) = Some (hd later)"
    using js.pull_item [of r1 "hd later" "tl later"] s(2) by (auto simp: later_def)
  then show ?thesis using s unfolding later_def [symmetric] by (simp add: Let_def)
qed

theorem seek_finds_first_witness:
  "fst (seek_to_sequence 0 (demo_reader (image_of [demo_entry]))) = True \<and>
   fst (seek_to_sequence 1 (demo_reader (image_of [demo_entry]))) = False"
proof -
  have o: "jr_open (demo_reader bs)" "jr_file (demo_reader bs) = bs" for bs by (simp_all add: demo_reader_def new_reader_def)
  have e: "entries_in (image_of [demo_entry]) = [demo_entry]" "jh_sequence (fst demo_entry) = 0"
    using entries_of_image [of "[demo_entry]"] demo_entry_facts(1) by (simp_all add: demo_entry_def call_entry_def)
  show ?thesis
    using seek_finds_first [OF o(1), of 0 "image_of [demo_entry]"] seek_finds_first [OF o(1), of 1 "image_of [demo_entry]"]
    by (simp add: o(2) e Let_def split_beta)
qed

lemma verify_loop_entries:
  "fst (verify_loop table r e) \<longleftrightarrow>
     list_all2 same_entry (remaining_entries r) (remaining_entries e) \<and>
     list_all (entry_checks table) (remaining_entries r) \<and> list_all (entry_checks table) (remaining_entries e)"
proof (induction "remaining_entries r" arbitrary: r e)
  case Nil
  from js.pull_end [OF Nil.hyps [symmetric]] obtain r1 where 1: "read_next r = (None, r1)" by (metis prod.collapse)
  show ?case
    by (rule js.pull_cases [of e]) (use 1 Nil.hyps [symmetric] in \<open>simp_all add: verify_loop.simps [of table r e]\<close>)
next
  case (Cons x xs)
  note q = Cons.hyps(2) [symmetric]
  from js.pull_item [OF q] obtain r1 where r1: "read_next r = (Some x, r1)" "remaining_entries r1 = xs" by (metis prod.collapse)
  show ?case
  proof (rule js.pull_cases [of e])
    fix e1
    assume "read_next e = (None, e1)" "remaining_entries e = []" "remaining_entries e1 = []"
    then show ?thesis using r1 q by (simp add: verify_loop.simps [of table r e])
  next
    fix y e1
    assume e: "read_next e = (Some y, e1)" "remaining_entries e = y # remaining_entries e1"
    have v: "verify_checksum table r1 = entry_checks table x" "verify_checksum table e1 = entry_checks table y"
      using verify_after_read [OF q, of table] verify_after_read [OF e(2), of table] r1 e by simp_all
    show ?thesis using Cons.hyps(1) [OF r1(2) [symmetric], of e1] r1 e q v
      by (cases x; cases y) (auto simp: verify_loop.simps [of table r e])
  qed
qed

text \<open>
  C30. \<^verbatim>\<open>verify_against\<close> terminates and accepts exactly when the two files hold the same number of
  complete entries, pairwise equal in sequence number, type, size, checksum and payload (time
  stamps may differ), and every payload is non-empty and passes its checksum. Bytes after the last
  complete entry of either file are ignored, and so is how far the harness had replayed.
\<close>

theorem verify_against_exact:
  assumes "rh_reader h = Some r" "jr_open r"
  shows "fst (verify_against mem table True expected h) \<longleftrightarrow>
    list_all2 same_entry (entries_in (jr_file r)) (entries_in expected) \<and>
    list_all (entry_checks table) (entries_in (jr_file r)) \<and> list_all (entry_checks table) (entries_in expected)"
  using verify_loop_entries [of table "reader_reset r" "new_reader mem True expected"]
  by (simp add: verify_against_def assms(1) reset_entries [OF assms(2)] new_reader_entries split_beta)

theorem verify_against_exact_witness:
  "fst (verify_against demo_header (live_table 0) True (image_of [demo_entry] @ [1, 2, 3])
     (load_journal demo_header True (image_of [demo_entry]) demo_harness)) = True"
proof -
  let ?h = "load_journal demo_header True (image_of [demo_entry]) demo_harness" and ?r = "demo_reader (image_of [demo_entry])"
  have r: "rh_reader ?h = Some ?r" "jr_open ?r" "jr_file ?r = image_of [demo_entry]"
    by (simp_all add: load_journal_def demo_reader_def new_reader_def)
  have "entries_in (image_of [demo_entry] @ [1, 2, 3]) = [demo_entry]"
    using entries_in_image [of "[demo_entry]" "[1, 2, 3]"] demo_entry_facts(1) by (simp add: entries_short HEADER_SIZE_def)
  moreover have "entries_in (image_of [demo_entry]) = [demo_entry]" using entries_of_image [of "[demo_entry]"] demo_entry_facts(1) by simp
  moreover have "entry_checks (live_table 0) demo_entry" using demo_entry_facts(2,3) by (auto simp: entry_checks_def live_table)
  ultimately show ?thesis
    using verify_against_exact [OF r(1,2), of demo_header "live_table 0" "image_of [demo_entry] @ [1, 2, 3]"] by (simp add: r(3) same_entry_def)
qed

section \<open>Replaying up to a sequence number\<close>

text \<open>The entries up to and including the first one whose sequence number is not below \<open>sq\<close>.\<close>

fun upto_sequence :: "64 word \<Rightarrow> entry_read list \<Rightarrow> entry_read list" where
  "upto_sequence sq [] = []"
| "upto_sequence sq (x # xs) = (if sq \<le> jh_sequence (fst x) then [x] else x # upto_sequence sq xs)"

lemma replay_until_entries:
  assumes "rh_reader h = Some r" "rh_current_seq h < sq"
  shows "\<exists>r1 zs. remaining_entries r = upto_sequence sq (remaining_entries r) @ zs \<and> remaining_entries r1 = zs \<and>
    replay_until_loop sq h = h\<lparr>rh_reader := Some r1, rh_out := rh_out h @ seen h (upto_sequence sq (remaining_entries r)),
      rh_current_seq := (if remaining_entries r = [] then rh_current_seq h
        else jh_sequence (fst (last (upto_sequence sq (remaining_entries r)))))\<rparr>"
  using assms
proof (induction "remaining_entries r" arbitrary: h r)
  case Nil
  from js.pull_end [OF Nil.hyps [symmetric]] obtain r1 where "read_next r = (None, r1)" "remaining_entries r1 = []"
    by (metis prod.collapse)
  then show ?case using Nil by (subst replay_until_loop.simps) (auto simp: replay_step_def seen_def intro!: exI [of _ r1])
next
  case (Cons x xs)
  from js.pull_item [OF Cons.hyps(2) [symmetric]] obtain r1 where r1: "read_next r = (Some x, r1)" "remaining_entries r1 = xs"
    by (metis prod.collapse)
  obtain hdr pb where x: "x = (hdr, pb)" by (cases x)
  let ?h = "h\<lparr>rh_reader := Some r1, rh_current_seq := jh_sequence hdr, rh_out := rh_out h @ dispatch hdr pb h\<rparr>"
  have st: "replay_step h = (True, ?h)" using Cons.prems(1) r1 x by (simp add: replay_step_def)
  have d: "seen ?h es = seen h es" for es by (subst seen_frame [of ?h h]) simp_all
  have loop: "replay_until_loop sq h = replay_until_loop sq ?h" using Cons.prems(2) by (subst replay_until_loop.simps) (simp add: st)
  show ?case
  proof (cases "sq \<le> jh_sequence hdr")
    case True
    then have "replay_until_loop sq ?h = ?h" by (subst replay_until_loop.simps) simp
    then show ?thesis unfolding Cons.hyps(2) [symmetric] loop using True r1(2)
      by (intro exI [of _ r1] exI [of _ xs]) (simp add: x seen_def)
  next
    case False
    have "rh_reader ?h = Some r1" "rh_current_seq ?h < sq" using False by simp_all
    from Cons.hyps(1) [OF r1(2) [symmetric] this, unfolded r1(2) d] obtain r2 zs where
      "xs = upto_sequence sq xs @ zs" "remaining_entries r2 = zs"
      "replay_until_loop sq ?h = ?h\<lparr>rh_reader := Some r2, rh_out := rh_out ?h @ seen h (upto_sequence sq xs),
        rh_current_seq := (if xs = [] then rh_current_seq ?h else jh_sequence (fst (last (upto_sequence sq xs))))\<rparr>"
      by blast
    then show ?thesis unfolding Cons.hyps(2) [symmetric] loop using False
      by (intro exI [of _ r2] exI [of _ zs]) (auto simp: x seen_def neq_Nil_conv split: if_splits)
  qed
qed

text \<open>
  C26. A replay up to a sequence number ends. It does nothing if the last sequence number seen is not
  below the target, as for target 0 on a journal just loaded, whose first entry has number 0;
  otherwise it hands out the entries up to and including the first one whose number is not below the
  target, and the reader stands right behind it. A pause leaves no trace: replaying the rest
  afterwards gives what one uninterrupted replay gives.
\<close>

theorem replay_until_resumes:
  assumes "rh_reader h = Some r"
  shows "let h1 = replay_until sq h in
    (sq \<le> current_sequence h \<longrightarrow> h1 = h) \<and>
    (current_sequence h < sq \<longrightarrow> rh_out h1 = rh_out h @ seen h (upto_sequence sq (remaining_entries r)) \<and>
      (\<exists>r1. rh_reader h1 = Some r1 \<and> remaining_entries r = upto_sequence sq (remaining_entries r) @ remaining_entries r1)) \<and>
    rh_out (replay_all h1) = rh_out (replay_all h)"
proof (cases "sq \<le> rh_current_seq h")
  case True
  then have "replay_until sq h = h" using assms by (simp add: replay_until_def replay_until_loop.simps [of sq h])
  then show ?thesis using True leD [OF True] by (auto simp: Let_def current_sequence_def)
next
  case False
  then have lt: "rh_current_seq h < sq" by simp
  let ?es = "remaining_entries r" and ?h1 = "replay_until sq h"
  from replay_until_entries [OF assms lt] assms obtain r1 zs c where
    1: "?es = upto_sequence sq ?es @ zs" "remaining_entries r1 = zs"
      "?h1 = h\<lparr>rh_reader := Some r1, rh_out := rh_out h @ seen h (upto_sequence sq ?es), rh_current_seq := c\<rparr>"
    by (auto simp: replay_until_def)
  have h1: "rh_reader ?h1 = Some r1" "rh_out ?h1 = rh_out h @ seen h (upto_sequence sq ?es)" by (simp_all add: 1(3))
  have sn: "seen ?h1 = seen h" by (rule seen_frame) (simp_all add: 1(3))
  from replay_all_entries [OF assms] replay_all_entries [OF h1(1)]
  have "rh_out (replay_all h) = rh_out h @ seen h ?es" "rh_out (replay_all ?h1) = rh_out ?h1 @ seen h zs"
    by (auto simp: sn 1(2))
  moreover have "seen h ?es = seen h (upto_sequence sq ?es) @ seen h zs" by (subst 1(1)) (simp add: seen_def)
  ultimately show ?thesis using lt h1 1(1,2) by (simp add: Let_def current_sequence_def)
qed

theorem replay_until_resumes_witness:
  "let h = load_journal demo_header True (image_of (call_entries crc_table 0 (demo_calls @ demo_calls))) demo_harness in
     replay_until 0 h = h \<and> map call_seen (take 2 demo_calls) = rh_out (replay_until 1 h) \<and>
     rh_out (replay_all (replay_until 1 h)) = rh_out (replay_all h)"
proof -
  let ?cs = "demo_calls @ demo_calls" let ?es = "call_entries crc_table 0 ?cs"
  let ?r = "new_reader demo_header True (image_of ?es)" let ?h = "load_journal demo_header True (image_of ?es) demo_harness"
  have ok: "list_all call_ok ?cs" using demo_calls_ok by simp
  have r: "rh_reader ?h = Some ?r" by (simp add: load_journal_def)
  have re: "remaining_entries ?r = ?es" by (simp add: new_reader_entries entries_of_image call_entries_ok [OF ok])
  have up: "upto_sequence 1 ?es = call_entries crc_table 0 demo_calls" by (simp add: demo_calls_def call_entry_def)
  have sn: "seen ?h = seen demo_harness" by (rule seen_frame) (simp_all add: load_journal_def)
  have cs: "current_sequence ?h = 0" "rh_out ?h = []" by (simp_all add: current_sequence_def load_journal_def)
  have "rh_out (replay_until 1 ?h) = map call_seen demo_calls"
    using replay_until_resumes [OF r, of 1] seen_calls [OF demo_calls_ok, of demo_harness crc_table 0]
    by (simp add: re up sn cs Let_def)
  then show ?thesis
    using replay_until_resumes [OF r, of 0] replay_until_resumes [OF r, of 1] by (simp add: Let_def cs demo_calls_def)
qed

end
