(* ===== verification/Agents.thy ===== *)
theory Agents
  imports Complex_Main Matching_Engine
begin

text \<open>
  The trading agents of \<^verbatim>\<open>include/agents/agents.hpp\<close> and \<^verbatim>\<open>src/agents\<close>, and the simulation that
  \<^verbatim>\<open>src/main.cpp\<close> runs: the agents it creates and its tick loop. The program around it, with its
  arguments and what it measures, is the theory \<open>Main_Program\<close>. The names of the agents are left out.
\<close>

section \<open>Doubles and random numbers\<close>

text \<open>
  Arithmetic on \<^verbatim>\<open>double\<close> is real arithmetic with every result rounded by \<open>rnd\<close>. Conversion to a 64-bit
  integer truncates towards zero; a value outside the range is undefined behaviour, \<^const>\<open>None\<close>.
\<close>

definition truncate64 :: "real \<Rightarrow> int option" where
  "truncate64 x = s64 (if 0 \<le> x then \<lfloor>x\<rfloor> else \<lceil>x\<rceil>)"

definition price_from_double :: "(real \<Rightarrow> real) \<Rightarrow> real \<Rightarrow> price option" where
  "price_from_double rnd p = truncate64 (rnd (p * of_int PRICE_SCALE))"

definition price_to_double :: "(real \<Rightarrow> real) \<Rightarrow> price \<Rightarrow> real" where
  "price_to_double rnd p = rnd (rnd (of_int p) / of_int PRICE_SCALE)"

text \<open>
  The distributions of the standard library over its Mersenne twister, whose results the standard
  does not fix: the state of the generator is a type of its own, and \<open>unit\<close>, \<open>pick_qty\<close> and
  \<open>pick_price\<close> draw from it. What the library documents is that a draw lies in the range asked for.
\<close>

record 'g draws =
  unit :: "'g \<Rightarrow> real \<times> 'g"
  pick_qty :: "quantity \<Rightarrow> quantity \<Rightarrow> 'g \<Rightarrow> quantity \<times> 'g"
  pick_price :: "price \<Rightarrow> price \<Rightarrow> 'g \<Rightarrow> price \<times> 'g"

definition draws_ok :: "'g draws \<Rightarrow> bool" where
  "draws_ok d \<longleftrightarrow>
     (\<forall>g. 0 \<le> fst (unit d g) \<and> fst (unit d g) < 1) \<and>
     (\<forall>l h g. l \<le> h \<longrightarrow> l \<le> fst (pick_qty d l h g) \<and> fst (pick_qty d l h g) \<le> h) \<and>
     (\<forall>l h g. l \<le> h \<longrightarrow> l \<le> fst (pick_price d l h g) \<and> fst (pick_price d l h g) \<le> h)"

section \<open>Market maker\<close>

record market_maker_config =
  mc_symbol :: symbol
  mc_base_size :: quantity
  mc_half_spread :: price
  mc_inventory_skew :: real
  mc_max_position :: quantity
  mc_quote_probability :: real
  mc_seed :: "32 word"

definition default_market_maker_config :: "(real \<Rightarrow> real) \<Rightarrow> market_maker_config" where
  "default_market_maker_config rnd =
     \<lparr>mc_symbol = symbol_of_cstr [65, 65, 80, 76], mc_base_size = 100, mc_half_spread = 10,
      mc_inventory_skew = rnd (1 / 10), mc_max_position = 1000, mc_quote_probability = rnd (9 / 10), mc_seed = 42\<rparr>"

record 'g market_maker =
  mm_config :: market_maker_config
  mm_rng :: 'g
  mm_next_order_id :: order_id
  mm_position :: int
  mm_realized_pnl :: int
  mm_num_trades :: "64 word"
  mm_last_mid :: price
  mm_bid_order_id :: order_id
  mm_ask_order_id :: order_id

definition new_market_maker :: "(32 word \<Rightarrow> 'g) \<Rightarrow> market_maker_config \<Rightarrow> 'g market_maker" where
  "new_market_maker seeded c =
     \<lparr>mm_config = c, mm_rng = seeded (mc_seed c), mm_next_order_id = 1, mm_position = 0, mm_realized_pnl = 0,
      mm_num_trades = 0, mm_last_mid = 0, mm_bid_order_id = 0, mm_ask_order_id = 0\<rparr>"

text \<open>A position is a signed 64-bit integer; its overflow is undefined.\<close>

definition moved_position :: "int \<Rightarrow> execution_report \<Rightarrow> int option" where
  "moved_position p r = (if er_side r = Buy then s64_add p (uint (er_last_qty r)) else s64_sub p (uint (er_last_qty r)))"

definition mm_on_fill :: "execution_report \<Rightarrow> 'g market_maker \<Rightarrow> 'g market_maker option" where
  "mm_on_fill r a = map_option (\<lambda>p. a\<lparr>mm_position := p, mm_num_trades := mm_num_trades a + 1\<rparr>) (moved_position (mm_position a) r)"

text \<open>The handler of trades is empty.\<close>

definition mm_on_trade :: "trade \<Rightarrow> 'g market_maker \<Rightarrow> 'g market_maker" where
  "mm_on_trade t a = a"

definition mid_of :: "bbo_update \<Rightarrow> price option" where
  "mid_of u = map_option (\<lambda>s. trunc_div s 2) (s64_add (bbo_bid_price u) (bbo_ask_price u))"

definition mm_on_bbo :: "bbo_update \<Rightarrow> 'g market_maker \<Rightarrow> 'g market_maker option" where
  "mm_on_bbo u a = map_option (\<lambda>m. a\<lparr>mm_last_mid := m\<rparr>) (mid_of u)"

definition mm_pnl :: "'g market_maker \<Rightarrow> int" where
  "mm_pnl a = mm_realized_pnl a"

definition compute_fair_value :: "'g market_maker \<Rightarrow> price" where
  "compute_fair_value a = mm_last_mid a"

text \<open>The two prices: fair value, half spread and inventory skew.\<close>

definition quote_prices :: "(real \<Rightarrow> real) \<Rightarrow> 'g market_maker \<Rightarrow> (price \<times> price) option" where
  "quote_prices rnd a =
     (let fair0 = compute_fair_value a;
          fair = (if fair0 = 0 then 100 * PRICE_SCALE else fair0);
          hs = mc_half_spread (mm_config a)
      in Option.bind (truncate64 (rnd (rnd (rnd (of_int (mm_position a)) * mc_inventory_skew (mm_config a)) * of_int PRICE_SCALE)))
           (\<lambda>skew. Option.bind (Option.bind (s64_sub fair hs) (\<lambda>p. s64_sub p skew))
             (\<lambda>bid. map_option (Pair bid) (Option.bind (s64_add fair hs) (\<lambda>p. s64_sub p skew)))))"

definition mm_cancel :: "order_result \<Rightarrow> symbol \<Rightarrow> order_id \<Rightarrow> engine \<Rightarrow> engine option" where
  "mm_cancel junk sy i e = (if 0 < i then map_option fst (engine_cancel junk sy i e) else Some e)"

definition mm_quote_bid :: "order_result \<Rightarrow> price \<Rightarrow> 'g market_maker \<times> engine \<Rightarrow> ('g market_maker \<times> engine) option" where
  "mm_quote_bid junk bid s =
     (let a = fst s; c = mm_config a in
      if mm_position a < uint (mc_max_position c)
      then (let i = mm_next_order_id a; a1 = a\<lparr>mm_next_order_id := i + 1, mm_bid_order_id := i\<rparr>
            in map_option (\<lambda>er. (a1, fst er)) (submit_order junk (mk_order i (mc_symbol c) Buy bid (mc_base_size c) Limit Day) (snd s)))
      else Some s)"

definition mm_quote_ask :: "order_result \<Rightarrow> price \<Rightarrow> 'g market_maker \<times> engine \<Rightarrow> ('g market_maker \<times> engine) option" where
  "mm_quote_ask junk ask s =
     (let a = fst s; c = mm_config a in
      if - uint (mc_max_position c) < mm_position a
      then (let i = mm_next_order_id a; a1 = a\<lparr>mm_next_order_id := i + 1, mm_ask_order_id := i\<rparr>
            in map_option (\<lambda>er. (a1, fst er)) (submit_order junk (mk_order i (mc_symbol c) Sell ask (mc_base_size c) Limit Day) (snd s)))
      else Some s)"

definition update_quotes ::
  "(real \<Rightarrow> real) \<Rightarrow> order_result \<Rightarrow> 'g market_maker \<Rightarrow> engine \<Rightarrow> ('g market_maker \<times> engine) option" where
  "update_quotes rnd junk a e =
     Option.bind (quote_prices rnd a) (\<lambda>(bid, ask).
     Option.bind (mm_cancel junk (mc_symbol (mm_config a)) (mm_bid_order_id a) e) (\<lambda>e1.
     Option.bind (mm_cancel junk (mc_symbol (mm_config a)) (mm_ask_order_id a) e1) (\<lambda>e2.
     Option.bind (mm_quote_bid junk bid (a, e2)) (mm_quote_ask junk ask))))"

definition mm_on_tick ::
  "(real \<Rightarrow> real) \<Rightarrow> 'g draws \<Rightarrow> order_result \<Rightarrow> 'g market_maker \<Rightarrow> engine \<Rightarrow> ('g market_maker \<times> engine) option" where
  "mm_on_tick rnd d junk a e =
     (case unit d (mm_rng a) of (u, g) \<Rightarrow>
        let a1 = a\<lparr>mm_rng := g\<rparr> in
        if u < mc_quote_probability (mm_config a1) then update_quotes rnd junk a1 e else Some (a1, e))"

definition cancel_all :: "order_result \<Rightarrow> 'g market_maker \<Rightarrow> engine \<Rightarrow> ('g market_maker \<times> engine) option" where
  "cancel_all junk a e =
     Option.bind (mm_cancel junk (mc_symbol (mm_config a)) (mm_bid_order_id a) e) (\<lambda>e1.
       let a1 = a\<lparr>mm_bid_order_id := 0\<rparr> in
       map_option (\<lambda>e2. (a1\<lparr>mm_ask_order_id := 0\<rparr>, e2))
         (mm_cancel junk (mc_symbol (mm_config a1)) (mm_ask_order_id a1) e1))"

section \<open>Momentum trader\<close>

record momentum_config =
  oc_symbol :: symbol
  oc_lookback_ticks :: nat
  oc_threshold :: real
  oc_order_size :: quantity
  oc_trade_probability :: real
  oc_seed :: "32 word"

definition default_momentum_config :: "(real \<Rightarrow> real) \<Rightarrow> momentum_config" where
  "default_momentum_config rnd =
     \<lparr>oc_symbol = symbol_of_cstr [65, 65, 80, 76], oc_lookback_ticks = 100, oc_threshold = rnd (1 / 1000),
      oc_order_size = 50, oc_trade_probability = rnd (1 / 2), oc_seed = 123\<rparr>"

record 'g momentum_agent =
  mo_config :: momentum_config
  mo_rng :: 'g
  mo_next_order_id :: order_id
  mo_price_history :: "price list"
  mo_position :: int

definition new_momentum :: "(32 word \<Rightarrow> 'g) \<Rightarrow> momentum_config \<Rightarrow> 'g momentum_agent" where
  "new_momentum seeded c =
     \<lparr>mo_config = c, mo_rng = seeded (oc_seed c), mo_next_order_id = 1, mo_price_history = [], mo_position = 0\<rparr>"

definition compute_signal :: "(real \<Rightarrow> real) \<Rightarrow> price list \<Rightarrow> real option" where
  "compute_signal rnd h =
     (if length h < 2 then Some 0
      else if hd h = 0 then Some 0
      else map_option (\<lambda>d. rnd (rnd (of_int d) / rnd (of_int (hd h)))) (s64_sub (last h) (hd h)))"

definition mo_submit :: "order_result \<Rightarrow> side \<Rightarrow> 'g momentum_agent \<Rightarrow> engine \<Rightarrow> ('g momentum_agent \<times> engine) option" where
  "mo_submit junk sd a e =
     (let i = mo_next_order_id a; c = mo_config a
      in map_option (\<lambda>er. (a\<lparr>mo_next_order_id := i + 1\<rparr>, fst er))
           (submit_order junk (mk_order i (oc_symbol c) sd 0 (oc_order_size c) Market Day) e))"

definition mo_on_tick ::
  "(real \<Rightarrow> real) \<Rightarrow> 'g draws \<Rightarrow> order_result \<Rightarrow> 'g momentum_agent \<Rightarrow> engine \<Rightarrow> ('g momentum_agent \<times> engine) option" where
  "mo_on_tick rnd d junk a e =
     (if length (mo_price_history a) < oc_lookback_ticks (mo_config a) then Some (a, e)
      else (case unit d (mo_rng a) of (u, g) \<Rightarrow>
        let a1 = a\<lparr>mo_rng := g\<rparr> in
        if oc_trade_probability (mo_config a1) < u then Some (a1, e)
        else Option.bind (compute_signal rnd (mo_price_history a1)) (\<lambda>signal.
          if oc_threshold (mo_config a1) < signal then mo_submit junk Buy a1 e
          else if signal < - oc_threshold (mo_config a1) then mo_submit junk Sell a1 e
          else Some (a1, e))))"

definition mo_on_fill :: "execution_report \<Rightarrow> 'g momentum_agent \<Rightarrow> 'g momentum_agent option" where
  "mo_on_fill r a = map_option (\<lambda>p. a\<lparr>mo_position := p\<rparr>) (moved_position (mo_position a) r)"

definition mo_on_bbo :: "bbo_update \<Rightarrow> 'g momentum_agent \<Rightarrow> 'g momentum_agent option" where
  "mo_on_bbo u a =
     map_option (\<lambda>m. let h = mo_price_history a @ [m] in
       a\<lparr>mo_price_history := (if oc_lookback_ticks (mo_config a) < length h then tl h else h)\<rparr>) (mid_of u)"

section \<open>Noise trader\<close>

record noise_config =
  nc_symbol :: symbol
  nc_order_probability :: real
  nc_market_order_ratio :: real
  nc_min_size :: quantity
  nc_max_size :: quantity
  nc_max_deviation :: price
  nc_seed :: "32 word"

definition default_noise_config :: "(real \<Rightarrow> real) \<Rightarrow> noise_config" where
  "default_noise_config rnd =
     \<lparr>nc_symbol = symbol_of_cstr [65, 65, 80, 76], nc_order_probability = rnd (1 / 10),
      nc_market_order_ratio = rnd (3 / 10), nc_min_size = 10, nc_max_size = 100, nc_max_deviation = 100, nc_seed = 456\<rparr>"

record 'g noise_trader =
  nt_config :: noise_config
  nt_rng :: 'g
  nt_next_order_id :: order_id
  nt_last_mid :: price

definition new_noise_trader :: "(32 word \<Rightarrow> 'g) \<Rightarrow> noise_config \<Rightarrow> 'g noise_trader" where
  "new_noise_trader seeded c =
     \<lparr>nt_config = c, nt_rng = seeded (nc_seed c), nt_next_order_id = 1, nt_last_mid = 100 * PRICE_SCALE\<rparr>"

text \<open>The price of a limit order: around the last mid, below it for buys, and at least 1.\<close>

definition noise_price :: "side \<Rightarrow> price \<Rightarrow> price \<Rightarrow> price \<Rightarrow> price option" where
  "noise_price sd mid max_dev deviation =
     map_option (\<lambda>p. if p \<le> 0 then 1 else p)
       (Option.bind (if sd = Buy then s64_sub mid (trunc_div max_dev 2) else s64_add mid (trunc_div max_dev 2))
         (\<lambda>p. s64_add p deviation))"

definition nt_on_tick :: "'g draws \<Rightarrow> order_result \<Rightarrow> 'g noise_trader \<Rightarrow> engine \<Rightarrow> ('g noise_trader \<times> engine) option" where
  "nt_on_tick d junk a e =
     (let c = nt_config a; (u, g) = unit d (nt_rng a) in
      if nc_order_probability c < u then Some (a\<lparr>nt_rng := g\<rparr>, e)
      else
        (let (us, g) = unit d g;
             sd = (if us < 1 / 2 then Buy else Sell);
             (size, g) = pick_qty d (nc_min_size c) (nc_max_size c) g;
             (um, g) = unit d g;
             is_market = (um < nc_market_order_ratio c);
             i = nt_next_order_id a
         in if is_market
            then map_option (\<lambda>er. (a\<lparr>nt_rng := g, nt_next_order_id := i + 1\<rparr>, fst er))
                   (submit_order junk (mk_order i (nc_symbol c) sd 0 size Market Day) e)
            else Option.bind (s64_sub 0 (nc_max_deviation c)) (\<lambda>low.
              let (deviation, g) = pick_price d low (nc_max_deviation c) g
              in Option.bind (noise_price sd (nt_last_mid a) (nc_max_deviation c) deviation) (\<lambda>p.
                   map_option (\<lambda>er. (a\<lparr>nt_rng := g, nt_next_order_id := i + 1\<rparr>, fst er))
                     (submit_order junk (mk_order i (nc_symbol c) sd p size Limit Day) e)))))"

definition nt_on_bbo :: "bbo_update \<Rightarrow> 'g noise_trader \<Rightarrow> 'g noise_trader option" where
  "nt_on_bbo u a =
     (if 0 < bbo_bid_price u \<and> bbo_ask_price u < INVALID_PRICE
      then map_option (\<lambda>m. a\<lparr>nt_last_mid := m\<rparr>) (mid_of u)
      else Some a)"

section \<open>The simulation\<close>

datatype 'g agent = MM "'g market_maker" | MOM "'g momentum_agent" | NOISE "'g noise_trader"

definition create_market_maker :: "(32 word \<Rightarrow> 'g) \<Rightarrow> market_maker_config \<Rightarrow> 'g agent" where
  "create_market_maker seeded c = MM (new_market_maker seeded c)"

definition create_momentum :: "(32 word \<Rightarrow> 'g) \<Rightarrow> momentum_config \<Rightarrow> 'g agent" where
  "create_momentum seeded c = MOM (new_momentum seeded c)"

definition create_noise_trader :: "(32 word \<Rightarrow> 'g) \<Rightarrow> noise_config \<Rightarrow> 'g agent" where
  "create_noise_trader seeded c = NOISE (new_noise_trader seeded c)"

fun on_tick ::
  "(real \<Rightarrow> real) \<Rightarrow> 'g draws \<Rightarrow> order_result \<Rightarrow> 'g agent \<Rightarrow> engine \<Rightarrow> ('g agent \<times> engine) option" where
  "on_tick rnd d junk (MM a) e = map_option (\<lambda>(a, e). (MM a, e)) (mm_on_tick rnd d junk a e)"
| "on_tick rnd d junk (MOM a) e = map_option (\<lambda>(a, e). (MOM a, e)) (mo_on_tick rnd d junk a e)"
| "on_tick rnd d junk (NOISE a) e = map_option (\<lambda>(a, e). (NOISE a, e)) (nt_on_tick d junk a e)"

text \<open>The other virtual handlers; a class that does not override one inherits an empty body.\<close>

fun on_fill :: "execution_report \<Rightarrow> 'g agent \<Rightarrow> 'g agent option" where
  "on_fill r (MM a) = map_option MM (mm_on_fill r a)"
| "on_fill r (MOM a) = map_option MOM (mo_on_fill r a)"
| "on_fill r (NOISE a) = Some (NOISE a)"

fun on_trade :: "trade \<Rightarrow> 'g agent \<Rightarrow> 'g agent" where
  "on_trade t (MM a) = MM (mm_on_trade t a)"
| "on_trade t (MOM a) = MOM a"
| "on_trade t (NOISE a) = NOISE a"

fun on_bbo :: "bbo_update \<Rightarrow> 'g agent \<Rightarrow> 'g agent option" where
  "on_bbo u (MM a) = map_option MM (mm_on_bbo u a)"
| "on_bbo u (MOM a) = map_option MOM (mo_on_bbo u a)"
| "on_bbo u (NOISE a) = map_option NOISE (nt_on_bbo u a)"

fun tick_agents ::
  "(real \<Rightarrow> real) \<Rightarrow> 'g draws \<Rightarrow> order_result \<Rightarrow> 'g agent list \<Rightarrow> engine \<Rightarrow> ('g agent list \<times> engine) option" where
  "tick_agents rnd d junk [] e = Some ([], e)"
| "tick_agents rnd d junk (a # as) e =
     Option.bind (on_tick rnd d junk a e) (\<lambda>(a1, e1).
       map_option (\<lambda>(as1, e2). (a1 # as1, e2)) (tick_agents rnd d junk as e1))"

definition sim_tick ::
  "(real \<Rightarrow> real) \<Rightarrow> 'g draws \<Rightarrow> order_result \<Rightarrow> 'g agent list \<times> engine \<Rightarrow> ('g agent list \<times> engine) option" where
  "sim_tick rnd d junk s =
     Option.bind (tick_agents rnd d junk (fst s) (snd s)) (\<lambda>(as, e). map_option (Pair as \<circ> snd) (process_queue junk e))"

primrec simulate ::
  "(real \<Rightarrow> real) \<Rightarrow> 'g draws \<Rightarrow> order_result \<Rightarrow> nat \<Rightarrow> 'g agent list \<times> engine \<Rightarrow> ('g agent list \<times> engine) option" where
  "simulate rnd d junk 0 s = Some s"
| "simulate rnd d junk (Suc n) s = Option.bind (sim_tick rnd d junk s) (simulate rnd d junk n)"

text \<open>
  The names \<^verbatim>\<open>SYM%04d\<close>, of the index as an \<^verbatim>\<open>int\<close> with its sign in the padded width, and the agents of one symbol: a fifth market makers, a fifth momentum traders,
  three fifths noise traders (a 64-bit product), each with its own seed.
\<close>

fun decimal :: "nat \<Rightarrow> 8 word list" where
  "decimal n = (if n < 10 then [of_nat (48 + n)] else decimal (n div 10) @ [of_nat (48 + n mod 10)])"

definition sym_name :: "nat \<Rightarrow> 8 word list" where
  "sym_name i =
     (let k = sint (of_nat i :: 32 word); ds = decimal (nat \<bar>k\<bar>)
      in [83, 89, 77] @ (if k < 0 then 45 # replicate (3 - length ds) 48 @ ds else replicate (4 - length ds) 48 @ ds))"

definition sim_symbols :: "nat \<Rightarrow> symbol list" where
  "sim_symbols n = map (\<lambda>i. symbol_of_cstr (sym_name i)) [0..<n]"

definition symbol_agents :: "(real \<Rightarrow> real) \<Rightarrow> (32 word \<Rightarrow> 'g) \<Rightarrow> nat \<Rightarrow> nat \<Rightarrow> symbol \<Rightarrow> 'g agent list" where
  "symbol_agents rnd seeded n s sy =
     map (\<lambda>i. create_market_maker seeded ((default_market_maker_config rnd)\<lparr>mc_symbol := sy, mc_seed := of_nat (s * 1000 + i)\<rparr>)) [0..<n div 5] @
     map (\<lambda>i. create_momentum seeded ((default_momentum_config rnd)\<lparr>oc_symbol := sy, oc_seed := of_nat (s * 1000 + 200 + i)\<rparr>)) [0..<n div 5] @
     map (\<lambda>i. create_noise_trader seeded ((default_noise_config rnd)\<lparr>nc_symbol := sy, nc_seed := of_nat (s * 1000 + 400 + i)\<rparr>)) [0..<(n * 3 mod 2 ^ 64) div 5]"

definition sim_agents :: "(real \<Rightarrow> real) \<Rightarrow> (32 word \<Rightarrow> 'g) \<Rightarrow> nat \<Rightarrow> nat \<Rightarrow> 'g agent list" where
  "sim_agents rnd seeded num_symbols num_agents =
     concat (map (\<lambda>(s, sy). symbol_agents rnd seeded num_agents s sy) (enumerate 0 (sim_symbols num_symbols)))"

definition sim_engine :: "(nat \<Rightarrow> timestamp) \<Rightarrow> inbound_message \<Rightarrow> callback \<Rightarrow> nat \<Rightarrow> engine" where
  "sim_engine clock mem cb num_symbols =
     engine_set_trade_callback (Some cb)
       (fold (add_symbol clock) (sim_symbols num_symbols)
         (new_engine mem (default_engine_config\<lparr>ec_num_symbols := num_symbols\<rparr>)))"

end
