(* ===== verification/Simulation.thy ===== *)
theory Simulation
  imports Agents Engine_Runs Demo_Book
begin

text \<open>
  The simulation as an invariant: requests the engine always answers, what stays true of every agent
  that \<^verbatim>\<open>main\<close> creates, and the tick loop.
\<close>

section \<open>Requests that are always safe\<close>

text \<open>The engine between ticks: books with the default configuration, an empty queue.\<close>

definition sim_inv :: "engine \<Rightarrow> bool" where
  "sim_inv e \<longleftrightarrow> engine_inv e \<and> book_config_of e = default_config \<and> items (en_queue e) = []"

definition safe_order :: "order \<Rightarrow> bool" where
  "safe_order x \<longleftrightarrow> o_filled_qty x = 0 \<and> \<not> is_fok x \<and> (rests x \<longrightarrow> 0 < o_price x \<and> o_price x < INVALID_PRICE)"

lemma safe_mk_order:
  "safe_order (mk_order i sy sd p q Market Day)"
  "0 < p \<Longrightarrow> p < INVALID_PRICE \<Longrightarrow> safe_order (mk_order i sy sd p q Limit Day)"
  by (simp_all add: safe_order_def mk_order_def rests_def is_fok_def)

lemma submit_frame: "submit_order junk x e = Some (e', r) \<Longrightarrow> book_config_of e' = book_config_of e \<and> en_queue e' = en_queue e"
  by (auto simp: submit_order_def Let_def book_config_of_def split: option.splits)

lemma cancel_frame: "engine_cancel junk s i e = Some (e', r) \<Longrightarrow> book_config_of e' = book_config_of e \<and> en_queue e' = en_queue e"
  by (auto simp: engine_cancel_def Let_def split_beta book_config_of_def split: option.splits)

lemma submit_safe:
  assumes e: "sim_inv e" and x: "safe_order x"
  shows "\<exists>e' r. submit_order junk x e = Some (e', r) \<and> sim_inv e'"
proof -
  have inv: "engine_inv e" using e by (simp add: sim_inv_def)
  have "\<exists>e' r. submit_order junk x e = Some (e', r) \<and> engine_inv e'"
  proof (cases "served e (o_symbol x)")
    case None
    then show ?thesis
      using unknown_results(1) [OF inv None, of junk] same_engine(1) [OF inv, of "e\<lparr>en_stats := z\<rparr>" for z] engine_invD(4,5) [OF inv] by simp
  next
    case (Some b)
    have r: "reachable default_config b" using served_some(2) [OF inv Some] e by (simp add: sim_inv_def)
    have "valid_order b x"
      using valid_order_off [OF r default_config_off] x by (auto simp: safe_order_def order_wf_def)
    then show ?thesis using submit_known [OF inv Some, of junk] by auto
  qed
  then show ?thesis using submit_frame e by (auto simp: sim_inv_def)
qed

lemma cancel_safe:
  assumes e: "sim_inv e"
  shows "\<exists>e' r. engine_cancel junk sy i e = Some (e', r) \<and> sim_inv e'"
proof -
  have inv: "engine_inv e" using e by (simp add: sim_inv_def)
  have "\<exists>e' r. engine_cancel junk sy i e = Some (e', r) \<and> engine_inv e'"
    using unknown_results(2) [OF inv, of sy junk i] engine_cancel_known [OF inv, of sy _ junk i] inv
    by (cases "served e sy") auto
  then show ?thesis using cancel_frame e by (auto simp: sim_inv_def)
qed

lemma process_queue_idle:
  assumes e: "sim_inv e"
  shows "\<exists>e'. process_queue junk e = Some (0, e') \<and> sim_inv e'"
proof -
  have inv: "engine_inv e" "spsc_inv (en_queue e)" "items (en_queue e) = []"
    using e engine_invD(4) by (auto simp: sim_inv_def)
  from sq.pop_result [OF inv(2)] inv(3) obtain q where q: "try_pop (en_queue e) = (None, q)" by (metis list.simps(4) prod.collapse)
  have "items q = []" "spsc_inv q" "q_capacity q = INBOUND_CAPACITY"
    using sq.pop_queue [OF inv(2)] sq.pop_inv [OF inv(2)] sq.pop_bound [OF inv(2)] engine_invD(5) [OF inv(1)] q inv(3)
    by (auto simp: INBOUND_CAPACITY_def)
  then have "sim_inv (e\<lparr>en_queue := q\<rparr>)"
    using same_engine(1) [OF inv(1), of "e\<lparr>en_queue := q\<rparr>"] e by (simp add: sim_inv_def book_config_of_def)
  moreover have "process_queue junk e = Some (0, e\<lparr>en_queue := q\<rparr>)"
    by (simp add: process_queue_def process_loop.simps [of junk 0 e] process_one_def q)
  ultimately show ?thesis by blast
qed

section \<open>What the agents rely on\<close>

text \<open>
  The engine as the agents use it: a property \<open>J\<close> of its state under which every safe request is
  answered, and which every answer keeps. All the agents do is proved from these laws; the laws are
  discharged for \<^const>\<open>sim_inv\<close> here, and for the invariant that counts trades in \<open>Main_Properties\<close>.
\<close>

locale exchange_service =
  fixes J :: "engine \<Rightarrow> bool"
  assumes submit: "J e \<Longrightarrow> safe_order x \<Longrightarrow> \<exists>e' r. submit_order junk x e = Some (e', r) \<and> J e'"
    and withdraw: "J e \<Longrightarrow> \<exists>e' r. engine_cancel junk sy i e = Some (e', r) \<and> J e'"
    and idle: "J e \<Longrightarrow> \<exists>e'. process_queue junk e = Some (0, e') \<and> J e'"

interpretation sim: exchange_service sim_inv
  by unfold_locales (rule submit_safe cancel_safe process_queue_idle; assumption)+

section \<open>Agents in the simulation\<close>

text \<open>
  What every agent created by \<^verbatim>\<open>main\<close> satisfies from tick to tick. No fill, trade or quote is ever
  reported to it, so positions stay 0 and mid prices what they were initialised to.
\<close>

fun agent_ok :: "'g agent \<Rightarrow> bool" where
  "agent_ok (MM a) \<longleftrightarrow> mm_position a = 0 \<and> mm_last_mid a = 0 \<and> mc_half_spread (mm_config a) = 10 \<and> mc_max_position (mm_config a) = 1000"
| "agent_ok (MOM a) \<longleftrightarrow> mo_price_history a = [] \<and> oc_lookback_ticks (mo_config a) = 100"
| "agent_ok (NOISE a) \<longleftrightarrow> nt_last_mid a = 1000000 \<and> nc_max_deviation (nt_config a) = 100"

lemma truncate64_0 [simp]: "truncate64 0 = Some 0"
  by (simp add: truncate64_def s64_def s64_range_def)

lemma quote_prices_flat:
  assumes "rnd 0 = 0" "agent_ok (MM a)"
  shows "quote_prices rnd a = Some (999990, 1000010)"
  using assms
  by (simp add: quote_prices_def compute_fair_value_def PRICE_SCALE_def s64_add_def s64_sub_def s64_def s64_range_def)

lemma noise_price_ok:
  assumes "- 100 \<le> dv" "dv \<le> 100"
  shows "\<exists>p. noise_price sd 1000000 100 dv = Some p \<and> 999850 \<le> p \<and> p \<le> 1000150"
  using assms
  by (cases sd) (auto simp: noise_price_def s64_sub_def s64_add_def s64_def s64_range_def trunc_div_def)

definition same_momentum :: "'g agent \<Rightarrow> 'g agent \<Rightarrow> bool" where
  "same_momentum a a' \<longleftrightarrow> (\<forall>m. a = MOM m \<longrightarrow> a' = a)"

context exchange_service begin

lemma cancel_ok: "J e \<Longrightarrow> \<exists>e'. mm_cancel junk sy i e = Some e' \<and> J e'"
  using withdraw [of e junk sy i] by (auto simp: mm_cancel_def)

lemma mm_tick_ok:
  assumes e: "J e" and a: "agent_ok (MM a)" and r: "rnd 0 = 0"
  shows "\<exists>a' e'. mm_on_tick rnd d junk a e = Some (a', e') \<and> agent_ok (MM a') \<and> J e'"
proof -
  obtain u g where u: "unit d (mm_rng a) = (u, g)" by fastforce
  let ?a = "a\<lparr>mm_rng := g\<rparr>"
  have a1: "agent_ok (MM ?a)" using a by simp
  have "\<exists>a' e'. update_quotes rnd junk ?a e = Some (a', e') \<and> agent_ok (MM a') \<and> J e'"
  proof -
    from cancel_ok [OF e] obtain e1 where e1: "mm_cancel junk (mc_symbol (mm_config a)) (mm_bid_order_id a) e = Some e1" "J e1" by blast
    from cancel_ok [OF e1(2)] obtain e2 where e2: "mm_cancel junk (mc_symbol (mm_config a)) (mm_ask_order_id a) e1 = Some e2" "J e2" by blast
    have "\<exists>a3 e3. mm_quote_bid junk 999990 (?a, e2) = Some (a3, e3) \<and> agent_ok (MM a3) \<and> J e3"
      using submit [OF e2(2) safe_mk_order(2), of 999990 junk] a by (fastforce simp: mm_quote_bid_def Let_def INVALID_PRICE_def)
    then obtain a3 e3 where 3: "mm_quote_bid junk 999990 (?a, e2) = Some (a3, e3)" "agent_ok (MM a3)" "J e3" by blast
    have "\<exists>a4 e4. mm_quote_ask junk 1000010 (a3, e3) = Some (a4, e4) \<and> agent_ok (MM a4) \<and> J e4"
      using submit [OF 3(3) safe_mk_order(2), of 1000010 junk] 3(2) by (fastforce simp: mm_quote_ask_def Let_def INVALID_PRICE_def)
    then show ?thesis using quote_prices_flat [where rnd = rnd, OF r a1] e1(1) e2(1) 3(1) by (simp add: update_quotes_def)
  qed
  then show ?thesis using e a1 by (simp add: mm_on_tick_def u Let_def)
qed

lemma nt_tick_ok:
  assumes e: "J e" and a: "agent_ok (NOISE a)" and d: "draws_ok d"
  shows "\<exists>a' e'. nt_on_tick d junk a e = Some (a', e') \<and> agent_ok (NOISE a') \<and> J e'"
proof -
  obtain u g1 where 1: "unit d (nt_rng a) = (u, g1)" by fastforce
  obtain us g2 where 2: "unit d g1 = (us, g2)" by fastforce
  obtain size g3 where 3: "pick_qty d (nc_min_size (nt_config a)) (nc_max_size (nt_config a)) g2 = (size, g3)" by fastforce
  obtain um g4 where 4: "unit d g3 = (um, g4)" by fastforce
  obtain dv g5 where 5: "pick_price d (- 100) 100 g4 = (dv, g5)" by fastforce
  have dv: "- 100 \<le> dv" "dv \<le> 100" using d 5 unfolding draws_ok_def by (metis fst_conv neg_le_iff_le neg_numeral_le_numeral)+
  let ?sd = "if us < 1 / 2 then Buy else Sell"
  obtain p where p: "noise_price ?sd 1000000 100 dv = Some p" "999850 \<le> p" "p \<le> 1000150" using noise_price_ok [OF dv] by blast
  have neg: "s64_sub 0 100 = Some (- 100)" by (simp add: s64_sub_def s64_def s64_range_def)
  obtain em rm where m: "submit_order junk (mk_order (nt_next_order_id a) (nc_symbol (nt_config a)) ?sd 0 size Market Day) e = Some (em, rm)" "J em"
    using submit [OF e safe_mk_order(1)] by blast
  have "0 < p" "p < INVALID_PRICE" using p by (simp_all add: INVALID_PRICE_def)
  then obtain el rl where l: "submit_order junk (mk_order (nt_next_order_id a) (nc_symbol (nt_config a)) ?sd p size Limit Day) e = Some (el, rl)" "J el"
    using submit [OF e safe_mk_order(2)] by blast
  show ?thesis
    using a e m l p(1) by (simp add: nt_on_tick_def Let_def 1 2 3 4 neg 5)
qed

lemma on_tick_ok:
  assumes "J e" "agent_ok a" "draws_ok d" "rnd 0 = 0"
  shows "\<exists>a' e'. on_tick rnd d junk a e = Some (a', e') \<and> agent_ok a' \<and> J e' \<and> (\<forall>m. a = MOM m \<longrightarrow> a' = a \<and> e' = e)"
proof (cases a)
  case (MM m)
  then show ?thesis using mm_tick_ok [of e m rnd d junk] assms by auto
next
  case (MOM m)
  then show ?thesis using assms by (simp add: mo_on_tick_def)
next
  case (NOISE m)
  then show ?thesis using nt_tick_ok [of e m d junk] assms by auto
qed

lemma tick_agents_ok:
  assumes "J e" "list_all agent_ok as" "draws_ok d" "rnd 0 = 0"
  shows "\<exists>as' e'. tick_agents rnd d junk as e = Some (as', e') \<and> list_all agent_ok as' \<and> J e' \<and> list_all2 same_momentum as as'"
  using assms(1,2)
proof (induction as arbitrary: e)
  case (Cons a as)
  from on_tick_ok [where rnd = rnd and junk = junk and a = a, OF Cons.prems(1) _ assms(3,4)] Cons.prems(2) obtain a1 e1 where
    1: "on_tick rnd d junk a e = Some (a1, e1)" "agent_ok a1" "J e1" "same_momentum a a1" by (auto simp: same_momentum_def)
  from Cons.IH [OF 1(3)] Cons.prems(2) obtain as' e' where
    "tick_agents rnd d junk as e1 = Some (as', e')" "list_all agent_ok as'" "J e'" "list_all2 same_momentum as as'" by auto
  then show ?case using 1 by simp
qed simp

lemma simulate_ok:
  assumes "J (snd s)" "list_all agent_ok (fst s)" "draws_ok d" "rnd 0 = 0"
  shows "\<exists>s'. simulate rnd d junk n s = Some s' \<and> list_all agent_ok (fst s') \<and> J (snd s') \<and> list_all2 same_momentum (fst s) (fst s')"
  using assms(1,2)
proof (induction n arbitrary: s)
  case 0
  then show ?case by (simp add: list_all2_refl same_momentum_def)
next
  case (Suc n)
  from tick_agents_ok [where rnd = rnd and junk = junk, OF Suc.prems assms(3,4)] obtain as1 e1 where
    1: "tick_agents rnd d junk (fst s) (snd s) = Some (as1, e1)" "list_all agent_ok as1" "J e1" "list_all2 same_momentum (fst s) as1" by blast
  from idle [OF 1(3)] obtain e2 where 2: "process_queue junk e1 = Some (0, e2)" "J e2" by blast
  from Suc.IH [of "(as1, e2)"] 1(2) 2(2) obtain s' where
    3: "simulate rnd d junk n (as1, e2) = Some s'" "list_all agent_ok (fst s')" "J (snd s')" "list_all2 same_momentum as1 (fst s')" by auto
  have "list_all2 same_momentum (fst s) (fst s')"
    by (rule list_all2_trans [OF _ 1(4) 3(4)]) (auto simp: same_momentum_def)
  then show ?case using 1(1) 2(1) 3 by (simp add: sim_tick_def)
qed

end

lemma sim_agents_ok: "list_all agent_ok (sim_agents rnd seeded ns na)"
  by (auto simp: sim_agents_def symbol_agents_def list_all_iff create_market_maker_def create_momentum_def create_noise_trader_def new_market_maker_def new_momentum_def new_noise_trader_def
      default_market_maker_config_def default_momentum_config_def default_noise_config_def PRICE_SCALE_def)

lemma sim_engine_inv: "sim_inv (sim_engine clock mem cb ns)"
proof -
  have add: "engine_inv e \<and> book_config_of e = default_config \<and> items (en_queue e) = [] \<Longrightarrow>
    engine_inv (fold (add_symbol clock) ss e) \<and> book_config_of (fold (add_symbol clock) ss e) = default_config \<and>
    items (en_queue (fold (add_symbol clock) ss e)) = []" for e ss
  proof (induction ss arbitrary: e)
    case (Cons s ss)
    have "engine_inv (add_symbol clock s e)" using add_symbol_ok(1) Cons.prems by blast
    moreover have "book_config_of (add_symbol clock s e) = book_config_of e" "en_queue (add_symbol clock s e) = en_queue e"
      by (simp_all add: add_symbol_shape book_config_of_def)
    ultimately show ?case using Cons by simp
  qed simp
  let ?e = "fold (add_symbol clock) (sim_symbols ns) (new_engine mem (default_engine_config\<lparr>ec_num_symbols := ns\<rparr>))"
  have e: "engine_inv ?e" "book_config_of ?e = default_config" "items (en_queue ?e) = []"
    using add [of "new_engine mem (default_engine_config\<lparr>ec_num_symbols := ns\<rparr>)"] new_engine_inv
    by (auto simp: book_config_of_def new_engine_def default_engine_config_def)
  have "engine_inv (?e\<lparr>en_trade_callback := Some cb\<rparr>)" using same_engine(1) [OF e(1)] engine_invD(4,5) [OF e(1)] by simp
  from on_books_ok(1) [OF this, of "set_trade_callback (Some cb)"] have "engine_inv (sim_engine clock mem cb ns)"
    by (simp add: sim_engine_def engine_set_trade_callback_def reach_on_trade)
  then show ?thesis using e by (simp add: sim_inv_def sim_engine_def engine_set_trade_callback_def on_books_def book_config_of_def)
qed

end
