(* ===== verification/Agent_Properties.thy ===== *)
theory Agent_Properties
  imports Simulation Engine_Properties
begin

text \<open>
  The properties of the agents and of the simulation, with two market makers that share a symbol.
\<close>

section \<open>Two market makers on one symbol\<close>

lemma cancel_demo:
  assumes "demo_state b e"
  shows "demo_state (fst (cancel_order i b)) (filter (\<lambda>x. entry_id x \<noteq> i) (fst e), filter (\<lambda>x. entry_id x \<noteq> i) (snd e))"
proof -
  have b: "reachable default_config b" "entries Buy b = fst e" "entries Sell b = snd e" "b_on_trade b \<noteq> None"
    using assms by (simp_all add: demo_state_def)
  note inv = reachable_inv(1) [OF b(1)]
  have "entries s (fst (cancel_order i b)) = filter (\<lambda>x. entry_id x \<noteq> i) (entries s b) \<and> b_on_trade (fst (cancel_order i b)) = b_on_trade b" for s
  proof (cases "map_of (b_orders b) i")
    case None
    then have "entry_id x \<noteq> i" if "x \<in> set (entries s b)" for x
      using that entry_order [OF inv, of _ _ _ s] by (cases x) fastforce
    then show ?thesis using None by (simp add: cancel_absent filter_id_conv)
  next
    case (Some x)
    note c = cancel_spec [where stale = o_side, OF inv Some refl, folded cancel_order_def]
    then show ?thesis by (simp add: same_static_def)
  qed
  then show ?thesis using reach_cancel [OF b(1)] b by (simp add: demo_state_def)
qed

lemma duplicate_demo:
  assumes "demo_state b e" "\<exists>x \<in> set (fst e @ snd e). entry_id x = i" "0 < p" "q \<noteq> 0"
  shows "demo_add (demo_order i s p q Limit Day) b = b"
proof -
  have b: "reachable default_config b" "entries Buy b = fst e" "entries Sell b = snd e" using assms(1) by (simp_all add: demo_state_def)
  obtain t p' q' where "(p', i, q') \<in> set (entries t b)" using assms(2) b(2,3) by (metis Un_iff prod.collapse set_append)
  from entry_order [OF reachable_inv(1) [OF b(1)] this] obtain x where "map_of (b_orders b) i = Some x" by blast
  then show ?thesis using assms(3,4) by (simp add: demo_add_def add_order_def demo_order_def mk_order_def Let_def market_price_def)
qed

definition demo_maker :: "order_id \<Rightarrow> order_id \<Rightarrow> order_id \<Rightarrow> unit market_maker" where
  "demo_maker n i j =
     (new_market_maker (\<lambda>_. ()) ((default_market_maker_config (\<lambda>x. x))\<lparr>mc_symbol := demo_symbol\<rparr>))
       \<lparr>mm_next_order_id := n, mm_bid_order_id := i, mm_ask_order_id := j\<rparr>"

lemma demo_maker_fields [simp]:
  "mm_next_order_id (demo_maker n i j) = n" "mm_bid_order_id (demo_maker n i j) = i" "mm_ask_order_id (demo_maker n i j) = j"
  "mm_position (demo_maker n i j) = 0" "mc_symbol (mm_config (demo_maker n i j)) = demo_symbol"
  "mc_base_size (mm_config (demo_maker n i j)) = 100" "mc_max_position (mm_config (demo_maker n i j)) = 1000" "agent_ok (MM (demo_maker n i j))"
  "(demo_maker n i j)\<lparr>mm_next_order_id := n', mm_bid_order_id := i'\<rparr> = demo_maker n' i' j"
  "(demo_maker n i j)\<lparr>mm_next_order_id := n', mm_ask_order_id := j'\<rparr> = demo_maker n' i j'"
  by (simp_all add: demo_maker_def new_market_maker_def default_market_maker_config_def)

definition market :: "engine \<Rightarrow> book \<Rightarrow> bool" where
  "market e b \<longleftrightarrow> sim_inv e \<and> served e demo_symbol = Some b"

lemma market_submit:
  assumes m: "market e b" and p: "0 < p" "p < INVALID_PRICE" "q \<noteq> 0"
  shows "\<exists>e' r. submit_order junk (demo_order i s p q Limit Day) e = Some (e', r) \<and>
    market e' (demo_add (demo_order i s p q Limit Day) b)"
proof -
  have e: "engine_inv e" "served e demo_symbol = Some b" "book_config_of e = default_config" using m by (auto simp: market_def sim_inv_def)
  have r: "reachable default_config b" using served_some(2) [OF e(1,2)] e(3) by simp
  from submit_known [OF e(1) _ demo_valid_order [OF r p, of i s], of junk] e(2) obtain b' z e' where
    1: "add_order (demo_order i s p q Limit Day) b = Some (b', z)" "submit_order junk (demo_order i s p q Limit Day) e = Some (e', z)"
    "engine_inv e'" "served e' = (served e)(demo_symbol \<mapsto> b')" by auto
  then show ?thesis using submit_frame [OF 1(2)] m by (auto simp: market_def sim_inv_def demo_add_def)
qed

lemma market_cancel:
  assumes m: "market e b"
  shows "\<exists>e'. mm_cancel junk demo_symbol i e = Some e' \<and> market e' (if 0 < i then fst (cancel_order i b) else b)"
proof (cases "0 < i")
  case True
  have e: "engine_inv e" "served e demo_symbol = Some b" using m by (auto simp: market_def sim_inv_def)
  from engine_cancel_known [OF e, of junk i] obtain e' where
    1: "engine_cancel junk demo_symbol i e = Some (e', snd (cancel_order i b))" "engine_inv e'"
    "served e' = (served e)(demo_symbol \<mapsto> fst (cancel_order i b))" by blast
  then show ?thesis using cancel_frame [OF 1(1)] m True by (auto simp: market_def sim_inv_def mm_cancel_def)
qed (use m in \<open>simp add: mm_cancel_def\<close>)

definition withdrawn :: "order_id \<Rightarrow> book \<Rightarrow> book" where
  "withdrawn i b = (if 0 < i then fst (cancel_order i b) else b)"

lemma maker_updates:
  assumes m: "market e b"
  shows "\<exists>e'. update_quotes (\<lambda>x. x) junk (demo_maker n i j) e = Some (demo_maker (n + 2) n (n + 1), e') \<and>
    market e' (demo_add (demo_order (n + 1) Sell 1000010 100 Limit Day)
      (demo_add (demo_order n Buy 999990 100 Limit Day) (withdrawn j (withdrawn i b))))"
proof -
  let ?bid = "demo_order n Buy 999990 100 Limit Day" and ?ask = "demo_order (n + 1) Sell 1000010 100 Limit Day"
  from market_cancel [OF m, of junk i] obtain e1 where 1: "mm_cancel junk demo_symbol i e = Some e1" "market e1 (withdrawn i b)"
    by (auto simp: withdrawn_def)
  from market_cancel [OF 1(2), of junk j] obtain e2 where 2: "mm_cancel junk demo_symbol j e1 = Some e2" "market e2 (withdrawn j (withdrawn i b))"
    by (auto simp: withdrawn_def [of j])
  from market_submit [OF 2(2), of 999990 100 junk n Buy] obtain e3 r3 where
    3: "submit_order junk ?bid e2 = Some (e3, r3)" "market e3 (demo_add ?bid (withdrawn j (withdrawn i b)))"
    by (auto simp: INVALID_PRICE_def)
  from market_submit [OF 3(2), of 1000010 100 junk "n + 1" Sell] obtain e4 r4 where
    4: "submit_order junk ?ask e3 = Some (e4, r4)" "market e4 (demo_add ?ask (demo_add ?bid (withdrawn j (withdrawn i b))))"
    by (auto simp: INVALID_PRICE_def)
  have b: "mm_quote_bid junk 999990 (demo_maker n i j, e2) = Some (demo_maker (n + 1) n j, e3)"
    using 3(1) by (simp add: mm_quote_bid_def Let_def demo_order_def)
  have a: "mm_quote_ask junk 1000010 (demo_maker (n + 1) n j, e3) = Some (demo_maker (n + 1 + 1) n (n + 1), e4)"
    using 4(1) by (simp add: mm_quote_ask_def Let_def demo_order_def)
  have q: "quote_prices (\<lambda>x. x) (demo_maker n i j) = Some (999990, 1000010)" by (rule quote_prices_flat) (simp_all del: agent_ok.simps)
  show ?thesis using 4(2) 1(1) 2(1) by (simp add: update_quotes_def q b a add.assoc)
qed

lemma demo_engine_market: "market demo_engine (demo_start default_config)"
proof -
  have "book_config_of demo_engine = default_config"
    by (simp add: demo_engine_def add_symbol_shape book_config_of_def engine_set_trade_callback_def on_books_def new_engine_def default_engine_config_def)
  then show ?thesis using demo_engine_facts(1,2) engine_reach_inv [OF demo_engine_reach] by (simp add: market_def sim_inv_def)
qed

section \<open>Properties of the simulation\<close>

text \<open>
  C5. The simulation that \<^verbatim>\<open>main\<close> runs never gets stuck: with any number of symbols, agents and ticks,
  whatever the generator draws in the ranges asked for, every tick returns, so that the price and
  position arithmetic of the agents themselves never overflows, and leaves live, consistent, uncrossed
  books with the configured symbols and an empty queue. And since nothing ever reports a quote to the
  agents, no momentum trader ever does anything: each is at the end what it was at the start. Not
  claimed is the average price of a noise trader's market buy, whose product does overflow for
  more than one unit (\<open>avg_fill_price_cases\<close>): that field is marked, no agent reads it, and the run goes on.
\<close>

theorem simulation_never_stuck:
  assumes "draws_ok d" "rnd 0 = 0"
  shows "\<exists>as e. simulate rnd d junk n (sim_agents rnd seeded symbols agents, sim_engine clock mem cb symbols) = Some (as, e) \<and>
    engine_inv e \<and> items (en_queue e) = [] \<and>
    (\<forall>s b. served e s = Some b \<longrightarrow> b_symbol b = s \<and> book_inv b \<and> uncrossed b) \<and>
    length as = length (sim_agents rnd seeded symbols agents) \<and>
    (\<forall>k m. k < length as \<and> sim_agents rnd seeded symbols agents ! k = MOM m \<longrightarrow> as ! k = MOM m)"
proof -
  let ?s = "(sim_agents rnd seeded symbols agents, sim_engine clock mem cb symbols)"
  have "sim_inv (snd ?s)" "list_all agent_ok (fst ?s)" by (simp_all add: sim_engine_inv sim_agents_ok)
  from sim.simulate_ok [where rnd = rnd and junk = junk and n = n, OF this assms] obtain s' where
    s: "simulate rnd d junk n ?s = Some s'" "sim_inv (snd s')" "list_all2 same_momentum (fst ?s) (fst s')" by blast
  have books: "b_symbol b = sy \<and> book_inv b \<and> uncrossed b" if sb: "served (snd s') sy = Some b" for sy b
  proof -
    have e: "engine_inv (snd s')" "book_config_of (snd s') = default_config" using s(2) by (simp_all add: sim_inv_def)
    have r: "reachable default_config b" "b_symbol b = sy" using served_some(2,3) [OF e(1) sb] e(2) by simp_all
    show ?thesis using reachable_sound [OF r(1)] r(2) by (auto simp: sound_book_def)
  qed
  have l: "length (fst s') = length (fst ?s)" using list_all2_lengthD [OF s(3)] by simp
  have mom: "fst s' ! k = MOM m" if "k < length (fst s')" "fst ?s ! k = MOM m" for k m
    using list_all2_nthD2 [OF s(3) that(1)] that(2) by (simp add: same_momentum_def)
  show ?thesis
    using s(1,2) books l mom by (intro exI [of _ "fst s'"] exI [of _ "snd s'"]) (auto simp: sim_inv_def)
qed

definition demo_draws :: "nat draws" where
  "demo_draws = \<lparr>unit = (\<lambda>g. (real (g mod 10) / 10, g + 3)), pick_qty = (\<lambda>l h g. (l, g + 1)), pick_price = (\<lambda>l h g. (l, g + 1))\<rparr>"

theorem simulation_never_stuck_witness:
  "\<exists>as e. simulate (\<lambda>x. x) demo_draws (init_result 0) 5
      (sim_agents (\<lambda>x. x) unat 2 10, sim_engine (\<lambda>n. of_nat n) demo_mem 0 2) = Some (as, e) \<and> engine_inv e"
proof -
  have "draws_ok demo_draws" by (simp add: draws_ok_def demo_draws_def)
  from simulation_never_stuck [OF this, of "\<lambda>x. x" "init_result 0" 5 unat 2 10 "\<lambda>n. of_nat n" demo_mem 0] show ?thesis by auto
qed

lemma submit_refused:
  assumes e: "engine_inv e" "served e (o_symbol x) = Some b" and r: "add_order x b = Some (b, r)" "\<not> r_success r"
  shows "\<exists>e'. submit_order junk x e = Some (e', r) \<and> engine_inv e' \<and> served e' = served e"
proof -
  obtain a where a: "get_book (o_symbol x) e = Some a" "en_heap e a = Some b" using served_some [OF e] by auto
  let ?s = "(en_stats e)\<lparr>st_orders_received := st_orders_received (en_stats e) + 1\<rparr>"
  have h: "(en_heap e)(a \<mapsto> b) = en_heap e" using a(2) by (simp add: fun_upd_idem)
  have "submit_order junk x e = Some (e\<lparr>en_stats := ?s\<rparr>, r)"
    using a r by (simp add: submit_order_def Let_def get_book_def count_match_def h)
  moreover have "engine_inv (e\<lparr>en_stats := ?s\<rparr>)" "served (e\<lparr>en_stats := ?s\<rparr>) = served e"
    using same_engine [OF e(1), of "e\<lparr>en_stats := ?s\<rparr>"] engine_invD(4,5) [OF e(1)] by simp_all
  ultimately show ?thesis by simp
qed

lemma duplicate_refused:
  assumes "map_of (b_orders b) i = Some y" "0 < p" "q \<noteq> 0"
  shows "add_order (mk_order i sy sd p q Limit Day) b = Some (b, reject i DuplicateOrderId)"
  using assms by (simp add: add_order_def mk_order_def Let_def market_price_def)

lemma mm_cancel_known:
  assumes e: "engine_inv e" "served e sy = Some b" and i: "map_of (b_orders b) i = Some y" "0 < i"
  shows "\<exists>e' b'. mm_cancel junk sy i e = Some e' \<and> engine_inv e' \<and> served e' = (served e)(sy \<mapsto> b') \<and>
    (\<forall>s. entries s b' = filter (\<lambda>x. entry_id x \<noteq> i) (entries s b)) \<and> map_of (b_orders b') = (map_of (b_orders b))(i := None)"
proof -
  from engine_cancel_known [OF e, of junk i] obtain e' where
    1: "engine_cancel junk sy i e = Some (e', snd (cancel_order i b))" "engine_inv e'"
    "served e' = (served e)(sy \<mapsto> fst (cancel_order i b))" by blast
  note c = cancel_spec [where stale = o_side, OF reachable_inv(1) [OF served_some(2) [OF e]] i(1) refl, folded cancel_order_def]
  show ?thesis using 1 c(2,3) i(2) by (intro exI [of _ e'] exI [of _ "fst (cancel_order i b)"]) (simp add: mm_cancel_def)
qed

text \<open>
  C39. Order ids are unique only within an agent, while books know orders by id alone, so agents on one
  symbol interfere. A market maker without quotes whose next two ids are live on the book, as orders
  of someone else, has both its quotes refused as duplicates and no book changes, yet it remembers the two
  ids; the cancels with which its next update starts then take the other's orders off the book.
\<close>

theorem makers_cancel_each_other:
  fixes a :: "'g market_maker"
  defines "n \<equiv> mm_next_order_id a" and "c \<equiv> mm_config a"
  assumes "engine_inv e" "served e (mc_symbol c) = Some b"
    "map_of (b_orders b) n = Some y" "map_of (b_orders b) (n + 1) = Some z" "0 < n" "0 < n + 1"
    "mm_bid_order_id a = 0" "mm_ask_order_id a = 0"
    "quote_prices rnd a = Some (bid, ask)" "0 < bid" "0 < ask" "mc_base_size c \<noteq> 0"
    "mm_position a < uint (mc_max_position c)" "- uint (mc_max_position c) < mm_position a"
  shows "\<exists>a' e' e1 e2 e3 e4 b'.
    submit_order junk (mk_order n (mc_symbol c) Buy bid (mc_base_size c) Limit Day) e = Some (e1, reject n DuplicateOrderId) \<and>
    submit_order junk (mk_order (n + 1) (mc_symbol c) Sell ask (mc_base_size c) Limit Day) e1 = Some (e2, reject (n + 1) DuplicateOrderId) \<and>
    update_quotes rnd junk a e = Some (a', e') \<and> e' = e2 \<and> served e' = served e \<and>
    mm_bid_order_id a' = n \<and> mm_ask_order_id a' = n + 1 \<and> mm_config a' = c \<and>
    mm_cancel junk (mc_symbol c) (mm_bid_order_id a') e' = Some e3 \<and> mm_cancel junk (mc_symbol c) (mm_ask_order_id a') e3 = Some e4 \<and>
    served e4 = (served e)(mc_symbol c \<mapsto> b') \<and> map_of (b_orders b') n = None \<and> map_of (b_orders b') (n + 1) = None \<and>
    (\<forall>s. entries s b' = filter (\<lambda>x. entry_id x \<noteq> n \<and> entry_id x \<noteq> n + 1) (entries s b))"
proof -
  note e = assms(3,4) and ids = assms(5-8)
  let ?x = "mk_order n (mc_symbol c) Buy bid (mc_base_size c) Limit Day" and ?w = "mk_order (n + 1) (mc_symbol c) Sell ask (mc_base_size c) Limit Day"
  have sy: "o_symbol ?x = mc_symbol c" "o_symbol ?w = mc_symbol c" by (simp_all add: mk_order_def)
  have no: "\<not> r_success (reject i DuplicateOrderId)" for i by (simp add: reject_def init_result_def)
  from submit_refused [OF e(1) _ duplicate_refused [OF ids(1) assms(12,14)] no, of "mc_symbol c" Buy junk] e(2) sy obtain e1 where
    1: "submit_order junk ?x e = Some (e1, reject n DuplicateOrderId)" "engine_inv e1" "served e1 = served e" by auto
  from submit_refused [OF 1(2) _ duplicate_refused [OF ids(2) assms(13,14)] no, of "mc_symbol c" Sell junk] e(2) sy 1(3) obtain e2 where
    2: "submit_order junk ?w e1 = Some (e2, reject (n + 1) DuplicateOrderId)" "engine_inv e2" "served e2 = served e" by auto
  let ?a = "a\<lparr>mm_next_order_id := n + 1 + 1, mm_bid_order_id := n, mm_ask_order_id := n + 1\<rparr>"
  have u: "update_quotes rnd junk a e = Some (?a, e2)"
    using assms(9-11,15,16) 1(1) 2(1)
    by (simp add: update_quotes_def mm_cancel_def mm_quote_bid_def mm_quote_ask_def Let_def n_def c_def)
  from mm_cancel_known [OF 2(2) _ ids(1,3), of "mc_symbol c" junk] e(2) 2(3) obtain e3 b3 where
    3: "mm_cancel junk (mc_symbol c) n e2 = Some e3" "engine_inv e3" "served e3 = (served e)(mc_symbol c \<mapsto> b3)"
    "\<forall>s. entries s b3 = filter (\<lambda>x. entry_id x \<noteq> n) (entries s b)" "map_of (b_orders b3) = (map_of (b_orders b))(n := None)" by auto
  have "map_of (b_orders b3) (n + 1) = Some z" using ids(2) by (simp add: 3(5))
  from mm_cancel_known [OF 3(2) _ this ids(4), of "mc_symbol c" junk] 3(3) obtain e4 b4 where
    4: "mm_cancel junk (mc_symbol c) (n + 1) e3 = Some e4" "served e4 = (served e)(mc_symbol c \<mapsto> b4)"
    "\<forall>s. entries s b4 = filter (\<lambda>x. entry_id x \<noteq> n + 1) (entries s b3)" "map_of (b_orders b4) = (map_of (b_orders b3))(n + 1 := None)" by auto
  show ?thesis
    using 1(1) 2(1,3) u 3(1,4,5) 4
    by (intro exI [of _ ?a] exI [of _ e2] exI [of _ e1] exI [of _ e3] exI [of _ e4] exI [of _ b4])
      (simp add: c_def conj_commute)
qed

text \<open>
  The two makers of a fresh engine: the second is refused twice, and its next update replaces the quotes
  of the first by its own.
\<close>

theorem two_makers_run:
  "\<exists>a1 e1 b1 e2 b2 e3 k1 k2 k3.
     update_quotes (\<lambda>x. x) junk (demo_maker 1 0 0) demo_engine = Some (a1, e1) \<and>
     update_quotes (\<lambda>x. x) junk (demo_maker 1 0 0) e1 = Some (b1, e2) \<and>
     update_quotes (\<lambda>x. x) junk b1 e2 = Some (b2, e3) \<and>
     served e1 demo_symbol = Some k1 \<and> entries Buy k1 = [(999990, 1, 100)] \<and> entries Sell k1 = [(1000010, 2, 100)] \<and>
     served e2 demo_symbol = Some k2 \<and> entries Buy k2 = [(999990, 1, 100)] \<and> entries Sell k2 = [(1000010, 2, 100)] \<and>
     served e3 demo_symbol = Some k3 \<and> entries Buy k3 = [(999990, 3, 100)] \<and> entries Sell k3 = [(1000010, 4, 100)] \<and>
     mm_bid_order_id a1 = 1 \<and> mm_ask_order_id a1 = 2"
proof -
  let ?q1 = "([(999990, 1, 100)], [(1000010, 2, 100)]) :: entry list \<times> entry list"
  let ?q2 = "([(999990, 3, 100)], [(1000010, 4, 100)]) :: entry list \<times> entry list"
  let ?w = "\<lambda>i j b. demo_add (demo_order j Sell 1000010 100 Limit Day) (demo_add (demo_order i Buy 999990 100 Limit Day) b)"
  let ?b1 = "?w 1 2 (demo_start default_config)"
  from maker_updates [OF demo_engine_market, of junk 1 0 0] obtain e1 where
    1: "update_quotes (\<lambda>x. x) junk (demo_maker 1 0 0) demo_engine = Some (demo_maker 3 1 2, e1)" "market e1 ?b1"
    by (auto simp: withdrawn_def)
  have s0: "demo_state (demo_add (demo_order 1 Buy 999990 100 Limit Day) (demo_start default_config)) ([(999990, 1, 100)], [])"
    by (rule demo_next [OF demo_start_state]; code_simp)
  have s1: "demo_state ?b1 ?q1" by (rule demo_next [OF s0]; code_simp)
  from maker_updates [OF 1(2), of junk 1 0 0] obtain e2 where
    2: "update_quotes (\<lambda>x. x) junk (demo_maker 1 0 0) e1 = Some (demo_maker 3 1 2, e2)" "market e2 (?w 1 2 ?b1)"
    by (auto simp: withdrawn_def)
  have "?w 1 2 ?b1 = ?b1" using duplicate_demo [OF s1] by simp
  then have m2: "market e2 ?b1" using 2(2) by simp
  let ?c = "withdrawn 2 (withdrawn 1 ?b1)"
  have c: "demo_state ?c ([], [])"
    using cancel_demo [OF cancel_demo [OF s1, of 1], of 2] by (simp add: withdrawn_def)
  from maker_updates [OF m2, of junk 3 1 2] obtain e3 where
    3: "update_quotes (\<lambda>x. x) junk (demo_maker 3 1 2) e2 = Some (demo_maker 5 3 4, e3)" "market e3 (?w 3 4 ?c)" by auto
  have s2: "demo_state (demo_add (demo_order 3 Buy 999990 100 Limit Day) ?c) ([(999990, 3, 100)], [])"
    by (rule demo_next [OF c]; code_simp)
  have s3: "demo_state (?w 3 4 ?c) ?q2" by (rule demo_next [OF s2]; code_simp)
  show ?thesis
    using 1 2(1) 3 m2 s1 s3 by (auto simp: market_def demo_state_def)
qed

theorem makers_cancel_each_other_witness:
  "\<exists>a1 e1 b a' e' e3 e4 b'. update_quotes (\<lambda>x. x) (init_result 0) (demo_maker 1 0 0) demo_engine = Some (a1, e1) \<and>
     served e1 demo_symbol = Some b \<and> entries Buy b = [(999990, 1, 100)] \<and> entries Sell b = [(1000010, 2, 100)] \<and>
     update_quotes (\<lambda>x. x) (init_result 0) (demo_maker 1 0 0) e1 = Some (a', e') \<and> served e' demo_symbol = Some b \<and>
     mm_cancel (init_result 0) demo_symbol (mm_bid_order_id a') e' = Some e3 \<and> mm_cancel (init_result 0) demo_symbol (mm_ask_order_id a') e3 = Some e4 \<and>
     served e4 demo_symbol = Some b' \<and> entries Buy b' = [] \<and> entries Sell b' = []"
proof -
  from two_makers_run [of "init_result 0"] obtain a1 e1 b where
    1: "update_quotes (\<lambda>x. x) (init_result 0) (demo_maker 1 0 0) demo_engine = Some (a1, e1)"
    "served e1 demo_symbol = Some b" "entries Buy b = [(999990, 1, 100)]" "entries Sell b = [(1000010, 2, 100)]" by blast
  have q: "quote_prices (\<lambda>x. x) (demo_maker 1 0 0) = Some (999990, 1000010)" by (rule quote_prices_flat) (simp_all del: agent_ok.simps)
  from maker_updates [OF demo_engine_market, of "init_result 0" 1 0 0] 1(1) have "engine_inv e1" by (auto simp: market_def sim_inv_def)
  note e = this 1(2)
  note inv = reachable_inv(1) [OF served_some(2) [OF e]]
  obtain y z where y: "map_of (b_orders b) 1 = Some y" "map_of (b_orders b) (1 + 1) = Some z"
    using entry_order [OF inv, of 999990 1 100 Buy] entry_order [OF inv, of 1000010 2 100 Sell] 1(3,4) by auto
  from makers_cancel_each_other [where a = "demo_maker 1 0 0" and e = e1 and b = b and y = y and z = z and rnd = "\<lambda>x. x"
      and bid = 999990 and ask = 1000010 and junk = "init_result 0"] e y q
  show ?thesis using 1 by (auto simp: demo_maker_fields)
qed

text \<open>
  A one-sided market breaks every agent's mid price: an empty side is reported with the largest
  64-bit price, and adding any positive price to it overflows. The test in the noise trader, which
  looks for a positive bid and a valid ask, does not exclude a missing bid.
\<close>

theorem one_sided_quote_overflows:
  assumes "bbo_bid_price u = INVALID_PRICE" "0 < bbo_ask_price u"
  shows "mm_on_bbo u m = None \<and> mo_on_bbo u o' = None \<and>
    nt_on_bbo u t = (if bbo_ask_price u < INVALID_PRICE then None else Some t)"
proof -
  have "mid_of u = None" using assms by (simp add: mid_of_def s64_add_def s64_def s64_range_def INVALID_PRICE_def)
  then show ?thesis using assms by (simp add: mm_on_bbo_def mo_on_bbo_def nt_on_bbo_def INVALID_PRICE_def)
qed

theorem one_sided_quote_overflows_witness:
  "nt_on_bbo \<lparr>bbo_symbol = demo_symbol, bbo_bid_price = INVALID_PRICE, bbo_bid_qty = 0, bbo_ask_price = 100,
      bbo_ask_qty = 50, bbo_timestamp = 0\<rparr> (new_noise_trader unat (default_noise_config (\<lambda>x. x))) = None"
  using one_sided_quote_overflows [of "\<lparr>bbo_symbol = demo_symbol, bbo_bid_price = INVALID_PRICE, bbo_bid_qty = 0,
      bbo_ask_price = 100, bbo_ask_qty = 50, bbo_timestamp = 0\<rparr>" "demo_maker 0 0 0"
      "new_momentum unat (default_momentum_config (\<lambda>x. x))" "new_noise_trader unat (default_noise_config (\<lambda>x. x))"]
  by (simp add: INVALID_PRICE_def)

section \<open>Profit and loss\<close>

text \<open>What a market maker goes through: its ticks, its fills, trades and best prices.\<close>

inductive maker_life :: "'g draws \<Rightarrow> 'g market_maker \<Rightarrow> 'g market_maker \<Rightarrow> bool" for d where
  life_start: "maker_life d a a"
| life_tick: "maker_life d a x \<Longrightarrow> mm_on_tick rnd d junk x e = Some (y, e') \<Longrightarrow> maker_life d a y"
| life_cancel: "maker_life d a x \<Longrightarrow> cancel_all junk x e = Some (y, e') \<Longrightarrow> maker_life d a y"
| life_fill: "maker_life d a x \<Longrightarrow> on_fill r (MM x) = Some (MM y) \<Longrightarrow> maker_life d a y"
| life_trade: "maker_life d a x \<Longrightarrow> on_trade t (MM x) = MM y \<Longrightarrow> maker_life d a y"
| life_bbo: "maker_life d a x \<Longrightarrow> on_bbo u (MM x) = Some (MM y) \<Longrightarrow> maker_life d a y"

lemma quote_pnl:
  "mm_quote_bid junk p s = Some s' \<Longrightarrow> mm_pnl (fst s') = mm_pnl (fst s)"
  "mm_quote_ask junk p s = Some s' \<Longrightarrow> mm_pnl (fst s') = mm_pnl (fst s)"
  by (auto simp: mm_quote_bid_def mm_quote_ask_def Let_def mm_pnl_def split: if_splits)

lemma update_pnl: "update_quotes rnd junk a e = Some s \<Longrightarrow> mm_pnl (fst s) = mm_pnl a"
  by (fastforce simp: update_quotes_def bind_eq_Some_conv dest: quote_pnl split: prod.splits)

lemma tick_pnl:
  assumes "mm_on_tick rnd d junk a e = Some (y, e')"
  shows "mm_pnl y = mm_pnl a"
proof -
  obtain u g where d: "unit d (mm_rng a) = (u, g)" by fastforce
  have "mm_pnl (a\<lparr>mm_rng := g\<rparr>) = mm_pnl a" by (simp add: mm_pnl_def)
  then show ?thesis using assms update_pnl [of rnd junk "a\<lparr>mm_rng := g\<rparr>" e "(y, e')"]
    by (auto simp: mm_on_tick_def d Let_def split: if_splits)
qed

text \<open>
  The profit and loss a market maker reports never changes, whatever it trades: no handler writes
  \<^verbatim>\<open>realized_pnl_\<close>.
\<close>

theorem maker_pnl_is_constant:
  assumes "maker_life d (new_market_maker seeded c) a"
  shows "mm_pnl a = 0"
  using assms
proof (induction "new_market_maker seeded c" a rule: maker_life.induct)
  case life_start
  then show ?case by (simp add: mm_pnl_def new_market_maker_def)
next
  case (life_tick x rnd junk e y e')
  then show ?case by (simp add: tick_pnl)
next
  case (life_cancel x junk e y e')
  then show ?case by (auto simp: cancel_all_def bind_eq_Some_conv Let_def mm_pnl_def)
qed (auto simp: mm_on_fill_def mm_on_trade_def mm_on_bbo_def mm_pnl_def)

theorem maker_pnl_is_constant_witness:
  "\<exists>a. on_fill \<lparr>er_order_id = 1, er_exec_id = 1, er_symbol = demo_symbol, er_side = Buy, er_status = Filled, er_price = 100,
      er_order_qty = 5, er_filled_qty = 5, er_leaves_qty = 0, er_avg_price = Some 100, er_timestamp = 0, er_last_price = Some 100,
      er_last_qty = 5\<rparr> (MM (demo_maker 1 0 0)) = Some (MM a) \<and> mm_position a = 5 \<and> mm_pnl a = 0"
proof -
  let ?r = "\<lparr>er_order_id = 1, er_exec_id = 1, er_symbol = demo_symbol, er_side = Buy, er_status = Filled, er_price = 100,
      er_order_qty = 5, er_filled_qty = 5, er_leaves_qty = 0, er_avg_price = Some 100, er_timestamp = 0, er_last_price = Some 100,
      er_last_qty = 5\<rparr>"
  let ?c = "(default_market_maker_config (\<lambda>x. x))\<lparr>mc_symbol := demo_symbol\<rparr>"
  let ?n = "new_market_maker (\<lambda>_. ()) ?c" and ?d = "\<lparr>unit = Pair 0, pick_qty = \<lambda>l h. Pair l, pick_price = \<lambda>l h. Pair l\<rparr>"
  have n: "demo_maker 1 0 0 = ?n" by (simp add: demo_maker_def new_market_maker_def)
  have "on_fill ?r (MM ?n) = Some (MM (?n\<lparr>mm_position := 5, mm_num_trades := 1\<rparr>))"
    by (simp add: mm_on_fill_def moved_position_def new_market_maker_def s64_add_def s64_def s64_range_def)
  moreover from life_fill [OF life_start [where d = ?d] this] have "mm_pnl (?n\<lparr>mm_position := 5, mm_num_trades := 1\<rparr>) = 0"
    by (rule maker_pnl_is_constant)
  ultimately show ?thesis unfolding n by simp
qed

section \<open>The symbols of the simulation\<close>

definition digits_value :: "8 word list \<Rightarrow> nat" where
  "digits_value ds = foldl (\<lambda>v c. 10 * v + (unat c - 48)) 0 ds"

lemma digit_word: "d < 10 \<Longrightarrow> unat (of_nat (48 + d) :: 8 word) = 48 + d"
  by (subst unat_of_nat) simp

lemma digits_value_snoc: "digits_value (ds @ [c]) = 10 * digits_value ds + (unat c - 48)"
  by (simp add: digits_value_def)

lemma decimal_value: "digits_value (decimal i) = i"
proof (induction i rule: decimal.induct)
  case (1 i)
  show ?case
  proof (cases "i < 10")
    case True
    have "decimal i = [] @ [of_nat (48 + i)]" using True by (subst decimal.simps) simp
    then show ?thesis by (simp only: digits_value_snoc digit_word [OF True]) (simp add: digits_value_def)
  next
    case False
    have m: "i mod 10 < 10" by simp
    have "decimal i = decimal (i div 10) @ [of_nat (48 + i mod 10)]" using False by (subst decimal.simps) simp
    then have "digits_value (decimal i) = 10 * digits_value (decimal (i div 10)) + i mod 10"
      by (simp only: digits_value_snoc digit_word [OF m])
    then show ?thesis using 1 [OF False] by simp
  qed
qed

lemma padded_value: "digits_value (replicate k 48 @ ds) = digits_value ds"
  by (induction k) (simp_all add: digits_value_def)

lemma decimal_nonzero: "\<forall>c \<in> set (decimal i). c \<noteq> 0"
proof (induction i rule: decimal.induct)
  case (1 i)
  have z: "(of_nat (48 + d) :: 8 word) \<noteq> 0" if "d < 10" for d using digit_word [OF that] by (metis add_is_0 unsigned_0 zero_neq_numeral)
  show ?case using 1 z [of i] z [of "i mod 10"] by (subst decimal.simps) (simp del: decimal.simps of_nat_add)
qed

lemma decimal_length: "i < 10 ^ Suc k \<Longrightarrow> length (decimal i) \<le> Suc k"
proof (induction k arbitrary: i)
  case (Suc k)
  then have "length (decimal (i div 10)) \<le> Suc k" by (intro Suc.IH) simp
  then show ?case by (subst decimal.simps) (simp del: decimal.simps)
qed (simp add: decimal.simps)

lemma sym_name_small:
  assumes "i < 2 ^ 31"
  shows "sym_name i = [83, 89, 77] @ replicate (4 - length (decimal i)) 48 @ decimal i"
proof -
  have "sint (of_nat i :: 32 word) = signed_take_bit 31 (int i)" by (simp add: signed_of_nat)
  also have "\<dots> = int i" by (rule signed_take_bit_int_eq_self) (use assms in simp_all)
  finally show ?thesis by (simp add: sym_name_def Let_def del: decimal.simps)
qed

lemma sym_name_short:
  assumes "i < 10000"
  shows "take 7 (takeWhile (\<lambda>c. c \<noteq> 0) (sym_name i)) = sym_name i"
proof -
  have n: "sym_name i = [83, 89, 77] @ replicate (4 - length (decimal i)) 48 @ decimal i" by (rule sym_name_small) (use assms in simp)
  have len: "length (sym_name i) \<le> 7" using decimal_length [of i 3] assms by (simp add: n del: decimal.simps)
  have "\<forall>c \<in> set (sym_name i). c \<noteq> 0" using decimal_nonzero [of i] by (auto simp: n simp del: decimal.simps)
  then have all: "takeWhile (\<lambda>c. c \<noteq> 0) (sym_name i) = sym_name i" by (simp add: takeWhile_eq_all_conv)
  show ?thesis unfolding all by (rule take_all [OF len])
qed

lemma sym_name_value: "i < 2 ^ 31 \<Longrightarrow> digits_value (drop 3 (sym_name i)) = i"
  by (simp add: sym_name_small padded_value decimal_value del: decimal.simps)

lemma sym_name_inject: "sym_name i = sym_name j \<Longrightarrow> i < 2 ^ 31 \<Longrightarrow> j < 2 ^ 31 \<Longrightarrow> i = j"
  by (metis sym_name_value)

lemma symbols_collide: "symbol_of_cstr (sym_name 10000) = symbol_of_cstr (sym_name 1000)"
proof -
  have "decimal 1000 = [49, 48, 48, 48]" "decimal 10000 = [49, 48, 48, 48, 48]" by simp_all
  then show ?thesis by (simp add: sym_name_small symbol_of_cstr_eq Let_def del: decimal.simps)
qed

text \<open>
  The simulation gives each of its symbols a book of its own exactly up to 10000 symbols: a symbol
  keeps seven characters, so that number 10000 is number 1000 again, whose book it replaces.
\<close>

theorem sim_symbols_distinct: "distinct (sim_symbols n) \<longleftrightarrow> n \<le> 10000"
proof
  assume d: "distinct (sim_symbols n)"
  show "n \<le> 10000"
  proof (rule ccontr)
    assume "\<not> n \<le> 10000"
    then have "1000 < n" "10000 < n" by simp_all
    moreover have "symbol_of_cstr (sym_name 10000) = symbol_of_cstr (sym_name 1000)" by (rule symbols_collide)
    ultimately have "sim_symbols n ! 10000 = sim_symbols n ! 1000" "10000 < length (sim_symbols n)" "1000 < length (sim_symbols n)"
      by (simp_all add: sim_symbols_def)
    with d show False using nth_eq_iff_index_eq [OF d, of 10000 1000] by simp
  qed
next
  assume "n \<le> 10000"
  then have "inj_on (\<lambda>i. symbol_of_cstr (sym_name i)) (set [0..<n])"
    by (intro inj_onI sym_name_inject) (simp_all add: symbol_of_cstr_eq_iff sym_name_short)
  then show "distinct (sim_symbols n)" by (simp add: sim_symbols_def distinct_map)
qed

end
