(* ===== verification/Timing.thy ===== *)
theory Timing
  imports Complex_Main Prelude
begin

text \<open>
  The time sources of \<^verbatim>\<open>include/utils/timing.hpp\<close>: reading the time-stamp counter, the wall clock, the
  calibration of one against the other, the conversions between cycles and nanoseconds, the scoped
  timer and the stopwatch.

  What the processor and the operating system deliver are arguments: \<open>tsc\<close> and \<open>clock\<close> are the
  readings still to come, a natural number says how many have been consumed. The clock ticks in
  nanoseconds, as that of the C++ library on Linux does. Arithmetic on \<^verbatim>\<open>double\<close> is real arithmetic
  with every result rounded by \<open>rnd\<close>; a conversion to an integer that does not fit is undefined
  behaviour, \<^const>\<open>None\<close>.
\<close>

unbundle bit_operations_syntax

section \<open>Reading the clocks\<close>

text \<open>The \<^verbatim>\<open>x86-64\<close> branch: the counter arrives in two registers. \<^verbatim>\<open>rdtscp\<close> also reads a core number, unused.\<close>

definition rdtsc :: "32 word \<Rightarrow> 32 word \<Rightarrow> 64 word" where
  "rdtsc hi lo = push_bit 32 (ucast hi) OR ucast lo"

definition rdtscp :: "32 word \<Rightarrow> 32 word \<Rightarrow> 32 word \<Rightarrow> 64 word" where
  "rdtscp hi lo aux = push_bit 32 (ucast hi) OR ucast lo"

text \<open>The branch for other processors reads the clock instead of a counter.\<close>

definition rdtsc_fallback :: "int \<Rightarrow> 64 word" where
  "rdtsc_fallback now = of_int now"

definition rdtscp_fallback :: "int \<Rightarrow> 64 word" where
  "rdtscp_fallback now = rdtsc_fallback now"

text \<open>A reading of the clock is a signed number of nanoseconds; a duration cast truncates.\<close>

definition timing_now_ns :: "int \<Rightarrow> 64 word" where
  "timing_now_ns now = of_int now"

definition timing_now_us :: "int \<Rightarrow> 64 word" where
  "timing_now_us now = of_int (trunc_div now 1000)"

section \<open>Calibration\<close>

record timing =
  cycles_per_ns :: real
  ns_per_cycle :: real

definition timing_default :: "(real \<Rightarrow> real) \<Rightarrow> timing" where
  "timing_default rnd = \<lparr>cycles_per_ns = 3, ns_per_cycle = rnd (333 / 1000)\<rparr>"

text \<open>The waiting loop; the result is the number of readings consumed. It may wait forever.\<close>

partial_function (option) spin :: "(nat \<Rightarrow> int) \<Rightarrow> int \<Rightarrow> nat \<Rightarrow> nat option" where
  "spin clock t1 k = (if clock k - t1 < 10000000 then spin clock t1 (Suc k) else Some (Suc k))"

declare spin.simps [code]

text \<open>
  The readings used are the first and the one after the loop. A quotient by zero is an infinity,
  outside the finite numbers modelled: \<^const>\<open>None\<close>.
\<close>

definition ratio :: "(real \<Rightarrow> real) \<Rightarrow> real \<Rightarrow> real \<Rightarrow> real option" where
  "ratio rnd a b = (if b = 0 then None else Some (rnd (a / b)))"

definition calibrate :: "(real \<Rightarrow> real) \<Rightarrow> (nat \<Rightarrow> int) \<Rightarrow> 64 word \<Rightarrow> 64 word \<Rightarrow> timing option" where
  "calibrate rnd clock tsc1 tsc2 =
     Option.bind (spin clock (clock 0) 1) (\<lambda>k.
       let ns = clock k - clock 0;
           cycles = tsc2 - tsc1;
           c = rnd (real (unat cycles)); n = rnd (of_int ns)
       in Option.bind (ratio rnd c n) (\<lambda>cpn. map_option (\<lambda>npc. \<lparr>cycles_per_ns = cpn, ns_per_cycle = npc\<rparr>) (ratio rnd n c)))"

section \<open>Conversions\<close>

definition truncate_u64 :: "real \<Rightarrow> 64 word option" where
  "truncate_u64 x = (if - 1 < x \<and> x < 2 ^ 64 then Some (of_nat (nat \<lfloor>x\<rfloor>)) else None)"

definition cycles_to_ns :: "(real \<Rightarrow> real) \<Rightarrow> timing \<Rightarrow> 64 word \<Rightarrow> 64 word option" where
  "cycles_to_ns rnd t cycles = truncate_u64 (rnd (rnd (real (unat cycles)) * ns_per_cycle t))"

definition ns_to_cycles :: "(real \<Rightarrow> real) \<Rightarrow> timing \<Rightarrow> 64 word \<Rightarrow> 64 word option" where
  "ns_to_cycles rnd t ns = truncate_u64 (rnd (rnd (real (unat ns)) * cycles_per_ns t))"

section \<open>Timers\<close>

text \<open>The scoped timer writes to the variable it was given when it goes out of scope.\<close>

record scoped_timer =
  tm_start :: "64 word"

definition scoped_timer_begin :: "64 word \<Rightarrow> scoped_timer" where
  "scoped_timer_begin tsc = \<lparr>tm_start = tsc\<rparr>"

definition scoped_timer_end :: "(real \<Rightarrow> real) \<Rightarrow> timing \<Rightarrow> 64 word \<Rightarrow> scoped_timer \<Rightarrow> 64 word option" where
  "scoped_timer_end rnd t tsc s = cycles_to_ns rnd t (tsc - tm_start s)"

record stopwatch =
  sw_start :: "64 word"
  sw_end :: "64 word"
  sw_elapsed :: "64 word"

definition new_stopwatch :: stopwatch where
  "new_stopwatch = \<lparr>sw_start = 0, sw_end = 0, sw_elapsed = 0\<rparr>"

definition sw_begin :: "64 word \<Rightarrow> stopwatch \<Rightarrow> stopwatch" where
  "sw_begin tsc s = s\<lparr>sw_start := tsc\<rparr>"

definition sw_stop :: "64 word \<Rightarrow> stopwatch \<Rightarrow> stopwatch" where
  "sw_stop tsc s = (let s1 = s\<lparr>sw_end := tsc\<rparr> in s1\<lparr>sw_elapsed := sw_elapsed s1 + (sw_end s1 - sw_start s1)\<rparr>)"

definition sw_reset :: "stopwatch \<Rightarrow> stopwatch" where
  "sw_reset s = s\<lparr>sw_elapsed := 0\<rparr>"

definition elapsed_cycles :: "stopwatch \<Rightarrow> 64 word" where
  "elapsed_cycles s = sw_elapsed s"

definition elapsed_ns :: "(real \<Rightarrow> real) \<Rightarrow> timing \<Rightarrow> stopwatch \<Rightarrow> 64 word option" where
  "elapsed_ns rnd t s = cycles_to_ns rnd t (sw_elapsed s)"

definition elapsed_us :: "(real \<Rightarrow> real) \<Rightarrow> timing \<Rightarrow> stopwatch \<Rightarrow> real option" where
  "elapsed_us rnd t s = map_option (\<lambda>ns. rnd (rnd (real (unat ns)) / 1000)) (elapsed_ns rnd t s)"

definition elapsed_ms :: "(real \<Rightarrow> real) \<Rightarrow> timing \<Rightarrow> stopwatch \<Rightarrow> real option" where
  "elapsed_ms rnd t s = map_option (\<lambda>ns. rnd (rnd (real (unat ns)) / 1000000)) (elapsed_ns rnd t s)"

end
