(* ===== verification/Replay_Kraken.thy ===== *)
theory Replay_Kraken
  imports Matching_Engine Journal_Format Timing
begin

text \<open>
  The command replay of \<^verbatim>\<open>src/tools/replay_kraken.cpp\<close>: the file of packed commands, its loading,
  the loop that runs them on an engine and counts, and the program around it with the figures it
  reports.
\<close>

section \<open>Commands\<close>

text \<open>The packed structure of 28 bytes; its two padding members carry no meaning.\<close>

record replay_cmd =
  rc_type :: byte
  rc_side :: byte
  rc_order_id :: "64 word"
  rc_price :: price
  rc_quantity :: "32 word"

definition CMD_SIZE :: nat where "CMD_SIZE = 28"

text \<open>The plain enumeration \<^verbatim>\<open>CmdType\<close> over bytes, to which a byte of the file need not belong.\<close>

definition ADD :: byte where [simp]: "ADD = 0"
definition CANCEL :: byte where [simp]: "CANCEL = 1"
definition REPLACE :: byte where [simp]: "REPLACE = 2"

definition cmd_of_bytes :: "byte list \<Rightarrow> replay_cmd" where
  "cmd_of_bytes bs =
     \<lparr>rc_type = bs ! 0, rc_side = bs ! 1, rc_order_id = of_word_bytes (field 4 8 bs), rc_price = of_price_bytes (field 12 8 bs),
      rc_quantity = of_word_bytes (field 20 4 bs)\<rparr>"

text \<open>A read of a file into memory: what is missing in the file keeps what the memory held.\<close>

definition read_over :: "byte list \<Rightarrow> byte list \<Rightarrow> byte list" where
  "read_over bs mem = take (length mem) bs @ drop (length bs) mem"

definition MAGIC :: "byte list" where
  "MAGIC = [75, 82, 75, 78]"

text \<open>
  Loading: four magic bytes and the number of commands, both over the uninitialised \<open>mem\<close>, then the
  commands over a vector of zeros. No read is checked. \<^const>\<open>None\<close> is the exit on wrong magic bytes.
\<close>

definition load_commands :: "byte list \<Rightarrow> byte list \<Rightarrow> replay_cmd list option" where
  "load_commands mem bs =
     (let hdr = read_over bs mem in
      if take 4 hdr \<noteq> MAGIC then None
      else (let n = of_le (field 4 4 hdr);
                data = read_over (drop 8 bs) (replicate (n * CMD_SIZE) 0)
            in Some (map (\<lambda>i. cmd_of_bytes (field (i * CMD_SIZE) CMD_SIZE data)) [0..<n])))"

section \<open>The replay\<close>

record replay_counts =
  n_add :: "32 word"
  n_cancel :: "32 word"
  n_replace :: "32 word"
  n_err :: "32 word"

definition zero_counts :: replay_counts where
  "zero_counts = \<lparr>n_add = 0, n_cancel = 0, n_replace = 0, n_err = 0\<rparr>"

definition cmd_order :: "symbol \<Rightarrow> replay_cmd \<Rightarrow> order" where
  "cmd_order sy c =
     order_default\<lparr>o_id := rc_order_id c, o_symbol := sy, o_side := (if rc_side c = 0 then Buy else Sell), o_price := rc_price c,
       o_quantity := (if 0 < rc_quantity c then rc_quantity c else 1), o_type := Limit, o_tif := GoodTillCancel\<rparr>"

text \<open>One command. A command of another type leaves the result as uninitialised as it was, \<open>junk\<close>.\<close>

definition replay_one ::
  "order_result \<Rightarrow> symbol \<Rightarrow> replay_cmd \<Rightarrow> replay_counts \<times> engine \<Rightarrow> (replay_counts \<times> engine) option" where
  "replay_one junk sy c s =
     (let (k, e) = s;
          fin = (\<lambda>k (e, r). (if \<not> r_success r then k\<lparr>n_err := n_err k + 1\<rparr> else k, e))
      in if rc_type c = ADD then
           map_option (fin (k\<lparr>n_add := n_add k + 1\<rparr>)) (submit_order junk (cmd_order sy c) e)
         else if rc_type c = CANCEL then
           map_option (fin (k\<lparr>n_cancel := n_cancel k + 1\<rparr>)) (engine_cancel junk sy (rc_order_id c) e)
         else if rc_type c = REPLACE then
           map_option (fin (k\<lparr>n_replace := n_replace k + 1\<rparr>))
             (engine_replace junk sy (rc_order_id c) (rc_price c) (rc_quantity c) e)
         else Some (fin k (e, junk)))"

fun replay_commands ::
  "order_result \<Rightarrow> symbol \<Rightarrow> replay_cmd list \<Rightarrow> replay_counts \<times> engine \<Rightarrow> (replay_counts \<times> engine) option" where
  "replay_commands junk sy [] s = Some s"
| "replay_commands junk sy (c # cs) s = Option.bind (replay_one junk sy c s) (replay_commands junk sy cs)"

definition kraken_symbol :: symbol where
  "kraken_symbol = symbol_of_cstr [88, 66, 84, 85, 83, 68]"

definition kraken_engine :: "inbound_message \<Rightarrow> (nat \<Rightarrow> timestamp) \<Rightarrow> engine" where
  "kraken_engine qmem clock = add_symbol clock kraken_symbol (new_engine qmem default_engine_config)"

text \<open>
  The two passes: one to warm up on an engine whose counts and books are dropped, and the measured one
  on a second engine. \<^const>\<open>None\<close> is a pass that does not return.
\<close>

definition kraken_passes ::
  "order_result \<Rightarrow> inbound_message \<Rightarrow> (nat \<Rightarrow> timestamp) \<Rightarrow> replay_cmd list \<Rightarrow> (replay_counts \<times> engine) option" where
  "kraken_passes junk qmem clock cs =
     Option.bind (replay_commands junk kraken_symbol cs (zero_counts, kraken_engine qmem clock))
       (\<lambda>_. replay_commands junk kraken_symbol cs (zero_counts, kraken_engine qmem clock))"

section \<open>The program\<close>

text \<open>
  The figures, from the number of commands, the nanoseconds between the two readings of the clock and
  the counts. A quotient by zero, for an empty file or a clock that has not advanced, is an infinity or
  not a number: \<^const>\<open>None\<close>.
\<close>

record kraken_report =
  kr_commands :: nat
  kr_counts :: replay_counts
  kr_elapsed_ms :: real
  kr_million_ops :: "real option"
  kr_ns_per_op :: "real option"
  kr_market_factor :: "real option"

definition kraken_report_of :: "(real \<Rightarrow> real) \<Rightarrow> nat \<Rightarrow> int \<Rightarrow> replay_counts \<Rightarrow> kraken_report" where
  "kraken_report_of rnd cmd_count ns k =
     (let us = rnd (rnd (of_int ns) / 1000);
          ops_per_sec = ratio rnd (rnd (real cmd_count)) (rnd (us / 1000000))
      in \<lparr>kr_commands = cmd_count, kr_counts = k, kr_elapsed_ms = rnd (us / 1000),
          kr_million_ops = map_option (\<lambda>x. rnd (x / 1000000)) ops_per_sec,
          kr_ns_per_op = ratio rnd (rnd (us * 1000)) (rnd (real cmd_count)),
          kr_market_factor = map_option (\<lambda>x. rnd (x / 110)) ops_per_sec\<rparr>)"

datatype kraken_end = CannotOpen string | InvalidMagic | Reported kraken_report

definition command_path :: "string list \<Rightarrow> string" where
  "command_path argv = (if 1 < length argv then argv ! 1 else ''data/kraken_replay.bin'')"

text \<open>
  \<^verbatim>\<open>main\<close>: \<open>fs\<close> is the file system, with \<^const>\<open>None\<close> for a file that cannot be opened, and \<open>t_start\<close>,
  \<open>t_end\<close> are the two readings of the clock. The outer \<^const>\<open>None\<close> is a run that does not return.
\<close>

definition kraken_main ::
  "(real \<Rightarrow> real) \<Rightarrow> order_result \<Rightarrow> inbound_message \<Rightarrow> (nat \<Rightarrow> timestamp) \<Rightarrow> (string \<Rightarrow> byte list option) \<Rightarrow> int \<Rightarrow> int \<Rightarrow>
   byte list \<Rightarrow> string list \<Rightarrow> kraken_end option" where
  "kraken_main rnd junk qmem clock fs t_start t_end mem argv =
     (case fs (command_path argv) of
        None \<Rightarrow> Some (CannotOpen (command_path argv))
      | Some bs \<Rightarrow>
         (case load_commands mem bs of
            None \<Rightarrow> Some InvalidMagic
          | Some cs \<Rightarrow>
              map_option (\<lambda>(k, e). Reported (kraken_report_of rnd (length cs) (t_end - t_start) k))
                (kraken_passes junk qmem clock cs)))"

definition kraken_exit_code :: "kraken_end \<Rightarrow> int" where
  "kraken_exit_code r = (case r of Reported _ \<Rightarrow> 0 | _ \<Rightarrow> 1)"

end
