(* ===== verification/Replay_Properties.thy ===== *)
theory Replay_Properties
  imports Replay_Kraken Engine_Properties
begin

text \<open>
  What the command replay does: its two passes and its counts against a replay on a bare book, for
  any commands, and a file that is too short.
\<close>

section \<open>The replay of a bare book\<close>

text \<open>One command on the book of the symbol, without an engine, and whether it succeeded.\<close>

definition cmd_book :: "order_result \<Rightarrow> replay_cmd \<Rightarrow> book \<Rightarrow> (book \<times> bool) option" where
  "cmd_book junk c b =
     (if rc_type c = ADD then map_option (map_prod id r_success) (add_order (cmd_order kraken_symbol c) b)
      else if rc_type c = CANCEL then Some (map_prod id r_success (cancel_order (rc_order_id c) b))
      else if rc_type c = REPLACE then
        map_option (map_prod id r_success) (replace_order junk (rc_order_id c) (rc_price c) (rc_quantity c) b)
      else Some (b, r_success junk))"

text \<open>The book and the number of commands that failed.\<close>

fun feed :: "order_result \<Rightarrow> replay_cmd list \<Rightarrow> book \<Rightarrow> (book \<times> nat) option" where
  "feed junk [] b = Some (b, 0)"
| "feed junk (c # cs) b =
     Option.bind (cmd_book junk c b) (\<lambda>(b', ok). map_option (map_prod id (\<lambda>n. if ok then n else Suc n)) (feed junk cs b'))"

definition counted :: "replay_cmd \<Rightarrow> bool \<Rightarrow> replay_counts \<Rightarrow> replay_counts" where
  "counted c ok k =
     \<lparr>n_add = n_add k + of_bool (rc_type c = ADD), n_cancel = n_cancel k + of_bool (rc_type c = CANCEL),
      n_replace = n_replace k + of_bool (rc_type c = REPLACE), n_err = n_err k + of_bool (\<not> ok)\<rparr>"

definition kind_count :: "byte \<Rightarrow> replay_cmd list \<Rightarrow> 32 word" where
  "kind_count ty cs = of_nat (length (filter (\<lambda>c. rc_type c = ty) cs))"

text \<open>
  One command on an engine is the command on the book of the symbol, counted: whatever the command and
  the state of that book, and also when the book does not return.
\<close>

lemma replay_one_exact:
  assumes e: "served e kraken_symbol = Some b"
  shows "case cmd_book junk c b of
      None \<Rightarrow> replay_one junk kraken_symbol c (k, e) = None
    | Some (b', ok) \<Rightarrow> \<exists>e'. replay_one junk kraken_symbol c (k, e) = Some (counted c ok k, e') \<and> served e' kraken_symbol = Some b'"
proof -
  obtain a where a: "map_of (en_symbol_to_book e) kraken_symbol = Some a" "en_heap e a = Some b"
    using e by (auto simp: served_def get_book_def split: option.splits)
  have sy: "o_symbol (cmd_order kraken_symbol c) = kraken_symbol" by (simp add: cmd_order_def)
  consider "rc_type c = ADD" | "rc_type c = CANCEL" | "rc_type c = REPLACE" | "rc_type c \<notin> {ADD, CANCEL, REPLACE}" by blast
  then show ?thesis
  proof cases
    case 1
    then show ?thesis using a
      by (cases "add_order (cmd_order kraken_symbol c) b")
        (auto simp: cmd_book_def replay_one_def submit_order_def Let_def get_book_def sy served_def counted_def map_prod_def)
  next
    case 2
    then show ?thesis using a
      by (cases "cancel_order (rc_order_id c) b")
        (auto simp: cmd_book_def replay_one_def engine_cancel_def Let_def get_book_def served_def counted_def map_prod_def)
  next
    case 3
    then show ?thesis using a
      by (cases "replace_order junk (rc_order_id c) (rc_price c) (rc_quantity c) b")
        (auto simp: cmd_book_def replay_one_def engine_replace_def Let_def get_book_def served_def counted_def map_prod_def)
  next
    case 4
    then show ?thesis using e
      by (auto simp: cmd_book_def replay_one_def counted_def)
  qed
qed

lemma replay_exact:
  assumes "served e kraken_symbol = Some b"
  shows "map_option fst (replay_commands junk kraken_symbol cs (k, e)) =
    map_option (\<lambda>(b', n). \<lparr>n_add = n_add k + kind_count ADD cs, n_cancel = n_cancel k + kind_count CANCEL cs,
      n_replace = n_replace k + kind_count REPLACE cs, n_err = n_err k + of_nat n\<rparr>) (feed junk cs b)"
  using assms
proof (induction cs arbitrary: k e b)
  case (Cons c cs)
  have kc: "kind_count ty (c # cs) = of_bool (rc_type c = ty) + kind_count ty cs" for ty by (simp add: kind_count_def)
  show ?case
  proof (cases "cmd_book junk c b")
    case None
    then show ?thesis using replay_one_exact [OF Cons.prems, of junk c k] by simp
  next
    case (Some z)
    obtain b1 ok where z: "z = (b1, ok)" by (cases z)
    obtain e1 where 1: "replay_one junk kraken_symbol c (k, e) = Some (counted c ok k, e1)" "served e1 kraken_symbol = Some b1"
      using replay_one_exact [OF Cons.prems, of junk c k] by (auto simp: Some z)
    show ?thesis
      using Cons.IH [OF 1(2), of "counted c ok k"]
      by (cases "feed junk cs b1") (auto simp: Some z 1(1) kc counted_def add.assoc)
  qed
qed (simp add: kind_count_def)

text \<open>The replay on a bare book never gets stuck: its book is one that public calls have built.\<close>

lemma cmd_book_built:
  assumes "built cfg b" "\<not> c_enable_self_trade_prevention cfg"
  shows "\<exists>b' ok. cmd_book junk c b = Some (b', ok) \<and> built cfg b'"
proof -
  have b: "safe_book b" "b_config b = cfg" using built_safe [OF assms(1)] by auto
  then have cmp: "ids_comparable b i" for i using assms(2) by (simp add: ids_comparable_def)
  have "add_order (cmd_order kraken_symbol c) b \<noteq> None" by (rule add_safe(2) [OF b(1) cmp])
  then obtain b1 r1 where 1: "add_order (cmd_order kraken_symbol c) b = Some (b1, r1)" by auto
  obtain b2 r2 where 2: "replace_order junk (rc_order_id c) (rc_price c) (rc_quantity c) b = Some (b2, r2)"
    using replace_safe(2) [OF b(1) cmp] unfolding replace_order_def by fast
  show ?thesis
    using 1 2 built_add [OF assms(1) 1] built_replace [OF assms(1) 2 [unfolded replace_order_def]] assms(1)
      built_cancel [OF assms(1), of o_side "rc_order_id c", folded cancel_order_def]
    by (auto simp: cmd_book_def map_prod_def split_beta)
qed

lemma feed_built:
  assumes "built cfg b" "\<not> c_enable_self_trade_prevention cfg"
  shows "\<exists>b' n. feed junk cs b = Some (b', n) \<and> n \<le> length cs \<and> built cfg b'"
  using assms(1)
proof (induction cs arbitrary: b)
  case (Cons c cs)
  from cmd_book_built [OF Cons.prems assms(2)] obtain b1 ok where 1: "cmd_book junk c b = Some (b1, ok)" "built cfg b1" by blast
  from Cons.IH [OF 1(2)] obtain b2 n where "feed junk cs b1 = Some (b2, n)" "n \<le> length cs" "built cfg b2" by blast
  then show ?case by (simp add: 1(1))
qed simp

lemma kraken_engine_serves: "served (kraken_engine qmem clock) kraken_symbol = Some (new_book kraken_symbol default_config clock)"
proof -
  let ?e = "new_engine qmem default_engine_config"
  have r: "engine_inv ?e" by (rule new_engine_inv)
  have "blank_book clock kraken_symbol ?e = new_book kraken_symbol default_config clock"
    by (simp add: blank_book_def new_engine_def book_config_of_def default_engine_config_def)
  then show ?thesis unfolding kraken_engine_def using add_symbol_ok(2) [OF r] by simp
qed

text \<open>
  A file with a sale, a purchase that fills a part of it, a replace of the sale at its price to less than
  what is already filled, a cancel of an unknown id and a byte that is no command.
\<close>

definition demo_cmd :: "byte \<Rightarrow> byte \<Rightarrow> nat \<Rightarrow> nat \<Rightarrow> byte list" where
  "demo_cmd ty sd i q = [ty, sd, 0, 0] @ le_bytes 8 i @ le_bytes 8 100 @ le_bytes 4 q @ le_bytes 4 0"

definition demo_feed :: "byte list" where
  "demo_feed = MAGIC @ le_bytes 4 5 @ demo_cmd ADD 1 1 50 @ demo_cmd ADD 0 2 20 @ demo_cmd REPLACE 1 1 10 @ demo_cmd CANCEL 1 7 50 @
     demo_cmd 9 1 1 50"

definition demo_cmds :: "replay_cmd list" where
  "demo_cmds =
     [\<lparr>rc_type = 0, rc_side = 1, rc_order_id = 1, rc_price = 100, rc_quantity = 50\<rparr>,
      \<lparr>rc_type = 0, rc_side = 0, rc_order_id = 2, rc_price = 100, rc_quantity = 20\<rparr>,
      \<lparr>rc_type = 2, rc_side = 1, rc_order_id = 1, rc_price = 100, rc_quantity = 10\<rparr>,
      \<lparr>rc_type = 1, rc_side = 1, rc_order_id = 7, rc_price = 100, rc_quantity = 50\<rparr>,
      \<lparr>rc_type = 9, rc_side = 1, rc_order_id = 1, rc_price = 100, rc_quantity = 50\<rparr>]"

lemma demo_feed_commands: "load_commands (replicate 8 0) demo_feed = Some demo_cmds"
  by code_simp

lemma demo_feed_run:
  "map_option snd (feed (init_result 0) demo_cmds (new_book kraken_symbol default_config (\<lambda>n. of_nat n))) = Some 2"
  "length demo_cmds = 5" "kind_count ADD demo_cmds = 2" "kind_count CANCEL demo_cmds = 1" "kind_count REPLACE demo_cmds = 1"
  by code_simp+

text \<open>
  C11. The replay tool, from its arguments to its report, for every file, every content of the memory it
  reads into and every clock: it ends, with a message when the file cannot be opened or has the wrong
  magic bytes, and otherwise with a report that counts exactly the commands of each kind and, as errors,
  exactly the commands that a replay on an empty book without engine does not carry out, replaces of
  partly filled orders and prices the book refuses included. Neither the warm-up nor the engine leaves a
  trace in the counts. (Cancels are those whose read of the erased order gives its side.)
\<close>

theorem kraken_main_correct:
  "kraken_main rnd junk qmem clock fs t_start t_end mem argv \<noteq> None \<and>
   kraken_main rnd junk qmem clock fs t_start t_end mem argv =
     (case fs (command_path argv) of
        None \<Rightarrow> Some (CannotOpen (command_path argv))
      | Some bs \<Rightarrow>
         (case load_commands mem bs of
            None \<Rightarrow> Some InvalidMagic
          | Some cs \<Rightarrow>
             map_option (\<lambda>(b, n). Reported (kraken_report_of rnd (length cs) (t_end - t_start)
                \<lparr>n_add = kind_count ADD cs, n_cancel = kind_count CANCEL cs, n_replace = kind_count REPLACE cs, n_err = of_nat n\<rparr>))
               (feed junk cs (new_book kraken_symbol default_config clock))))"
proof -
  have pass: "\<exists>b n e. feed junk cs (new_book kraken_symbol default_config clock) = Some (b, n) \<and>
      kraken_passes junk qmem clock cs =
        Some (\<lparr>n_add = kind_count ADD cs, n_cancel = kind_count CANCEL cs, n_replace = kind_count REPLACE cs, n_err = of_nat n\<rparr>, e)" for cs
  proof -
    from feed_built [OF built_new default_config_off] obtain b n where
      f: "feed junk cs (new_book kraken_symbol default_config clock) = Some (b, n)" by blast
    obtain k e where r: "replay_commands junk kraken_symbol cs (zero_counts, kraken_engine qmem clock) = Some (k, e)"
      "k = \<lparr>n_add = kind_count ADD cs, n_cancel = kind_count CANCEL cs, n_replace = kind_count REPLACE cs, n_err = of_nat n\<rparr>"
      using replay_exact [OF kraken_engine_serves, of junk cs zero_counts qmem clock] f by (auto simp: zero_counts_def)
    then show ?thesis using f by (auto simp: kraken_passes_def)
  qed
  show ?thesis
  proof (cases "fs (command_path argv)")
    case (Some bs)
    show ?thesis
    proof (cases "load_commands mem bs")
      case (Some cs)
      from pass [of cs] obtain b n e where "feed junk cs (new_book kraken_symbol default_config clock) = Some (b, n)"
        "kraken_passes junk qmem clock cs =
          Some (\<lparr>n_add = kind_count ADD cs, n_cancel = kind_count CANCEL cs, n_replace = kind_count REPLACE cs, n_err = of_nat n\<rparr>, e)" by blast
      then show ?thesis using \<open>fs (command_path argv) = Some bs\<close> by (simp add: kraken_main_def Some)
    qed (simp add: kraken_main_def Some)
  qed (simp add: kraken_main_def)
qed

theorem kraken_main_correct_witness:
  "kraken_main (\<lambda>x. x) (init_result 0) demo_mem (\<lambda>n. of_nat n) (\<lambda>_. Some demo_feed) 0 6000 (replicate 8 0) [''replay''] =
     Some (Reported \<lparr>kr_commands = 5, kr_counts = \<lparr>n_add = 2, n_cancel = 1, n_replace = 1, n_err = 2\<rparr>,
       kr_elapsed_ms = 6 / 1000, kr_million_ops = Some (5 / 6), kr_ns_per_op = Some 1200, kr_market_factor = Some (2500000 / 330)\<rparr>)"
proof -
  obtain b where f: "feed (init_result 0) demo_cmds (new_book kraken_symbol default_config (\<lambda>n. of_nat n)) = Some (b, 2)"
    using demo_feed_run(1) by auto
  show ?thesis
    unfolding kraken_main_correct [THEN conjunct2] option.case demo_feed_commands f
    by (simp add: demo_feed_run(2-5) [simplified] kraken_report_of_def ratio_def Let_def)
qed

section \<open>Files that are too short\<close>

definition zero_cmd :: replay_cmd where
  "zero_cmd = \<lparr>rc_type = 0, rc_side = 0, rc_order_id = 0, rc_price = 0, rc_quantity = 0\<rparr>"

definition feed_file :: "nat \<Rightarrow> byte list list \<Rightarrow> byte list" where
  "feed_file n cs = MAGIC @ le_bytes 4 n @ concat cs"

lemma field_concat:
  assumes "\<forall>c \<in> set cs. length c = m" "i < length cs"
  shows "field (i * m) m (concat cs @ z) = cs ! i"
  using assms
proof (induction cs arbitrary: i)
  case (Cons c cs)
  then show ?case
  proof (cases i)
    case (Suc j)
    have "field (m + j * m) m (c @ concat cs @ z) = field (j * m) m (concat cs @ z)" using Cons.prems by (subst field_skip) simp_all
    then show ?thesis using Cons Suc by simp
  qed (simp add: field_def)
qed simp

lemma length_concat_same: "\<forall>c \<in> set cs. length c = m \<Longrightarrow> length (concat cs) = length cs * m"
  by (induction cs) simp_all

lemma zero_bytes: "cmd_of_bytes (replicate CMD_SIZE 0) = zero_cmd"
  by (simp add: CMD_SIZE_def) code_simp

lemma load_short:
  assumes "\<forall>c \<in> set cs. length c = CMD_SIZE" "length cs \<le> n" "n < 2 ^ 32" "length mem = 8"
  shows "load_commands mem (feed_file n cs) = Some (map cmd_of_bytes cs @ replicate (n - length cs) zero_cmd)"
proof -
  let ?hdr = "read_over (feed_file n cs) mem"
  have hdr: "?hdr = MAGIC @ le_bytes 4 n" using assms(4) by (simp add: read_over_def feed_file_def MAGIC_def)
  have count: "of_le (field 4 4 ?hdr) = n" using assms(3) by (simp add: hdr field_def MAGIC_def)
  have body: "drop 8 (feed_file n cs) = concat cs" by (simp add: feed_file_def MAGIC_def)
  have len: "length (concat cs) = length cs * CMD_SIZE" by (rule length_concat_same [OF assms(1)])
  have le: "length cs * CMD_SIZE \<le> n * CMD_SIZE" using assms(2) by simp
  have data: "read_over (concat cs) (replicate (n * CMD_SIZE) 0) = concat cs @ replicate ((n - length cs) * CMD_SIZE) 0"
    using len le by (simp add: read_over_def diff_mult_distrib)
  have "map (\<lambda>i. cmd_of_bytes (field (i * CMD_SIZE) CMD_SIZE (concat cs @ replicate ((n - length cs) * CMD_SIZE) 0))) [0..<n] =
      map cmd_of_bytes cs @ replicate (n - length cs) zero_cmd"
  proof (rule nth_equalityI)
    fix i
    assume "i < length (map (\<lambda>i. cmd_of_bytes (field (i * CMD_SIZE) CMD_SIZE (concat cs @ replicate ((n - length cs) * CMD_SIZE) 0))) [0..<n])"
    then have i: "i < n" by simp
    show "map (\<lambda>i. cmd_of_bytes (field (i * CMD_SIZE) CMD_SIZE (concat cs @ replicate ((n - length cs) * CMD_SIZE) 0))) [0..<n] ! i =
      (map cmd_of_bytes cs @ replicate (n - length cs) zero_cmd) ! i"
    proof (cases "i < length cs")
      case True
      then show ?thesis using i field_concat [OF assms(1) True] by (simp add: nth_append)
    next
      case False
      define j where "j = i - length cs"
      have j: "i = length cs + j" "j < n - length cs" using False i by (simp_all add: j_def)
      have "Suc j * CMD_SIZE \<le> (n - length cs) * CMD_SIZE" using j(2) by (intro mult_le_mono1) simp
      then have "field (i * CMD_SIZE) CMD_SIZE (concat cs @ replicate ((n - length cs) * CMD_SIZE) (0 :: byte)) = replicate CMD_SIZE 0"
        unfolding field_def j(1) by (simp add: len distrib_right min_def)
      then show ?thesis using i False j(2) by (simp add: nth_append zero_bytes j_def)
    qed
  qed (use assms(2) in simp)
  moreover have "take 4 ?hdr = MAGIC" by (simp add: hdr MAGIC_def)
  ultimately show ?thesis unfolding load_commands_def Let_def count body data by simp
qed

lemma replay_zero:
  assumes "engine_inv e" "served e sy = Some b"
  shows "\<exists>e'. replay_one junk sy zero_cmd (k, e) = Some (k\<lparr>n_add := n_add k + 1, n_err := n_err k + 1\<rparr>, e') \<and>
    engine_inv e' \<and> served e' = served e"
proof -
  obtain a where a: "get_book sy e = Some a" "en_heap e a = Some b" using served_some [OF assms] by auto
  let ?s = "(en_stats e)\<lparr>st_orders_received := st_orders_received (en_stats e) + 1\<rparr>"
  have ad: "add_order (cmd_order sy zero_cmd) b = Some (b, reject 0 InvalidPrice)"
    by (simp add: add_order_def cmd_order_def zero_cmd_def)
  have sy: "o_symbol (cmd_order sy zero_cmd) = sy" by (simp add: cmd_order_def)
  have h: "(en_heap e)(a \<mapsto> b) = en_heap e" using a(2) by (simp add: fun_upd_idem)
  have "submit_order junk (cmd_order sy zero_cmd) e = Some (e\<lparr>en_stats := ?s\<rparr>, reject 0 InvalidPrice)"
    using a by (simp add: submit_order_def Let_def sy get_book_def ad count_match_def reject_def init_result_def h)
  moreover have "engine_inv (e\<lparr>en_stats := ?s\<rparr>)" "served (e\<lparr>en_stats := ?s\<rparr>) = served e"
    using same_engine [OF assms(1), of "e\<lparr>en_stats := ?s\<rparr>"] engine_invD(4,5) [OF assms(1)] by simp_all
  ultimately show ?thesis by (simp add: replay_one_def zero_cmd_def Let_def reject_def init_result_def)
qed

lemma replay_zeros:
  assumes "engine_inv e" "served e sy = Some b"
  shows "\<exists>e'. replay_commands junk sy (replicate m zero_cmd) (k, e) =
      Some (k\<lparr>n_add := n_add k + of_nat m, n_err := n_err k + of_nat m\<rparr>, e') \<and> engine_inv e' \<and> served e' = served e"
  using assms
proof (induction m arbitrary: k e)
  case (Suc m)
  from replay_zero [OF Suc.prems, of junk k] obtain e1 where
    1: "replay_one junk sy zero_cmd (k, e) = Some (k\<lparr>n_add := n_add k + 1, n_err := n_err k + 1\<rparr>, e1)" "engine_inv e1" "served e1 = served e" by blast
  then show ?case using Suc.IH [OF 1(2), of "k\<lparr>n_add := n_add k + 1, n_err := n_err k + 1\<rparr>"] Suc.prems(2)
    by (auto simp: add.assoc)
qed simp

text \<open>
  C40. The replay tool does not notice a command file that is cut short: the commands that are missing
  are replayed as additions with price 0, each of which the engine refuses and the tool counts as an
  addition and as an error, while the books stay as the commands present left them.
\<close>

theorem short_feed_is_padded:
  assumes "\<forall>c \<in> set cs. length c = CMD_SIZE" "length cs \<le> n" "n < 2 ^ 32" "length mem = 8"
    "replay_commands junk kraken_symbol (map cmd_of_bytes cs) (k0, e0) = Some (k, e)" "engine_inv e" "served e kraken_symbol = Some b"
  shows "\<exists>cmds e'. load_commands mem (feed_file n cs) = Some cmds \<and> length cmds = n \<and>
    replay_commands junk kraken_symbol cmds (k0, e0) =
      Some (k\<lparr>n_add := n_add k + of_nat (n - length cs), n_err := n_err k + of_nat (n - length cs)\<rparr>, e') \<and>
    served e' = served e"
proof -
  have app: "replay_commands junk sy (xs @ ys) s = Option.bind (replay_commands junk sy xs s) (replay_commands junk sy ys)" for sy xs ys s
    by (induction xs arbitrary: s) (simp_all add: bind_eq_Some_conv split: Option.bind_split)
  from replay_zeros [OF assms(6,7), of junk "n - length cs" k] obtain e' where
    z: "replay_commands junk kraken_symbol (replicate (n - length cs) zero_cmd) (k, e) =
      Some (k\<lparr>n_add := n_add k + of_nat (n - length cs), n_err := n_err k + of_nat (n - length cs)\<rparr>, e')" "served e' = served e" by blast
  show ?thesis
    using load_short [OF assms(1-4)] z assms(2)
    by (intro exI [of _ "map cmd_of_bytes cs @ replicate (n - length cs) zero_cmd"] exI [of _ e']) (simp add: app assms(5))
qed

theorem short_feed_is_padded_witness:
  "\<exists>cmds e'. load_commands (replicate 8 0) (feed_file 3 []) = Some cmds \<and> length cmds = 3 \<and>
     replay_commands (init_result 0) kraken_symbol cmds (zero_counts, kraken_engine demo_mem (\<lambda>n. of_nat n)) =
       Some (zero_counts\<lparr>n_add := 3, n_err := 3\<rparr>, e')"
proof -
  let ?e = "kraken_engine demo_mem (\<lambda>n. of_nat n)"
  have r: "engine_reach default_engine_config ?e" unfolding kraken_engine_def by (intro er_symbol er_new)
  have "engine_inv (new_engine demo_mem default_engine_config)" by (rule new_engine_inv)
  then obtain b where b: "served ?e kraken_symbol = Some b" using add_symbol_ok(2) by (auto simp: kraken_engine_def)
  from short_feed_is_padded [of "[]" 3 "replicate 8 0" "init_result 0" zero_counts ?e zero_counts ?e b] engine_reach_inv [OF r] b
  show ?thesis by (auto simp: zero_counts_def)
qed

end
