(* ===== verification/Timing_Properties.thy ===== *)
theory Timing_Properties
  imports Timing
begin

text \<open>
  The properties of the time sources: calibration ends and measures at least ten milliseconds, the
  conversion is accurate and monotone, and the stopwatch adds up its intervals across a wrap-around
  of the counter.
\<close>

unbundle bit_operations_syntax

section \<open>The counter\<close>

lemma rdtsc_value: "unat (rdtsc hi lo) = unat hi * 2 ^ 32 + unat lo"
proof -
  have "push_bit 32 (ucast hi :: 64 word) AND ucast lo = 0"
    by (rule bit_word_eqI) (auto simp: bit_simps dest: bit_imp_le_length)
  then have "rdtsc hi lo = push_bit 32 (ucast hi) + ucast lo"
    unfolding rdtsc_def by (simp add: disjunctive_add [symmetric] bit_eq_iff bit_simps)
  moreover have l: "unat hi < 2 ^ 32" "unat lo < 2 ^ 32"
    using unsigned_less [of hi, where ?'a = nat] unsigned_less [of lo, where ?'a = nat] by simp_all
  moreover have "unat (ucast hi :: 64 word) = unat hi" "unat (ucast lo :: 64 word) = unat lo"
    using l by (simp_all add: unsigned_ucast_eq take_bit_nat_eq_self)
  ultimately show ?thesis
    by (simp add: push_bit_eq_mult unat_word_ariths mod_simps)
qed

section \<open>Calibration\<close>

lemma spin_returns:
  assumes "10000000 \<le> clock n - t1" "k \<le> n"
  shows "\<exists>m. spin clock t1 k = Some (Suc m) \<and> k \<le> m \<and> m \<le> n \<and> 10000000 \<le> clock m - t1 \<and> (\<forall>j. k \<le> j \<and> j < m \<longrightarrow> clock j - t1 < 10000000)"
  using assms
proof (induction "n - k" arbitrary: k)
  case 0
  then have "k = n" by simp
  then show ?case using 0 by (subst spin.simps) auto
next
  case (Suc d)
  show ?case
  proof (cases "clock k - t1 < 10000000")
    case True
    have "k < n" using Suc.hyps(2) by simp
    then have "d = n - Suc k" "Suc k \<le> n" using Suc.hyps(2) by simp_all
    with Suc.hyps(1) [of "Suc k"] Suc.prems(1) obtain m where
      m: "spin clock t1 (Suc k) = Some (Suc m)" "Suc k \<le> m" "m \<le> n" "10000000 \<le> clock m - t1"
        "\<forall>j. Suc k \<le> j \<and> j < m \<longrightarrow> clock j - t1 < 10000000" by auto
    have "clock j - t1 < 10000000" if "k \<le> j" "j < m" for j using m(5) True that by (cases "j = k") auto
    then show ?thesis using m True by (subst spin.simps) auto
  next
    case False
    then show ?thesis using Suc.prems by (subst spin.simps) auto
  qed
qed

section \<open>Conversions\<close>

lemma nat_floor_u64: "z < 2 ^ 64 \<Longrightarrow> nat \<lfloor>z\<rfloor> < 2 ^ 64" for z :: real
proof -
  assume "z < 2 ^ 64"
  then have "\<lfloor>z\<rfloor> < 2 ^ 64" by (simp add: floor_less_iff)
  then show "nat \<lfloor>z\<rfloor> < 2 ^ 64" by (cases "0 \<le> \<lfloor>z\<rfloor>") (simp_all add: nat_less_iff)
qed

lemma truncate_u64_some:
  "truncate_u64 x = Some r \<Longrightarrow> 0 \<le> x \<Longrightarrow> real (unat r) \<le> x \<and> x < real (unat r) + 1"
proof -
  assume t: "truncate_u64 x = Some r" and x: "0 \<le> x"
  then have "x < 2 ^ 64" "r = of_nat (nat \<lfloor>x\<rfloor>)" by (auto simp: truncate_u64_def split: if_splits)
  then have "unat r = nat \<lfloor>x\<rfloor>" using nat_floor_u64 [of x] by (simp add: unat_of_nat)
  then show ?thesis using x by linarith
qed

lemma truncate_u64_mono: "truncate_u64 x = Some r \<Longrightarrow> truncate_u64 y = Some s \<Longrightarrow> x \<le> y \<Longrightarrow> r \<le> s"
  using nat_floor_u64 [of x] nat_floor_u64 [of y]
  by (auto simp: truncate_u64_def word_le_nat_alt unat_of_nat nat_mono floor_mono split: if_splits)

section \<open>Timers\<close>

definition time_interval :: "nat \<times> nat \<Rightarrow> stopwatch \<Rightarrow> stopwatch" where
  "time_interval i s = sw_stop (of_nat (snd i)) (sw_begin (of_nat (fst i)) s)"

lemma elapsed_interval: "sw_elapsed (time_interval i s) = sw_elapsed s + (of_nat (snd i) - of_nat (fst i))"
  by (simp add: time_interval_def sw_stop_def sw_begin_def Let_def)

lemma elapsed_fold:
  "list_all (\<lambda>(a, b). a \<le> b) is \<Longrightarrow>
   sw_elapsed (fold time_interval is s) = sw_elapsed s + of_nat (sum_list (map (\<lambda>(a, b). b - a) is))"
proof (induction "is" arbitrary: s)
  case (Cons i "is")
  then show ?case by (cases i) (simp add: elapsed_interval of_nat_diff)
qed simp

section \<open>Properties\<close>

text \<open>
  Calibration ends as soon as the clock has advanced by ten milliseconds, and the two factors it
  stores are the rounded quotients of the cycles and the nanoseconds of one interval that is at
  least that long. The clock is assumed not to go back, the processor to count at least one cycle in it, and rounding not to
  turn a number of one or more into zero.
\<close>

theorem calibrate_measures:
  assumes "mono clock" "1 \<le> n" "10000000 \<le> clock n - clock 0" "tsc2 \<noteq> tsc1" "\<And>x. 1 \<le> x \<Longrightarrow> rnd x \<noteq> 0"
  shows "\<exists>m t. spin clock (clock 0) 1 = Some (Suc m) \<and> m \<le> n \<and> 10000000 \<le> clock (Suc m) - clock 0 \<and>
    (1 < m \<longrightarrow> clock (m - 1) - clock 0 < 10000000) \<and>
    calibrate rnd clock tsc1 tsc2 = Some t \<and>
    cycles_per_ns t = rnd (rnd (real (unat (tsc2 - tsc1))) / rnd (of_int (clock (Suc m) - clock 0))) \<and>
    ns_per_cycle t = rnd (rnd (of_int (clock (Suc m) - clock 0)) / rnd (real (unat (tsc2 - tsc1))))"
proof -
  from spin_returns [where clock = clock and ?t1.0 = "clock 0", OF assms(3,2)] obtain m where
    m: "spin clock (clock 0) 1 = Some (Suc m)" "m \<le> n" "10000000 \<le> clock m - clock 0"
      "\<forall>j. 1 \<le> j \<and> j < m \<longrightarrow> clock j - clock 0 < 10000000" by auto
  have "clock m \<le> clock (Suc m)" using assms(1) by (simp add: mono_def)
  with m(3) have ns: "10000000 \<le> clock (Suc m) - clock 0" by simp
  have "tsc2 - tsc1 \<noteq> 0" using assms(4) by simp
  then have "1 \<le> unat (tsc2 - tsc1)" using unat_gt_0 [of "tsc2 - tsc1"] by linarith
  then have "1 \<le> real (unat (tsc2 - tsc1))" by linarith
  then have c: "rnd (real (unat (tsc2 - tsc1))) \<noteq> 0" by (rule assms(5))
  have n: "rnd (of_int (clock (Suc m) - clock 0)) \<noteq> 0" by (rule assms(5)) (use ns in linarith)
  have "1 < m \<Longrightarrow> clock (m - 1) - clock 0 < 10000000" using m(4) by auto
  then show ?thesis using m(1,2) ns c n by (intro exI [of _ m]) (simp add: calibrate_def Let_def ratio_def)
qed

theorem calibrate_measures_witness:
  "calibrate (\<lambda>x. x) (\<lambda>k. 5000000 * int k) 100 60000100 = Some \<lparr>cycles_per_ns = 4, ns_per_cycle = 1 / 4\<rparr>"
proof -
  have s: "spin (\<lambda>k. 5000000 * int k) 0 1 = Some 3" by (simp add: spin.simps)
  have "mono (\<lambda>k. 5000000 * int k)" by (simp add: mono_def)
  from calibrate_measures [OF this, of 2 60000100 100 "\<lambda>x. x"] s show ?thesis by auto
qed

text \<open>
  The stopwatch adds up its intervals. After any number of start and stop pairs the elapsed cycles
  are the sum of the lengths, exactly, as long as that sum fits in 64 bits, even though the counter
  itself may wrap around between or within the intervals.
\<close>

theorem stopwatch_sums:
  assumes "list_all (\<lambda>(a, b). a \<le> b) is" "sum_list (map (\<lambda>(a, b). b - a) is) < 2 ^ 64"
  shows "unat (elapsed_cycles (fold (\<lambda>(a, b) s. sw_stop (of_nat b) (sw_begin (of_nat a) s)) is new_stopwatch)) =
    sum_list (map (\<lambda>(a, b). b - a) is)"
proof -
  have "(\<lambda>(a, b) s. sw_stop (of_nat b) (sw_begin (of_nat a) s)) = time_interval"
    by (auto simp: fun_eq_iff time_interval_def)
  then show ?thesis using elapsed_fold [OF assms(1), of new_stopwatch] assms(2)
    by (simp add: elapsed_cycles_def new_stopwatch_def unat_of_nat)
qed

theorem stopwatch_sums_witness:
  "unat (elapsed_cycles (fold (\<lambda>(a, b) s. sw_stop (of_nat b) (sw_begin (of_nat a) s)) [(5, 25), (2 ^ 64 - 3, 2 ^ 64 + 4)] new_stopwatch)) = 27"
  using stopwatch_sums [of "[(5, 25), (2 ^ 64 - 3, 2 ^ 64 + 4)]"] by simp

text \<open>
  Conversion between cycles and nanoseconds is accurate up to the unit the truncation cuts off and the
  relative error of two roundings, and it never reverses the order of two durations.
\<close>

lemma cycles_to_ns_accurate:
  assumes "\<And>x. 0 \<le> x \<Longrightarrow> (1 - u) * x \<le> rnd x \<and> rnd x \<le> (1 + u) * x" "0 \<le> u" "u < 1" "0 \<le> ns_per_cycle t"
    "cycles_to_ns rnd t c = Some r"
  shows "real (unat r) \<le> (1 + u)\<^sup>2 * (real (unat c) * ns_per_cycle t)"
    "(1 - u)\<^sup>2 * (real (unat c) * ns_per_cycle t) - 1 < real (unat r)"
proof -
  let ?c = "real (unat c)" and ?n = "ns_per_cycle t"
  have 1: "(1 - u) * ?c \<le> rnd ?c" "rnd ?c \<le> (1 + u) * ?c" using assms(1) [OF of_nat_0_le_iff, of "unat c"] by blast+
  have c0: "0 \<le> rnd ?c" using 1(1) assms(3) by (smt (verit) of_nat_0_le_iff mult_nonneg_nonneg)
  then have p: "0 \<le> rnd ?c * ?n" using assms(4) by simp
  have 2: "(1 - u) * (rnd ?c * ?n) \<le> rnd (rnd ?c * ?n)" "rnd (rnd ?c * ?n) \<le> (1 + u) * (rnd ?c * ?n)"
    using assms(1) [OF p] by simp_all
  have 0: "0 \<le> rnd (rnd ?c * ?n)" using 2(1) assms(3) p by (smt (verit) mult_nonneg_nonneg)
  have "(1 + u) * (rnd ?c * ?n) \<le> (1 + u) * ((1 + u) * ?c * ?n)"
    using 1(2) assms(2,4) by (intro mult_left_mono mult_right_mono) simp_all
  moreover have "(1 - u) * ((1 - u) * ?c * ?n) \<le> (1 - u) * (rnd ?c * ?n)"
    using 1(1) assms(3,4) by (intro mult_left_mono mult_right_mono) simp_all
  moreover note truncate_u64_some [OF assms(5) [unfolded cycles_to_ns_def] 0]
  ultimately show "real (unat r) \<le> (1 + u)\<^sup>2 * (?c * ?n)" "(1 - u)\<^sup>2 * (?c * ?n) - 1 < real (unat r)"
    using 2 by (simp_all add: power2_eq_square mult.assoc)
qed

lemma cycles_to_ns_mono:
  assumes "mono rnd" "0 \<le> ns_per_cycle t" "c \<le> d" "cycles_to_ns rnd t c = Some r" "cycles_to_ns rnd t d = Some s"
  shows "r \<le> s"
proof -
  have "real (unat c) \<le> real (unat d)" using assms(3) by (simp only: of_nat_le_iff word_le_nat_alt)
  then have "rnd (rnd (real (unat c)) * ns_per_cycle t) \<le> rnd (rnd (real (unat d)) * ns_per_cycle t)"
    using assms(1,2) by (intro monoD [OF assms(1)] mult_right_mono monoD [OF assms(1)])
  then show ?thesis using assms(4,5) truncate_u64_mono unfolding cycles_to_ns_def by blast
qed

end
