(* ===== verification/Main_Program.thy ===== *)
theory Main_Program
  imports Simulation Timing Histogram
begin

text \<open>
  The program of \<^verbatim>\<open>src/main.cpp\<close>: its arguments, the run of the simulation with what it measures,
  and the figures it reports. What is printed before the run and the layout of the text are left out.
\<close>

section \<open>Arguments\<close>

record main_config =
  cf_num_symbols :: nat
  cf_num_agents :: nat
  cf_num_ticks :: nat
  cf_verbose :: bool

definition default_main_config :: main_config where
  "default_main_config = \<lparr>cf_num_symbols = 10, cf_num_agents = 100, cf_num_ticks = 100000, cf_verbose = False\<rparr>"

text \<open>
  \<^verbatim>\<open>std::stoul\<close>, base ten: skip white space, take an optional sign and the longest run of digits. No
  digit at all and a value beyond 64 bits raise an exception; a minus sign negates modulo the word;
  what follows the digits is ignored.
\<close>

datatype arg_stop = HelpExit | InvalidArgument | OutOfRange

definition white :: "char \<Rightarrow> bool" where
  "white c \<longleftrightarrow> of_char c \<in> {9, 10, 11, 12, 13, 32 :: nat}"

definition digit :: "char \<Rightarrow> bool" where
  "digit c \<longleftrightarrow> 48 \<le> (of_char c :: nat) \<and> (of_char c :: nat) \<le> 57"

fun number :: "nat \<Rightarrow> string \<Rightarrow> nat" where
  "number n [] = n"
| "number n (c # cs) = (if digit c then number (10 * n + (of_char c - 48)) cs else n)"

fun sign :: "string \<Rightarrow> bool \<times> string" where
  "sign [] = (False, [])"
| "sign (c # cs) = (if c = CHR ''-'' then (True, cs) else if c = CHR ''+'' then (False, cs) else (False, c # cs))"

definition stoul :: "string \<Rightarrow> arg_stop + nat" where
  "stoul s =
     (case sign (dropWhile white s) of (neg, ds) \<Rightarrow>
       if takeWhile digit ds = [] then Inl InvalidArgument
       else if 2 ^ 64 \<le> number 0 ds then Inl OutOfRange
       else Inr (if neg then (2 ^ 64 - number 0 ds) mod 2 ^ 64 else number 0 ds))"

text \<open>
  The loop over the arguments. An option that needs a value and stands last is ignored, as every
  unknown argument is; \<^const>\<open>Inl\<close> is the exit of \<^verbatim>\<open>--help\<close> or the uncaught exception.
\<close>

fun parse_loop :: "string list \<Rightarrow> main_config \<Rightarrow> arg_stop + main_config" where
  "parse_loop [] c = Inr c"
| "parse_loop (arg # rest) c =
     (if arg = ''--help'' \<or> arg = ''-h'' then Inl HelpExit
      else if arg = ''--symbols'' \<and> rest \<noteq> [] then
        (case stoul (hd rest) of Inl e \<Rightarrow> Inl e | Inr v \<Rightarrow> parse_loop (tl rest) (c\<lparr>cf_num_symbols := v\<rparr>))
      else if arg = ''--agents'' \<and> rest \<noteq> [] then
        (case stoul (hd rest) of Inl e \<Rightarrow> Inl e | Inr v \<Rightarrow> parse_loop (tl rest) (c\<lparr>cf_num_agents := v\<rparr>))
      else if arg = ''--ticks'' \<and> rest \<noteq> [] then
        (case stoul (hd rest) of Inl e \<Rightarrow> Inl e | Inr v \<Rightarrow> parse_loop (tl rest) (c\<lparr>cf_num_ticks := v\<rparr>))
      else if arg = ''--verbose'' then parse_loop rest (c\<lparr>cf_verbose := True\<rparr>)
      else parse_loop rest c)"

definition parse_args :: "string list \<Rightarrow> arg_stop + main_config" where
  "parse_args argv = parse_loop (tl argv) default_main_config"

text \<open>What \<^verbatim>\<open>--help\<close> prints, line by line; \<open>prog\<close> is the name the program was called by.\<close>

definition print_usage :: "string \<Rightarrow> string list" where
  "print_usage prog =
     [''Usage: '' @ prog @ '' [options]'',
      ''Options:'',
      ''  --symbols N      Number of symbols (default: 10)'',
      ''  --agents N       Number of agents per symbol (default: 100)'',
      ''  --ticks N        Number of simulation ticks (default: 100000)'',
      ''  --verbose        Print progress'',
      ''  --help           Show this help'']"

section \<open>The measured run\<close>

text \<open>
  The trade callback of \<^verbatim>\<open>main\<close> counts its calls and adds up their quantities. Its calls are the trade
  events the books have sent.
\<close>

definition trade_calls :: "engine \<Rightarrow> trade list" where
  "trade_calls e =
     concat (map (\<lambda>(sy, a). case en_heap e a of Some b \<Rightarrow> trades_of (b_out b) | None \<Rightarrow> []) (en_books e))"

definition trade_count :: "engine \<Rightarrow> 64 word" where
  "trade_count e = of_nat (length (trade_calls e))"

definition total_volume :: "engine \<Rightarrow> 64 word" where
  "total_volume e = sum_list (map (\<lambda>t. ucast (t_quantity t)) (trade_calls e))"

text \<open>One tick between two readings of the time-stamp counter, and its latency in nanoseconds.\<close>

type_synonym 'g main_state = "('g agent list \<times> engine) \<times> latency_histogram"

definition main_tick ::
  "(real \<Rightarrow> real) \<Rightarrow> 'g draws \<Rightarrow> order_result \<Rightarrow> timing \<Rightarrow> (nat \<Rightarrow> 64 word) \<Rightarrow> nat \<Rightarrow> 'g main_state \<Rightarrow> 'g main_state option" where
  "main_tick rnd d junk tm tsc k s =
     Option.bind (sim_tick rnd d junk (fst s)) (\<lambda>s1.
       map_option (\<lambda>ns. (s1, hist_record ns (snd s))) (cycles_to_ns rnd tm (tsc (2 * k + 1) - tsc (2 * k))))"

primrec main_loop ::
  "(real \<Rightarrow> real) \<Rightarrow> 'g draws \<Rightarrow> order_result \<Rightarrow> timing \<Rightarrow> (nat \<Rightarrow> 64 word) \<Rightarrow> nat \<Rightarrow> nat \<Rightarrow> 'g main_state \<Rightarrow> 'g main_state option" where
  "main_loop rnd d junk tm tsc k 0 s = Some s"
| "main_loop rnd d junk tm tsc k (Suc n) s =
     Option.bind (main_tick rnd d junk tm tsc k s) (main_loop rnd d junk tm tsc (Suc k) n)"

text \<open>The progress line of a tick: the ticks done, and their share in per cent.\<close>

definition progress_line :: "(real \<Rightarrow> real) \<Rightarrow> main_config \<Rightarrow> nat \<Rightarrow> (nat \<times> real) option" where
  "progress_line rnd c k =
     (if cf_verbose c \<and> (k + 1) mod 10000 = 0
      then Some (k + 1, rnd (rnd (100 * rnd (real (k + 1))) / rnd (real (cf_num_ticks c)))) else None)"

text \<open>
  What is printed. The duration is in whole milliseconds, truncated; a rate over a duration of zero is an
  infinity or not a number, \<^const>\<open>None\<close>.
\<close>

record main_report =
  mr_progress :: "(nat \<times> real) list"
  mr_duration_ms :: int
  mr_ticks_per_sec :: "real option"
  mr_trades :: "64 word"
  mr_volume :: "64 word"
  mr_orders :: "64 word"
  mr_orders_per_sec :: "real option"
  mr_min :: "64 word"
  mr_p50 :: "64 word option"
  mr_p90 :: "64 word option"
  mr_p99 :: "64 word option"
  mr_p999 :: "64 word option"
  mr_max :: "64 word"
  mr_mean :: real

definition duration_ms :: "int \<Rightarrow> int \<Rightarrow> int" where
  "duration_ms t_start t_end = trunc_div (t_end - t_start) 1000000"

definition per_sec :: "(real \<Rightarrow> real) \<Rightarrow> real \<Rightarrow> int \<Rightarrow> real option" where
  "per_sec rnd n ms = ratio rnd (rnd (1000 * rnd n)) (rnd (of_int ms))"

definition report_of :: "(real \<Rightarrow> real) \<Rightarrow> main_config \<Rightarrow> int \<Rightarrow> int \<Rightarrow> 'g main_state \<Rightarrow> main_report" where
  "report_of rnd c t_start t_end s =
     (let e = snd (fst s); h = snd s; ms = duration_ms t_start t_end; orders = st_orders_received (en_stats e) in
      \<lparr>mr_progress = List.map_filter (progress_line rnd c) [0..<cf_num_ticks c],
       mr_duration_ms = ms, mr_ticks_per_sec = per_sec rnd (real (cf_num_ticks c)) ms,
       mr_trades = trade_count e, mr_volume = total_volume e,
       mr_orders = orders, mr_orders_per_sec = per_sec rnd (real (unat orders)) ms,
       mr_min = hist_min h, mr_p50 = p50 rnd h, mr_p90 = p90 rnd h, mr_p99 = p99 rnd h, mr_p999 = p999 rnd h,
       mr_max = h_max h, mr_mean = hist_mean rnd h\<rparr>)"

text \<open>
  \<^verbatim>\<open>main\<close> from the parsed arguments on: the books, the agents, the callback, the loop and the report.
  \<open>chrono\<close>, \<open>cal1\<close> and \<open>cal2\<close> are what the calibration reads, \<open>tsc\<close> what the ticks read, \<open>mem\<close> the
  memory of the queue; \<open>cb\<close> names the trade callback.
\<close>

definition run_main ::
  "(real \<Rightarrow> real) \<Rightarrow> 'g draws \<Rightarrow> (32 word \<Rightarrow> 'g) \<Rightarrow> order_result \<Rightarrow> (nat \<Rightarrow> timestamp) \<Rightarrow> inbound_message \<Rightarrow> callback \<Rightarrow>
   (nat \<Rightarrow> int) \<Rightarrow> 64 word \<Rightarrow> 64 word \<Rightarrow> (nat \<Rightarrow> 64 word) \<Rightarrow> main_config \<Rightarrow> 'g main_state option" where
  "run_main rnd d seeded junk clock mem cb chrono cal1 cal2 tsc c =
     Option.bind (calibrate rnd chrono cal1 cal2) (\<lambda>tm.
       main_loop rnd d junk tm tsc 0 (cf_num_ticks c)
         ((sim_agents rnd seeded (cf_num_symbols c) (cf_num_agents c), sim_engine clock mem cb (cf_num_symbols c)), hist_reset))"

text \<open>
  The whole of \<^verbatim>\<open>main\<close>; \<open>t_start\<close> and \<open>t_end\<close> are the readings of the wall clock before and after the
  loop. \<^const>\<open>None\<close> is a run that does not return.
\<close>

datatype main_end = Usage "string list" | Uncaught arg_stop | Finished main_report

definition main_program ::
  "(real \<Rightarrow> real) \<Rightarrow> 'g draws \<Rightarrow> (32 word \<Rightarrow> 'g) \<Rightarrow> order_result \<Rightarrow> (nat \<Rightarrow> timestamp) \<Rightarrow> inbound_message \<Rightarrow> callback \<Rightarrow>
   (nat \<Rightarrow> int) \<Rightarrow> 64 word \<Rightarrow> 64 word \<Rightarrow> (nat \<Rightarrow> 64 word) \<Rightarrow> int \<Rightarrow> int \<Rightarrow> string list \<Rightarrow> main_end option" where
  "main_program rnd d seeded junk clock mem cb chrono cal1 cal2 tsc t_start t_end argv =
     (case parse_args argv of
        Inl HelpExit \<Rightarrow> Some (Usage (print_usage (hd argv)))
      | Inl e \<Rightarrow> Some (Uncaught e)
      | Inr c \<Rightarrow> map_option (Finished \<circ> report_of rnd c t_start t_end)
                  (run_main rnd d seeded junk clock mem cb chrono cal1 cal2 tsc c))"

end
