(* ===== verification/Trade_Counting.thy ===== *)
theory Trade_Counting
  imports Main_Program Output_Properties
begin

text \<open>
  The invariant behind the figures \<^verbatim>\<open>main\<close> prints: the volume its callback has added up is the volume
  the engine has counted, and the engine has counted at most one trade for every call. It is a second
  \<open>J\<close> of \<open>exchange_service\<close>, so all the agents keep it.
\<close>

section \<open>One book\<close>

definition volume :: "trade list \<Rightarrow> 64 word" where
  "volume ts = sum_list (map (\<lambda>t. ucast (t_quantity t)) ts)"

lemma volume_append [simp]: "volume (xs @ ys) = volume xs + volume ys" "volume [] = 0"
  by (simp_all add: volume_def)

definition volume_of_views :: "trade_view list \<Rightarrow> 64 word" where
  "volume_of_views vs = sum_list (map (\<lambda>(p, q, buy, sell, aggressor). ucast q) vs)"

lemma volume_views: "volume ts = volume_of_views (map view ts)"
  by (simp add: volume_def volume_of_views_def view_def comp_def)

lemma volume_of_fills: "volume_of_views (map (fill_view x) fs) = of_nat (amount fs)"
  by (induction fs) (auto simp: volume_of_views_def fill_view_def amount_def split: prod.split)

text \<open>A book with the callback of \<^verbatim>\<open>main\<close> that holds nothing back.\<close>

definition reporting :: "callback \<Rightarrow> book \<Rightarrow> bool" where
  "reporting cb b \<longleftrightarrow> b_on_trade b = Some cb \<and> b_pending_trades b = []"

lemma reporting_log: "reporting cb b \<Longrightarrow> trade_log b = trades_of (b_out b)"
  by (simp add: reporting_def trade_log_def)

lemma add_reporting:
  assumes r: "reachable default_config b" "valid_order b x" "add_order x b = Some (b', z)" and k: "\<not> is_fok x" and b: "reporting cb b"
  shows "reporting cb b'"
proof (cases "admitted x b")
  case False
  have "b' = b \<or> b' = emit_execution_report x 0 (Some 0) b"
    using add_order_not_admitted [OF False] r(3) False k
    by (auto simp: add_order_def admitted_def Let_def market_price_def split: if_splits)
  then show ?thesis using b execution_reports [of b x 0 "Some 0"] by (auto simp: reporting_def reports_only_def)
next
  case True
  have v: "order_wf x" "stp_defined b (market_price x)" using r(2) by (auto simp: valid_order_def)
  have f: "o_filled_qty (market_price x) \<le> o_quantity (market_price x)" using v(1) by (simp add: order_wf_def)
  from match_order_spec [OF reachable_inv(1) [OF r(1)] f v(2)] obtain b1 x1 fs where
    m: "match_order (market_price x) b = Some (b1, x1)" "matched b (market_price x) fs b1 x1" by blast
  have fa: "finish_add x1 b1 = (b', z)" using add_order_admitted [OF True] m(1) r(3) by simp
  have cfg: "c_batch_callbacks (b_config b1)" "b_on_trade b1 = Some cb"
    using m(2) b reachable_inv(2) [OF r(1)] by (simp_all add: matched_def same_static_def reporting_def default_config_def)
  have "r_success z" by (rule admitted_result [OF r True]) (use k in simp)
  then have "b_pending_trades b' = []" using finish_add_flushes [OF cfg, of x1] fa by simp
  moreover have "same_static b b'" using add_order_spec [OF reachable_inv(1) [OF r(1)] True v] r(3) by auto
  ultimately show ?thesis using b by (simp add: reporting_def same_static_def)
qed

lemma add_counts:
  assumes r: "reachable default_config b" "valid_order b x" "add_order x b = Some (b', z)" and k: "\<not> is_fok x" and b: "reporting cb b"
  shows "volume (trades_of (b_out b')) = volume (trades_of (b_out b)) + (if r_success z then ucast (r_filled_qty z) else 0)"
    and "length (trades_of (b_out b)) + (if r_success z \<and> 0 < r_filled_qty z then 1 else 0) \<le> length (trades_of (b_out b'))"
proof -
  note b' = add_reporting [OF assms]
  have "volume (trade_log b') = volume (trade_log b) + (if r_success z then ucast (r_filled_qty z) else 0) \<and>
    length (trade_log b) + (if r_success z \<and> 0 < r_filled_qty z then 1 else 0) \<le> length (trade_log b')"
  proof (cases "admitted x b")
    case False
    then show ?thesis using add_order_not_admitted [OF False] r(3) by auto
  next
    case True
    obtain fs q where sw: "sweep (stp_hit b x) (crosses (market_price x)) (o_quantity x) (entries (opposite (o_side x)) b) =
         (fs, entries (opposite (o_side x)) b', q)"
      and tl: "map view (trade_log b') = map view (trade_log b) @ (if b_on_trade b = None then [] else map (fill_view x) fs)"
      and z: "r_success z = (is_ioc x \<or> \<not> is_fok x \<or> filled_by fs = o_quantity x)" "r_filled_qty z = (if r_success z then filled_by fs else 0)"
      by (rule admitted_result [OF r True]) (rule that)
    have tl: "map view (trade_log b') = map view (trade_log b) @ map (fill_view x) fs" using tl b by (simp add: reporting_def)
    have f: "unat (filled_by fs) = amount fs" by (rule filled_amount [OF sw])
    then have "ucast (filled_by fs) = (of_nat (amount fs) :: 64 word)" by (simp add: f [symmetric])
    moreover have "fs = [] \<Longrightarrow> filled_by fs = 0" by (simp add: filled_by_def)
    moreover have "length (trade_log b') = length (trade_log b) + length fs" using arg_cong [OF tl, of length] by simp
    ultimately show ?thesis
      using z k volume_of_fills [of x fs] by (cases fs) (auto simp: volume_views tl volume_of_views_def)
  qed
  then show "volume (trades_of (b_out b')) = volume (trades_of (b_out b)) + (if r_success z then ucast (r_filled_qty z) else 0)"
    "length (trades_of (b_out b)) + (if r_success z \<and> 0 < r_filled_qty z then 1 else 0) \<le> length (trades_of (b_out b'))"
    by (simp_all add: reporting_log [OF b] reporting_log [OF b'])
qed

lemma cancel_reporting:
  assumes "reachable default_config b" "reporting cb b"
  shows "reporting cb (fst (cancel_order i b)) \<and> trades_of (b_out (fst (cancel_order i b))) = trades_of (b_out b)"
proof -
  have "reporting cb (fst (cancel_order i b))"
  proof (cases "map_of (b_orders b) i")
    case (Some x)
    have "b_pending_trades (maybe_emit_bbo c) = b_pending_trades c" for c
      using bbo_reports [of c] by (auto simp: reports_only_def)
    moreover have "b_pending_trades (remove_order_from_level i s p b) = b_pending_trades b" for s p
      by (simp add: remove_order_from_level_def Let_def split: option.split)
    moreover have "b_pending_trades (update_best_bid c) = b_pending_trades c" "b_pending_trades (update_best_ask c) = b_pending_trades c" for c
      by (simp_all add: update_best_bid_def update_best_ask_def)
    ultimately have "b_pending_trades (fst (cancel_order i b)) = b_pending_trades b"
      by (simp add: cancel_order_def cancel_order_with_def Some Let_def)
    then show ?thesis
      using cancel_spec(4) [where stale = o_side, OF reachable_inv(1) [OF assms(1)] Some refl, folded cancel_order_def] assms(2)
      by (simp add: reporting_def same_static_def)
  qed (use assms(2) in \<open>simp add: cancel_absent\<close>)
  then show ?thesis using cancel_log [OF assms(1), of i] reporting_log assms(2) by metis
qed

section \<open>The engine\<close>

text \<open>A book is one part of the calls, in which storing a new state of it is seen.\<close>

lemma split_calls:
  assumes e: "engine_inv e" and b: "get_book s e = Some a" "en_heap e a = Some b"
  obtains A C where "trade_calls e = A @ trades_of (b_out b) @ C"
    "\<And>e' b'. en_books e' = en_books e \<Longrightarrow> en_heap e' = (en_heap e)(a \<mapsto> b') \<Longrightarrow> trade_calls e' = A @ trades_of (b_out b') @ C"
proof -
  let ?f = "\<lambda>h. concat \<circ> map (\<lambda>(sy, a). case h a of Some b \<Rightarrow> trades_of (b_out b) | None \<Rightarrow> [])"
  have m: "map_of (en_books e) t = get_book t e" for t using engine_invD(2) [OF e] by (simp add: get_book_def)
  have "(s, a) \<in> set (en_books e)" using m [of s] b(1) by (simp add: map_of_SomeD)
  then obtain xs ys where sp: "en_books e = xs @ (s, a) # ys" by (meson split_list)
  have d: "distinct (map fst (en_books e))" using engine_invD(1) [OF e] om_distinct by blast
  have other: "a' \<noteq> a" if "(t, a') \<in> set xs \<union> set ys" for t a'
  proof
    assume "a' = a"
    moreover have "get_book t e = Some a'" using that map_of_is_SomeI [OF d, of t a'] m [of t] sp by auto
    ultimately have "t = s" using ptr_inj [OF e _ b(1)] by blast
    then show False using that d sp by force
  qed
  have same: "?f ((en_heap e)(a \<mapsto> b')) zs = ?f (en_heap e) zs" if "set zs \<subseteq> set xs \<union> set ys" for zs b'
  proof -
    have z: "(t, a') \<in> set zs \<Longrightarrow> a' \<noteq> a" for t a' using other that by blast
    have "map (\<lambda>(sy, a'). case ((en_heap e)(a \<mapsto> b')) a' of Some b \<Rightarrow> trades_of (b_out b) | None \<Rightarrow> []) zs =
        map (\<lambda>(sy, a'). case en_heap e a' of Some b \<Rightarrow> trades_of (b_out b) | None \<Rightarrow> []) zs"
      by (rule map_cong [OF refl]) (auto dest: z)
    then show ?thesis by (simp only: comp_def)
  qed
  show thesis
    by (rule that [of "?f (en_heap e) xs" "?f (en_heap e) ys"])
      (use same [of xs] same [of ys] b(2) in \<open>simp_all add: trade_calls_def sp\<close>)
qed

lemma same_calls: "en_books e' = en_books e \<Longrightarrow> en_heap e' = en_heap e \<Longrightarrow> trade_calls e' = trade_calls e"
  by (simp add: trade_calls_def)

definition counting :: "callback \<Rightarrow> engine \<Rightarrow> bool" where
  "counting cb e \<longleftrightarrow> sim_inv e \<and> (\<forall>s b. served e s = Some b \<longrightarrow> reporting cb b) \<and>
     st_total_volume (en_stats e) = volume (trade_calls e) \<and>
     (\<exists>k. k \<le> length (trade_calls e) \<and> st_trades_executed (en_stats e) = of_nat k)"

lemma counting_submit:
  assumes e: "counting cb e" and x: "safe_order x"
  shows "\<exists>e' r. submit_order junk x e = Some (e', r) \<and> counting cb e'"
proof -
  have inv: "engine_inv e" "sim_inv e" and cfg: "book_config_of e = default_config" using e by (auto simp: counting_def sim_inv_def)
  from submit_safe [OF inv(2) x, of junk] obtain e' r where s: "submit_order junk x e = Some (e', r)" "sim_inv e'" by blast
  obtain k where k: "k \<le> length (trade_calls e)" "st_trades_executed (en_stats e) = of_nat k" using e by (auto simp: counting_def)
  show ?thesis
  proof (cases "served e (o_symbol x)")
    case None
    have e': "e' = e\<lparr>en_stats := (en_stats e)\<lparr>st_orders_received := st_orders_received (en_stats e) + 1\<rparr>\<rparr>"
      using unknown_results(1) [OF inv(1) None, of junk] s(1) by simp
    have "served e' = served e" by (rule ext) (simp add: e' served_def get_book_def split: option.split)
    then have "counting cb e'" using e s(2) by (simp add: counting_def) (simp add: e' same_calls [of e' e, unfolded e'])
    then show ?thesis using s(1) by blast
  next
    case (Some b)
    obtain a where a: "get_book (o_symbol x) e = Some a" "en_heap e a = Some b" using served_some(1) [OF inv(1) Some] by auto
    have b: "reachable default_config b" "reporting cb b" using served_some(2) [OF inv(1) Some] cfg e Some by (auto simp: counting_def)
    have v: "valid_order b x" using valid_order_off [OF b(1) default_config_off] x by (auto simp: safe_order_def order_wf_def)
    from submit_known [OF inv(1) Some v, of junk] s(1) obtain b' where
      ad: "add_order x b = Some (b', r)" and sv: "served e' = (served e)(o_symbol x \<mapsto> b')"
      and st: "en_stats e' = count_match r ((en_stats e)\<lparr>st_orders_received := st_orders_received (en_stats e) + 1\<rparr>)" by auto
    have fr: "en_books e' = en_books e" "en_heap e' = (en_heap e)(a \<mapsto> b')"
      using s(1) a ad by (auto simp: submit_order_def Let_def get_book_def)
    note nk = x [unfolded safe_order_def]
    from split_calls [OF inv(1) a] obtain A C where
      calls: "trade_calls e = A @ trades_of (b_out b) @ C" "trade_calls e' = A @ trades_of (b_out b') @ C" using fr by metis
    note rep = add_reporting [OF b(1) v ad _ b(2)] and cnt = add_counts [OF b(1) v ad _ b(2)]
    have "st_total_volume (en_stats e') = volume (trade_calls e')"
      using cnt(1) nk e by (auto simp: counting_def calls st count_match_def word_gt_0)
    moreover have "\<exists>k. k \<le> length (trade_calls e') \<and> st_trades_executed (en_stats e') = of_nat k"
      using cnt(2) nk k by (intro exI [of _ "k + (if r_success r \<and> 0 < r_filled_qty r then 1 else 0)"]) (auto simp: calls st count_match_def)
    moreover have "reporting cb c" if "served e' sy = Some c" for sy c
      using that rep nk e by (auto simp: sv counting_def split: if_splits)
    ultimately show ?thesis using s by (auto simp: counting_def)
  qed
qed

lemma counting_cancel:
  assumes e: "counting cb e"
  shows "\<exists>e' r. engine_cancel junk sy i e = Some (e', r) \<and> counting cb e'"
proof -
  have inv: "engine_inv e" "sim_inv e" and cfg: "book_config_of e = default_config" using e by (auto simp: counting_def sim_inv_def)
  from cancel_safe [OF inv(2), of junk sy i] obtain e' r where s: "engine_cancel junk sy i e = Some (e', r)" "sim_inv e'" by blast
  show ?thesis
  proof (cases "served e sy")
    case None
    then have "e' = e" using unknown_results(2) [OF inv(1) None, of junk i] s(1) by simp
    then show ?thesis using s(1) e by blast
  next
    case (Some b)
    obtain a where a: "get_book sy e = Some a" "en_heap e a = Some b" using served_some(1) [OF inv(1) Some] by auto
    have b: "reachable default_config b" "reporting cb b" using served_some(2) [OF inv(1) Some] cfg e Some by (auto simp: counting_def)
    let ?b = "fst (cancel_order i b)"
    from engine_cancel_known [OF inv(1) Some, of junk i] s(1) have sv: "served e' = (served e)(sy \<mapsto> ?b)"
      and st: "st_total_volume (en_stats e') = st_total_volume (en_stats e)" "st_trades_executed (en_stats e') = st_trades_executed (en_stats e)"
      by auto
    have fr: "en_books e' = en_books e" "en_heap e' = (en_heap e)(a \<mapsto> ?b)"
      using s(1) a by (auto simp: engine_cancel_def Let_def split_beta)
    from split_calls [OF inv(1) a] obtain A C where
      "trade_calls e = A @ trades_of (b_out b) @ C" "trade_calls e' = A @ trades_of (b_out ?b) @ C" using fr by metis
    then have "trade_calls e' = trade_calls e" using cancel_reporting [OF b] by simp
    moreover have "reporting cb c" if "served e' t = Some c" for t c
      using that cancel_reporting [OF b] e by (auto simp: sv counting_def split: if_splits)
    ultimately show ?thesis using s e by (auto simp: counting_def st)
  qed
qed

lemma counting_idle:
  assumes e: "counting cb e"
  shows "\<exists>e'. process_queue junk e = Some (0, e') \<and> counting cb e'"
proof -
  have s: "sim_inv e" using e by (simp add: counting_def)
  from process_queue_idle [OF s, of junk] obtain e' where p: "process_queue junk e = Some (0, e')" "sim_inv e'" by blast
  have "\<exists>q. e' = e\<lparr>en_queue := q\<rparr>"
    using s p(1) sq.pop_result [of "en_queue e"] engine_invD(4)
    by (auto simp: sim_inv_def process_queue_def process_loop.simps [of junk 0 e] process_one_def split: prod.splits option.splits)
  then obtain q where q: "e' = e\<lparr>en_queue := q\<rparr>" by blast
  have "served e' = served e" by (rule ext) (simp add: q served_def get_book_def split: option.split)
  then have "counting cb e'" using e p(2) by (simp add: counting_def) (simp add: q same_calls [of e' e, unfolded q])
  then show ?thesis using p(1) by blast
qed

interpretation count: exchange_service "counting cb" for cb
  by unfold_locales (rule counting_submit counting_cancel counting_idle; assumption)+

section \<open>The engine main sets up\<close>

definition silent :: "engine \<Rightarrow> bool" where
  "silent e \<longleftrightarrow> engine_inv e \<and> en_stats e = zero_stats \<and>
     (\<forall>s b. served e s = Some b \<longrightarrow> b_out b = [] \<and> b_pending_trades b = [])"

lemma silent_calls: "silent e \<Longrightarrow> trade_calls e = []"
proof -
  assume s: "silent e"
  have "b_out b = []" if "(sy, a) \<in> set (en_books e)" "en_heap e a = Some b" for sy a b
  proof -
    have e: "engine_inv e" using s by (simp add: silent_def)
    have "get_book sy e = Some a"
      using engine_invD(2) [OF e] map_of_is_SomeI [OF om_distinct [OF engine_invD(1) [OF e]] that(1)] by (simp add: get_book_def)
    then have "served e sy = Some b" using that(2) by (simp add: served_def)
    then show ?thesis using s by (simp add: silent_def)
  qed
  then show "trade_calls e = []" by (fastforce simp: trade_calls_def split: option.split)
qed

lemma silent_add_symbol: "silent e \<Longrightarrow> silent (add_symbol clock s e)"
proof -
  assume s: "silent e"
  have "b_out (blank_book clock s e) = [] \<and> b_pending_trades (blank_book clock s e) = []"
    by (simp add: blank_book_def Let_def set_trade_callback_def set_execution_callback_def new_book_def)
  then show ?thesis using s add_symbol_ok [of e clock s] by (auto simp: silent_def) (simp add: add_symbol_shape)
qed

lemma silent_symbols: "silent e \<Longrightarrow> silent (fold (add_symbol clock) ss e)"
  by (induction ss arbitrary: e) (simp_all add: silent_add_symbol)

lemma sim_engine_counting: "counting cb (sim_engine clock mem cb ns)" "trade_calls (sim_engine clock mem cb ns) = []"
  "en_stats (sim_engine clock mem cb ns) = zero_stats"
proof -
  let ?new = "new_engine mem (default_engine_config\<lparr>ec_num_symbols := ns\<rparr>)"
  let ?e = "fold (add_symbol clock) (sim_symbols ns) ?new" and ?f = "sim_engine clock mem cb ns"
  have "en_stats ?new = zero_stats" by (simp add: new_engine_def)
  then have "silent ?new" using new_engine_inv by (simp add: silent_def)
  then have s: "silent ?e" by (rule silent_symbols)
  then have i: "engine_inv ?e" by (simp add: silent_def)
  have j: "engine_inv (?e\<lparr>en_trade_callback := Some cb\<rparr>)" "served (?e\<lparr>en_trade_callback := Some cb\<rparr>) = served ?e"
    using same_engine [OF i, of "?e\<lparr>en_trade_callback := Some cb\<rparr>"] engine_invD(4,5) [OF i] by simp_all
  have f: "served ?f t = map_option (set_trade_callback (Some cb)) (served ?e t)" for t
    unfolding sim_engine_def engine_set_trade_callback_def j(2) [symmetric] by (rule on_books_ok(2) [OF j(1)]) (simp_all add: reach_on_trade)
  have st: "en_stats ?e = zero_stats" using s by (simp only: silent_def)
  show z: "en_stats ?f = zero_stats" by (simp add: sim_engine_def engine_set_trade_callback_def on_books_def st)
  have "silent ?f" using s sim_engine_inv [of clock mem cb ns] z
    by (auto simp: silent_def f sim_inv_def set_trade_callback_def)
  then show c: "trade_calls ?f = []" by (rule silent_calls)
  have "reporting cb b" if "served ?f t = Some b" for t b
    using that s by (auto simp: f silent_def reporting_def set_trade_callback_def)
  then show "counting cb ?f" using sim_engine_inv by (simp add: counting_def c z zero_stats_def)
qed

end
