(* ===== verification/Main_Properties.thy ===== *)
theory Main_Properties
  imports Main_Program Trade_Counting Agent_Properties Histogram_Properties Timing_Properties
begin

text \<open>
  The properties of the program: its arguments are read back as they are meant, and the figures it
  reports at the end are those of the engine and of the measured ticks.
\<close>

section \<open>Arguments\<close>

fun show_nat :: "nat \<Rightarrow> string" where
  "show_nat n = (if n < 10 then [char_of (48 + n)] else show_nat (n div 10) @ [char_of (48 + n mod 10)])"

declare show_nat.simps [simp del]

lemma code_digit: "d < 10 \<Longrightarrow> of_char (char_of (48 + d)) = 48 + d" for d :: nat
  by simp

lemma digit_char: "d < 10 \<Longrightarrow> digit (char_of (48 + d))" for d :: nat
  by (simp add: digit_def code_digit)

lemma show_nat_digits: "list_all digit (show_nat n) \<and> show_nat n \<noteq> []"
  by (induction n rule: show_nat.induct) (subst (1 2) show_nat.simps, simp add: digit_char)

lemma number_snoc:
  "list_all digit xs \<Longrightarrow> digit c \<Longrightarrow> number a (xs @ [c]) = 10 * number a xs + (of_char c - 48)"
  by (induction xs arbitrary: a) auto

lemma number_show: "number 0 (show_nat n) = n"
proof (induction n rule: show_nat.induct)
  case (1 n)
  show ?case
  proof (cases "n < 10")
    case True
    then show ?thesis by (simp add: show_nat.simps [of n] digit_char code_digit)
  next
    case False
    then have "number 0 (show_nat n) = 10 * (n div 10) + n mod 10"
      using 1 show_nat_digits [of "n div 10"] code_digit [of "n mod 10"]
      by (subst show_nat.simps) (simp add: number_snoc digit_char)
    then show ?thesis by simp
  qed
qed

lemma digit_start: "digit c \<Longrightarrow> \<not> white c \<and> c \<noteq> CHR ''-'' \<and> c \<noteq> CHR ''+''"
  by (auto simp: digit_def white_def)

lemma stoul_number:
  "takeWhile digit ds \<noteq> [] \<Longrightarrow> stoul ds = (if 2 ^ 64 \<le> number 0 ds then Inl OutOfRange else Inr (number 0 ds))"
  "takeWhile digit ds \<noteq> [] \<Longrightarrow> 0 < number 0 ds \<Longrightarrow> number 0 ds < 2 ^ 64 \<Longrightarrow> stoul (CHR ''-'' # ds) = Inr (2 ^ 64 - number 0 ds)"
proof -
  assume "takeWhile digit ds \<noteq> []"
  then obtain c cs where s: "ds = c # cs" "digit c" by (cases ds) (auto split: if_splits)
  then have "sign (dropWhile white ds) = (False, ds)" using digit_start [of c] by simp
  then show "stoul ds = (if 2 ^ 64 \<le> number 0 ds then Inl OutOfRange else Inr (number 0 ds))" using s by (simp add: stoul_def)
next
  assume "takeWhile digit ds \<noteq> []" "0 < number 0 ds" "number 0 ds < 2 ^ 64"
  then show "stoul (CHR ''-'' # ds) = Inr (2 ^ 64 - number 0 ds)" by (simp add: stoul_def white_def)
qed

lemma show_nat_start: "takeWhile digit (show_nat n) \<noteq> []"
  using show_nat_digits [of n] by (cases "show_nat n") auto

lemma stoul_show: "n < 2 ^ 64 \<Longrightarrow> stoul (show_nat n) = Inr n"
  using stoul_number(1) [OF show_nat_start, of n] by (simp add: number_show)

datatype setting = Symbols nat | Agents nat | Ticks nat | Verbose

fun arguments :: "setting \<Rightarrow> string list" where
  "arguments (Symbols n) = [''--symbols'', show_nat n]"
| "arguments (Agents n) = [''--agents'', show_nat n]"
| "arguments (Ticks n) = [''--ticks'', show_nat n]"
| "arguments Verbose = [''--verbose'']"

fun chosen :: "setting \<Rightarrow> main_config \<Rightarrow> main_config" where
  "chosen (Symbols n) c = c\<lparr>cf_num_symbols := n\<rparr>"
| "chosen (Agents n) c = c\<lparr>cf_num_agents := n\<rparr>"
| "chosen (Ticks n) c = c\<lparr>cf_num_ticks := n\<rparr>"
| "chosen Verbose c = c\<lparr>cf_verbose := True\<rparr>"

primrec in_range :: "setting \<Rightarrow> bool" where
  "in_range (Symbols n) = (n < 2 ^ 64)"
| "in_range (Agents n) = (n < 2 ^ 64)"
| "in_range (Ticks n) = (n < 2 ^ 64)"
| "in_range Verbose = True"

lemma parse_settings:
  "list_all in_range ss \<Longrightarrow> parse_loop (concat (map arguments ss) @ rest) c = parse_loop rest (fold chosen ss c)"
proof (induction ss arbitrary: c)
  case (Cons s ss)
  then show ?case by (cases s) (simp_all add: stoul_show)
qed simp

section \<open>The loop\<close>

definition latency :: "(real \<Rightarrow> real) \<Rightarrow> timing \<Rightarrow> (nat \<Rightarrow> 64 word) \<Rightarrow> nat \<Rightarrow> 64 word option" where
  "latency rnd tm tsc k = cycles_to_ns rnd tm (tsc (2 * k + 1) - tsc (2 * k))"

lemma main_loop_ok:
  assumes "counting cb (snd as)" "list_all agent_ok (fst as)" "draws_ok d" "rnd 0 = 0"
    "\<And>k. k < start + n \<Longrightarrow> latency rnd tm tsc k = Some (ls k)" "h = hist_of (map ls [0..<start])"
  shows "\<exists>as'. main_loop rnd d junk tm tsc start n (as, h) = Some (as', hist_of (map ls [0..<start + n])) \<and>
    simulate rnd d junk n as = Some as' \<and> counting cb (snd as') \<and> list_all agent_ok (fst as')"
  using assms(1,2,5,6)
proof (induction n arbitrary: start as h)
  case (Suc n)
  from count.tick_agents_ok [where rnd = rnd and junk = junk, OF Suc.prems(1,2) assms(3,4)] obtain as1 e1 where
    1: "tick_agents rnd d junk (fst as) (snd as) = Some (as1, e1)" "list_all agent_ok as1" "counting cb e1" by blast
  from count.idle [OF 1(3), of junk] obtain e2 where 2: "process_queue junk e1 = Some (0, e2)" "counting cb e2" by blast
  let ?h = "hist_record (ls start) h"
  have l: "cycles_to_ns rnd tm (tsc (Suc (2 * start)) - tsc (2 * start)) = Some (ls start)"
    using Suc.prems(3) [of start] by (simp add: latency_def)
  have h: "?h = hist_of (map ls [0..<Suc start])" by (simp add: Suc.prems(4) hist_of_snoc)
  have "main_tick rnd d junk tm tsc start (as, h) = Some ((as1, e2), ?h)"
    by (simp add: main_tick_def sim_tick_def 1(1) 2(1) l)
  moreover from Suc.IH [of "(as1, e2)" "Suc start" ?h] 1(2) 2(2) Suc.prems(3) h obtain as' where
    "main_loop rnd d junk tm tsc (Suc start) n ((as1, e2), ?h) = Some (as', hist_of (map ls [0..<Suc start + n]))"
    "simulate rnd d junk n (as1, e2) = Some as'" "counting cb (snd as')" "list_all agent_ok (fst as')" by auto
  ultimately show ?case by (simp add: sim_tick_def 1(1) 2(1))
qed simp

section \<open>Properties\<close>

text \<open>
  C33. The arguments are read back as they are written: any sequence of options with 64-bit decimal
  numbers, in any order and with repetitions, sets exactly the values given, the last one of each
  kind, over the defaults.
\<close>

theorem parse_args_roundtrip:
  assumes "list_all in_range ss"
  shows "parse_args (prog # concat (map arguments ss)) = Inr (fold chosen ss default_main_config)"
  using parse_settings [OF assms, of "[]"] by (simp add: parse_args_def)

theorem parse_args_roundtrip_witness:
  "parse_args [''sim'', ''--ticks'', ''25'', ''--verbose'', ''--ticks'', ''7''] = Inr (default_main_config\<lparr>cf_num_ticks := 7, cf_verbose := True\<rparr>)"
proof -
  have "show_nat 25 = ''25''" "show_nat 7 = ''7''" by code_simp+
  then show ?thesis
    using parse_args_roundtrip [of "[Ticks 25, Verbose, Ticks 7]" "''sim''"] by (simp add: default_main_config_def)
qed

text \<open>
  What the arguments do wrong. An option whose value is missing at the end is silently ignored; a
  negative number is accepted and wraps to a huge one; a value that is not a number, even another
  option, raises an exception, and so does a number beyond 64 bits; help exits at once.
\<close>

theorem parse_args_errors:
  fixes prog :: string and more_args :: "string list"
  assumes "list_all in_range ss" "0 < n" "n < 2 ^ 64"
  defines "run \<equiv> \<lambda>rest. parse_args (prog # concat (map arguments ss) @ rest)"
  shows "run [''--ticks''] = Inr (fold chosen ss default_main_config) \<and>
    run [''--ticks'', CHR ''-'' # show_nat n] = Inr ((fold chosen ss default_main_config)\<lparr>cf_num_ticks := 2 ^ 64 - n\<rparr>) \<and>
    run (''--ticks'' # ''--verbose'' # more_args) = Inl InvalidArgument \<and>
    run (''--ticks'' # show_nat (2 ^ 64 + n) # more_args) = Inl OutOfRange \<and>
    run (''--help'' # more_args) = Inl HelpExit"
proof -
  have r: "run rest = parse_loop rest (fold chosen ss default_main_config)" for rest
    using parse_settings [OF assms(1)] by (simp add: run_def parse_args_def)
  have "stoul ''--verbose'' = Inl InvalidArgument" by (simp add: stoul_def white_def digit_def)
  moreover have "stoul (show_nat (2 ^ 64 + n)) = Inl OutOfRange"
    using stoul_number(1) [OF show_nat_start, of "2 ^ 64 + n"] by (simp add: number_show)
  moreover have "stoul (CHR ''-'' # show_nat n) = Inr (2 ^ 64 - n)"
    using stoul_number(2) [OF show_nat_start, of n] assms(2,3) by (simp add: number_show)
  ultimately show ?thesis by (simp add: r)
qed

theorem parse_args_errors_witness:
  "parse_args [''sim'', ''--verbose'', ''--ticks'', ''-1''] =
     Inr (default_main_config\<lparr>cf_verbose := True, cf_num_ticks := 2 ^ 64 - 1\<rparr>)"
proof -
  have "show_nat 1 = ''1''" by code_simp
  then show ?thesis using parse_args_errors [of "[Verbose]" 1 "''sim''"] by (simp add: default_main_config_def)
qed

text \<open>
  C10. What \<^verbatim>\<open>main\<close> reports is right. Whenever calibration succeeds and the tick latencies are defined,
  the program ends, and its report is made from the state the simulation reaches and from a histogram
  of exactly one latency per tick. The volume its trade callback has added up is the volume the
  engine has counted, whichever way the trades were batched, while the engine has counted at most
  one trade for every call of the callback.
\<close>

theorem main_report_correct:
  fixes d :: "'g draws"
  assumes "draws_ok d" "rnd 0 = 0" "parse_args argv = Inr c" "calibrate rnd chrono cal1 cal2 = Some tm"
    "\<And>k. k < cf_num_ticks c \<Longrightarrow> cycles_to_ns rnd tm (tsc (2 * k + 1) - tsc (2 * k)) = Some (ls k)"
  shows "\<exists>(as :: 'g agent list) e. main_program rnd d seeded junk clock mem cb chrono cal1 cal2 tsc t_start t_end argv =
        Some (Finished (report_of rnd c t_start t_end ((as, e), hist_of (map ls [0..<cf_num_ticks c])))) \<and>
    simulate rnd d junk (cf_num_ticks c) (sim_agents rnd seeded (cf_num_symbols c) (cf_num_agents c),
        sim_engine clock mem cb (cf_num_symbols c)) = Some (as, e) \<and>
    total_volume e = st_total_volume (en_stats e) \<and>
    (\<exists>k. k \<le> length (trade_calls e) \<and> st_trades_executed (en_stats e) = of_nat k)"
proof -
  let ?s = "(sim_agents rnd seeded (cf_num_symbols c) (cf_num_agents c), sim_engine clock mem cb (cf_num_symbols c))"
  have s: "counting cb (snd ?s)" "list_all agent_ok (fst ?s)" by (simp_all add: sim_engine_counting(1) sim_agents_ok)
  have h: "hist_reset = hist_of (map ls [0..<0])" by (simp add: hist_of_def)
  have l: "k < 0 + cf_num_ticks c \<Longrightarrow> latency rnd tm tsc k = Some (ls k)" for k using assms(5) by (simp add: latency_def)
  from main_loop_ok [where rnd = rnd and junk = junk and start = 0 and n = "cf_num_ticks c", OF s assms(1,2) l h] obtain as' where
    m: "main_loop rnd d junk tm tsc 0 (cf_num_ticks c) (?s, hist_reset) = Some (as', hist_of (map ls [0..<cf_num_ticks c]))"
      "simulate rnd d junk (cf_num_ticks c) ?s = Some as'" "counting cb (snd as')" by auto
  show ?thesis
    using m assms(3,4) by (intro exI [of _ "fst as'"] exI [of _ "snd as'"])
      (auto simp: main_program_def run_main_def counting_def volume_def total_volume_def)
qed

theorem main_report_correct_witness:
  "\<exists>(as :: nat agent list) e. main_program (\<lambda>x. x) demo_draws unat (init_result 0) (\<lambda>n. of_nat n) demo_mem 0 (\<lambda>k. 5000000 * int k) 100 60000100
        (\<lambda>k. of_nat (100 * k)) 0 2999999 [''sim'', ''--ticks'', ''3''] =
      Some (Finished (report_of (\<lambda>x. x) (default_main_config\<lparr>cf_num_ticks := 3\<rparr>) 0 2999999 ((as, e), hist_of [25, 25, 25]))) \<and>
    total_volume e = st_total_volume (en_stats e)"
proof -
  have dr: "draws_ok demo_draws" by (simp add: draws_ok_def demo_draws_def)
  have p: "parse_args [''sim'', ''--ticks'', ''3''] = Inr (default_main_config\<lparr>cf_num_ticks := 3\<rparr>)"
    by (simp add: parse_args_def stoul_def white_def digit_def)
  have s: "spin (\<lambda>k. 5000000 * int k) 0 1 = Some 3" by (simp add: spin.simps)
  have c: "calibrate (\<lambda>x. x) (\<lambda>k. 5000000 * int k) 100 60000100 = Some \<lparr>cycles_per_ns = 4, ns_per_cycle = 1 / 4\<rparr>"
    using s by (simp add: calibrate_def Let_def ratio_def)
  have l: "cycles_to_ns (\<lambda>x. x) \<lparr>cycles_per_ns = 4, ns_per_cycle = 1 / 4\<rparr> (of_nat (100 * (2 * k + 1)) - of_nat (100 * (2 * k))) = Some 25" for k
  proof -
    have "of_nat (100 * (2 * k + 1)) - of_nat (100 * (2 * k)) = (100 :: 64 word)" by (simp add: algebra_simps)
    then show ?thesis by (simp add: cycles_to_ns_def truncate_u64_def)
  qed
  have h: "map (\<lambda>_. 25 :: 64 word) [0..<cf_num_ticks (default_main_config\<lparr>cf_num_ticks := 3\<rparr>)] = [25, 25, 25]"
    by (simp add: upt_rec)
  show ?thesis
    using main_report_correct [where rnd = "\<lambda>x. x" and tsc = "\<lambda>k. of_nat (100 * k)" and ls = "\<lambda>_. 25" and seeded = unat and
        junk = "init_result 0" and clock = "\<lambda>n. of_nat n" and mem = demo_mem and cb = 0 and
        t_start = 0 and t_end = 2999999, OF dr refl p c l, unfolded h]
    by blast
qed

text \<open>
  A run of less than a millisecond, such as one without ticks, has a duration of 0 and no rate: both
  quotients divide by zero.
\<close>

theorem short_run_has_no_rate:
  assumes "t_start \<le> t_end" "t_end < t_start + 1000000" "rnd 0 = 0"
  shows "mr_duration_ms (report_of rnd c t_start t_end s) = 0 \<and>
    mr_ticks_per_sec (report_of rnd c t_start t_end s) = None \<and> mr_orders_per_sec (report_of rnd c t_start t_end s) = None"
  using assms by (simp add: report_of_def Let_def duration_ms_def per_sec_def ratio_def trunc_div_def sgn_if abs_if)

theorem short_run_has_no_rate_witness:
  "mr_ticks_per_sec (report_of (\<lambda>x. x) default_main_config 5 999999
     (([] :: nat agent list, new_engine demo_mem default_engine_config), hist_reset)) = None"
  using short_run_has_no_rate [where rnd = "\<lambda>x. x" and t_start = 5 and t_end = 999999 and c = default_main_config and
      s = "(([] :: nat agent list, new_engine demo_mem default_engine_config), hist_reset)"] by simp

end
