(* ===== verification/Feature_Test.thy ===== *)
theory Feature_Test
  imports Matching_Engine Agents
begin

text \<open>
  The program of \<^verbatim>\<open>src/feature_test.cpp\<close>: six short scenarios on one symbol of one engine, each
  submitting two orders, and the lines it prints about them. Headings and the price printed with the
  market order, a constant, are left out.
\<close>

datatype feature_line =
    LimitFilled quantity | MarketFilled quantity
  | RejectedWouldCross | RejectedNoLiquidity | ShouldHaveBeenRejected
  | IocFilled quantity | Prevented | TradeOccurred
  | FeatureStats "64 word" "64 word" "64 word"

definition feature_symbol :: symbol where
  "feature_symbol = symbol_of_cstr [84, 69, 83, 84]"

definition feature_order :: "order_id \<Rightarrow> side \<Rightarrow> price \<Rightarrow> quantity \<Rightarrow> order_type \<Rightarrow> order" where
  "feature_order i s p q ty = mk_order i feature_symbol s p q ty Day"

text \<open>Two submissions; the result of the second is looked at.\<close>

definition submit_both :: "order_result \<Rightarrow> order \<Rightarrow> order \<Rightarrow> engine \<Rightarrow> (engine \<times> order_result) option" where
  "submit_both junk x y e = Option.bind (submit_order junk x e) (\<lambda>(e1, r). submit_order junk y e1)"

type_synonym feature_state = "order_id \<times> engine"

definition feature_test1 :: "order_result \<Rightarrow> feature_state \<Rightarrow> (feature_line \<times> feature_state) option" where
  "feature_test1 junk s =
     (let (next_id, e) = s;
          buy = feature_order next_id Buy 10000 100 Limit;
          sell = feature_order (next_id + 1) Sell 10000 50 Limit
      in map_option (\<lambda>(e1, r). (LimitFilled (r_filled_qty r), next_id + 2, e1)) (submit_both junk buy sell e))"

definition feature_test2 :: "order_result \<Rightarrow> feature_state \<Rightarrow> (feature_line \<times> feature_state) option" where
  "feature_test2 junk s =
     (let (next_id, e) = s;
          limit_ask = feature_order next_id Sell 10100 100 Limit;
          market_buy = feature_order (next_id + 1) Buy 0 50 Market
      in map_option (\<lambda>(e1, r). (MarketFilled (r_filled_qty r), next_id + 2, e1)) (submit_both junk limit_ask market_buy e))"

definition feature_test3 :: "order_result \<Rightarrow> feature_state \<Rightarrow> (feature_line \<times> feature_state) option" where
  "feature_test3 junk s =
     (let (next_id, e) = s;
          limit_bid = feature_order next_id Buy 10000 100 Limit;
          postonly_sell = feature_order (next_id + 1) Sell 9900 50 PostOnly
      in map_option (\<lambda>(e1, r).
           (if \<not> r_success r \<and> r_reject_reason r = WouldCross then RejectedWouldCross else ShouldHaveBeenRejected, next_id + 2, e1))
         (submit_both junk limit_bid postonly_sell e))"

definition feature_test4 :: "order_result \<Rightarrow> feature_state \<Rightarrow> (feature_line \<times> feature_state) option" where
  "feature_test4 junk s =
     (let (next_id, e) = s;
          limit_ask2 = feature_order next_id Sell 10200 30 Limit;
          ioc_buy = feature_order (next_id + 1) Buy 10200 100 ImmediateOrCancel
      in map_option (\<lambda>(e1, r). (IocFilled (r_filled_qty r), next_id + 2, e1)) (submit_both junk limit_ask2 ioc_buy e))"

definition feature_test5 :: "order_result \<Rightarrow> feature_state \<Rightarrow> (feature_line \<times> feature_state) option" where
  "feature_test5 junk s =
     (let (next_id, e) = s;
          limit_bid2 = feature_order next_id Buy 9800 20 Limit;
          fok_sell = feature_order (next_id + 1) Sell 9800 100 FillOrKill
      in map_option (\<lambda>(e1, r). (if \<not> r_success r then RejectedNoLiquidity else ShouldHaveBeenRejected, next_id + 2, e1))
         (submit_both junk limit_bid2 fok_sell e))"

definition feature_test6 :: "order_result \<Rightarrow> feature_state \<Rightarrow> (feature_line \<times> feature_state) option" where
  "feature_test6 junk s =
     (let (next_id, e) = s;
          buy1 = feature_order next_id Buy 10000 100 Limit;
          sell1 = feature_order (next_id + 1 + 10) Sell 10000 50 Limit
      in map_option (\<lambda>(e1, r). (if r_filled_qty r = 0 then Prevented else TradeOccurred, next_id + 1 + 20, e1))
         (submit_both junk buy1 sell1 e))"

definition feature_stats :: "engine \<Rightarrow> feature_line" where
  "feature_stats e =
     (let s = en_stats e in FeatureStats (st_orders_received s) (st_trades_executed s) (st_orders_cancelled s))"

fun run_tests :: "(feature_state \<Rightarrow> (feature_line \<times> feature_state) option) list \<Rightarrow> feature_state \<Rightarrow> (feature_line list \<times> feature_state) option" where
  "run_tests [] s = Some ([], s)"
| "run_tests (t # ts) s = Option.bind (t s) (\<lambda>(l, s1). map_option (\<lambda>(ls, s2). (l # ls, s2)) (run_tests ts s1))"

definition feature_engine :: "(nat \<Rightarrow> timestamp) \<Rightarrow> inbound_message \<Rightarrow> engine" where
  "feature_engine clock mem = add_symbol clock feature_symbol (new_engine mem default_engine_config)"

definition feature_main :: "order_result \<Rightarrow> (nat \<Rightarrow> timestamp) \<Rightarrow> inbound_message \<Rightarrow> feature_line list option" where
  "feature_main junk clock mem =
     map_option (\<lambda>(ls, s). ls @ [feature_stats (snd s)])
       (run_tests [feature_test1 junk, feature_test2 junk, feature_test3 junk, feature_test4 junk, feature_test5 junk, feature_test6 junk]
          (1, feature_engine clock mem))"

end
