(* ===== verification/Feature_Properties.thy ===== *)
theory Feature_Properties
  imports Feature_Test Trade_Counting Engine_Properties
begin

text \<open>
  What the feature test prints, computed through the specification of \<^verbatim>\<open>add_order\<close> on the entries of
  its book; with it, that the fill-or-kill pre-check does not refuse an order the book can fill.
\<close>

section \<open>One submission\<close>

text \<open>The engine of the test: its book by entries, and the three counters it prints.\<close>

definition feature_view :: "engine \<Rightarrow> entry list \<Rightarrow> entry list \<Rightarrow> 64 word \<Rightarrow> 64 word \<Rightarrow> bool" where
  "feature_view e bids asks received executed \<longleftrightarrow>
     sim_inv e \<and> (\<exists>b. served e feature_symbol = Some b \<and> entries Buy b = bids \<and> entries Sell b = asks) \<and>
     st_orders_received (en_stats e) = received \<and> st_trades_executed (en_stats e) = executed \<and>
     st_orders_cancelled (en_stats e) = 0"

definition spec_book :: "order \<Rightarrow> entry list \<times> entry list \<Rightarrow> entry list \<times> entry list \<times> entry list" where
  "spec_book x e =
     (case o_side x of
        Buy \<Rightarrow> spec_add (\<lambda>_. False) (market_price x) (fst e) (snd e)
      | Sell \<Rightarrow> (case spec_add (\<lambda>_. False) (market_price x) (snd e) (fst e) of (fs, own, opp) \<Rightarrow> (fs, opp, own)))"

text \<open>Amounts as integers, which evaluate in binary.\<close>

definition amount_int :: "entry list \<Rightarrow> int" where
  "amount_int es = sum_list (map (\<lambda>e. uint (snd (snd e))) es)"

lemma amount_int_eq: "amount_int es = int (amount es)"
  by (induction es) (simp_all add: amount_int_def amount_def)

lemma uint_le_int: "uint w \<le> int n \<longleftrightarrow> unat w \<le> n"
  using unat_eq_nat_uint [of w] by (simp only: nat_le_iff)

definition plain_order :: "order \<Rightarrow> entry list \<times> entry list \<Rightarrow> bool" where
  "plain_order x e \<longleftrightarrow> o_symbol x = feature_symbol \<and> order_wf x \<and> o_quantity x \<noteq> 0 \<and> (rests x \<or> o_type x = Limit \<longrightarrow> 0 < o_price x) \<and>
     o_type x \<noteq> PostOnly \<and> list_all (\<lambda>y. entry_id y \<noteq> o_id x) (fst e @ snd e) \<and>
     (is_fok x \<longrightarrow> (let fs = filter (\<lambda>y. o_type x = Market \<or> would_cross (market_price x) (fst y)) (if o_side x = Buy then snd e else fst e) in
        uint (o_quantity x) \<le> amount_int fs \<and> amount_int fs < 2 ^ 32))"

lemma feature_submit:
  assumes v: "feature_view e bids asks n k" and x: "plain_order x (bids, asks)" and sp: "spec_book x (bids, asks) = (fs, bids', asks')"
    and full: "is_fok x \<longrightarrow> filled_by fs = o_quantity x"
  shows "\<exists>e' r. submit_order junk x e = Some (e', r) \<and> r_success r \<and> r_filled_qty r = filled_by fs \<and>
    feature_view e' bids' asks' (n + 1) (if filled_by fs = 0 then k else k + 1)"
proof -
  obtain b where s: "sim_inv e" and b: "served e feature_symbol = Some b" "entries Buy b = bids" "entries Sell b = asks"
    and st: "st_orders_received (en_stats e) = n" "st_trades_executed (en_stats e) = k" "st_orders_cancelled (en_stats e) = 0"
    using v by (auto simp: feature_view_def)
  have e: "engine_inv e" "book_config_of e = default_config" using s by (simp_all add: sim_inv_def)
  have r: "reachable default_config b" using served_some(2) [OF e(1) b(1)] e(2) by simp
  note inv = reachable_inv(1) [OF r]
  have px: "o_symbol x = feature_symbol" "order_wf x" "o_quantity x \<noteq> 0" "rests x \<or> o_type x = Limit \<longrightarrow> 0 < o_price x" "o_type x \<noteq> PostOnly"
    "list_all (\<lambda>y. entry_id y \<noteq> o_id x) (bids @ asks)" using x by (simp_all add: plain_order_def)
  have val: "valid_order b x" using valid_order_off [OF r default_config_off px(2)] px(4) by blast
  have "map_of (b_orders b) (o_id x) = None"
  proof (rule ccontr)
    assume "map_of (b_orders b) (o_id x) \<noteq> None"
    then obtain y where "map_of (b_orders b) (o_id x) = Some y" by auto
    from order_entry [OF inv this] show False using px(6) b(2,3) by (cases "o_side y") (force simp: list_all_iff)+
  qed
  moreover have "\<not> fok_available (market_price x) (levels (opposite (o_side x)) b) 0 < o_quantity x" if "is_fok x"
    using fok_admits [OF inv, of "market_price x" "opposite (o_side x)"] x that b(2,3)
    by (cases "o_side x") (auto simp: plain_order_def Let_def amount_int_eq uint_le_int)
  ultimately have adm: "admitted x b" using px by (auto simp: admitted_def)
  have wf: "order_wf x" "stp_defined b (market_price x)" using val by (simp_all add: valid_order_def)
  have stp: "stp_hit b x = (\<lambda>_. False)" using stp_off [of b x] reachable_inv(2) [OF r] by simp
  from submit_known [OF e(1) _ val, of junk] b(1) px(1) obtain b' z e' where
    1: "add_order x b = Some (b', z)" "submit_order junk x e = Some (e', z)" "engine_inv e'" "served e' = (served e)(feature_symbol \<mapsto> b')"
    "en_stats e' = count_match z ((en_stats e)\<lparr>st_orders_received := st_orders_received (en_stats e) + 1\<rparr>)" by auto
  from add_order_spec [OF inv adm wf, unfolded stp] 1(1) obtain gs where
    2: "spec_add (\<lambda>_. False) (market_price x) (entries (o_side x) b) (entries (opposite (o_side x)) b) =
       (gs, entries (o_side x) b', entries (opposite (o_side x)) b')"
      "r_success z = (is_ioc x \<or> \<not> is_fok x \<or> filled_by gs = o_quantity x)" "r_filled_qty z = (if r_success z then filled_by gs else 0)"
    by force
  then have g: "gs = fs" "entries Buy b' = bids'" "entries Sell b' = asks'"
    using sp b(2,3) by (cases "o_side x"; auto simp: spec_book_def)+
  then have z: "r_success z" "r_filled_qty z = filled_by fs" using 2(2,3) full by auto
  have "sim_inv e'" using submit_frame [OF 1(2)] 1(3) s by (simp add: sim_inv_def)
  then show ?thesis using 1(2,4,5) z g st by (auto simp: feature_view_def count_match_def word_gt_0)
qed

lemma feature_postonly:
  assumes v: "feature_view e (y # bids) asks n k"
    and x: "o_symbol x = feature_symbol" "order_wf x" "o_quantity x \<noteq> 0" "0 < o_price x" "o_type x = PostOnly" "o_side x = Sell" "o_price x \<le> fst y"
      "list_all (\<lambda>z. entry_id z \<noteq> o_id x) (y # bids @ asks)"
  shows "\<exists>e' r. submit_order junk x e = Some (e', r) \<and> \<not> r_success r \<and> r_reject_reason r = WouldCross \<and>
    feature_view e' (y # bids) asks (n + 1) k"
proof -
  obtain b where s: "sim_inv e" and b: "served e feature_symbol = Some b" "entries Buy b = y # bids" "entries Sell b = asks"
    and st: "st_orders_received (en_stats e) = n" "st_trades_executed (en_stats e) = k" "st_orders_cancelled (en_stats e) = 0"
    using v by (auto simp: feature_view_def)
  have e: "engine_inv e" "book_config_of e = default_config" using s by (simp_all add: sim_inv_def)
  have r: "reachable default_config b" using served_some(2) [OF e(1) b(1)] e(2) by simp
  note inv = reachable_inv(1) [OF r]
  have val: "valid_order b x" using valid_order_off [OF r default_config_off x(2)] x(4) by blast
  have "map_of (b_orders b) (o_id x) = None"
  proof (rule ccontr)
    assume "map_of (b_orders b) (o_id x) \<noteq> None"
    then obtain z where "map_of (b_orders b) (o_id x) = Some z" by auto
    from order_entry [OF inv this] show False using x(8) b(2,3) by (cases "o_side z") (force simp: list_all_iff)+
  qed
  moreover have lo: "levels_ok (levels Buy b)" using inv by (simp only: book_inv_side core_inv_side)
  moreover have "best_price Buy b = fst y"
    using best_price_of [OF inv, of Buy] best_first_entry [OF lo] b(2) by simp
  moreover have "fst y \<noteq> INVALID_PRICE"
    using entry_price_valid [OF lo, of y] b(2) by simp
  moreover have "c_enable_post_only_rejection (b_config b)" using reachable_inv(2) [OF r] by (simp add: default_config_def)
  ultimately have ad: "add_order x b = Some (emit_execution_report x 0 (Some 0) b, reject (o_id x) WouldCross)"
    using x by (simp add: add_order_def Let_def market_price_def post_only_would_cross_def)
  from submit_known [OF e(1) _ val, of junk] b(1) x(1) ad obtain e' where
    1: "submit_order junk x e = Some (e', reject (o_id x) WouldCross)" "engine_inv e'"
    "served e' = (served e)(feature_symbol \<mapsto> emit_execution_report x 0 (Some 0) b)"
    "en_stats e' = count_match (reject (o_id x) WouldCross) ((en_stats e)\<lparr>st_orders_received := st_orders_received (en_stats e) + 1\<rparr>)" by auto
  have "sim_inv e'" using submit_frame [OF 1(1)] 1(2) s by (simp add: sim_inv_def)
  then show ?thesis
    using 1 b st entries_same [OF same_emit_report] by (auto simp: feature_view_def count_match_def reject_def init_result_def)
qed

text \<open>A scenario of two accepted orders, with everything it depends on computed from the entries.\<close>

definition accepted :: "order \<Rightarrow> entry list \<times> entry list \<Rightarrow> bool" where
  "accepted x e \<longleftrightarrow> plain_order x e \<and> (is_fok x \<longrightarrow> filled_by (fst (spec_book x e)) = o_quantity x)"

definition scenario :: "order \<Rightarrow> order \<Rightarrow> entry list \<times> entry list \<Rightarrow> (entry list \<times> entry list \<times> quantity \<times> 64 word) option" where
  "scenario x y e =
     (let (fs, e1) = spec_book x e; (gs, b2, a2) = spec_book y e1 in
      if accepted x e \<and> accepted y e1
      then Some (b2, a2, filled_by gs, (if filled_by fs = 0 then 0 else 1) + (if filled_by gs = 0 then 0 else 1)) else None)"

lemma feature_pair:
  assumes v: "feature_view e bids asks n k" and sc: "scenario x y (bids, asks) = Some (bids', asks', q, h)"
  shows "\<exists>e' r. submit_both junk x y e = Some (e', r) \<and> r_success r \<and> r_filled_qty r = q \<and> feature_view e' bids' asks' (n + 2) (k + h)"
proof -
  obtain fs b1 a1 gs where sp: "spec_book x (bids, asks) = (fs, b1, a1)" "spec_book y (b1, a1) = (gs, bids', asks')"
    and ok: "accepted x (bids, asks)" "accepted y (b1, a1)"
    and q: "q = filled_by gs" "h = (if filled_by fs = 0 then 0 else 1) + (if filled_by gs = 0 then 0 else 1)"
    using sc by (auto simp: scenario_def split: prod.splits if_splits)
  from feature_submit [OF v _ sp(1), of junk] ok(1) sp(1) obtain e1 r1 where
    1: "submit_order junk x e = Some (e1, r1)" "feature_view e1 b1 a1 (n + 1) (if filled_by fs = 0 then k else k + 1)"
    by (auto simp: accepted_def)
  from feature_submit [OF 1(2) _ sp(2), of junk] ok(2) sp(2) obtain e2 r2 where
    2: "submit_order junk y e1 = Some (e2, r2)" "r_success r2" "r_filled_qty r2 = filled_by gs"
      "feature_view e2 bids' asks' (n + 1 + 1) (if filled_by gs = 0 then if filled_by fs = 0 then k else k + 1
         else (if filled_by fs = 0 then k else k + 1) + 1)"
    by (auto simp: accepted_def)
  have "(if filled_by gs = 0 then if filled_by fs = 0 then k else k + 1 else (if filled_by fs = 0 then k else k + 1) + 1) = k + h"
    by (simp add: q)
  with 1(1) 2 show ?thesis by (simp add: submit_both_def q add.assoc)
qed

lemma feature_start: "feature_view (feature_engine clock mem) [] [] 0 0"
proof -
  let ?new = "new_engine mem default_engine_config"
  have e: "engine_inv ?new" by (rule new_engine_inv)
  note a = add_symbol_ok [OF e, of clock feature_symbol]
  have st: "en_stats (feature_engine clock mem) = zero_stats" "en_queue (feature_engine clock mem) = en_queue ?new"
    "book_config_of (feature_engine clock mem) = default_config"
    by (simp_all add: feature_engine_def add_symbol_shape book_config_of_def) (simp_all add: new_engine_def default_engine_config_def)
  have "sim_inv (feature_engine clock mem)"
    using a(1) st new_engine_inv(3) [of mem default_engine_config] by (simp add: sim_inv_def feature_engine_def)
  then show ?thesis
    using a(2) blank_book_facts(3) [of _ clock feature_symbol ?new] st by (simp add: feature_view_def feature_engine_def zero_stats_def)
qed

section \<open>Properties\<close>

text \<open>
  C32. What the feature test prints, whatever the memory and the clock hold. Four of its six scenarios go
  as announced. The fill-or-kill order is filled, because the bids of earlier scenarios are still
  there, so the test reports that it should have been rejected; the immediate-or-cancel order takes
  an older ask as well; the self-trade scenario trades, because prevention is off by default.
  The statistics count one trade for each of the five orders that traded.
\<close>

theorem feature_test_output:
  "feature_main junk clock mem =
     Some [LimitFilled 50, MarketFilled 50, RejectedWouldCross, IocFilled 80, ShouldHaveBeenRejected, TradeOccurred, FeatureStats 12 5 0]"
proof -
  let ?o = feature_order and ?bids = "[(10000, 1, 50), (10000, 5, 100)]"
  have s1: "scenario (?o 1 Buy 10000 100 Limit) (?o 2 Sell 10000 50 Limit) ([], []) = Some ([(10000, 1, 50)], [], 50, 1)"
    and s2: "scenario (?o 3 Sell 10100 100 Limit) (?o 4 Buy 0 50 Market) ([(10000, 1, 50)], []) = Some ([(10000, 1, 50)], [(10100, 3, 50)], 50, 1)"
    and s4: "scenario (?o 7 Sell 10200 30 Limit) (?o 8 Buy 10200 100 ImmediateOrCancel) (?bids, [(10100, 3, 50)]) = Some (?bids, [], 80, 1)"
    and s5: "scenario (?o 9 Buy 9800 20 Limit) (?o 10 Sell 9800 100 FillOrKill) (?bids, []) = Some ([(10000, 5, 50), (9800, 9, 20)], [], 100, 1)"
    and s6: "scenario (?o 11 Buy 10000 100 Limit) (?o 22 Sell 10000 50 Limit) ([(10000, 5, 50), (9800, 9, 20)], []) =
      Some ([(10000, 11, 100), (9800, 9, 20)], [], 50, 1)"
    by code_simp+
  have p3: "accepted (?o 5 Buy 10000 100 Limit) ([(10000, 1, 50)], [(10100, 3, 50)])"
    "spec_book (?o 5 Buy 10000 100 Limit) ([(10000, 1, 50)], [(10100, 3, 50)]) = ([], ?bids, [(10100, 3, 50)])"
    by code_simp+
  from feature_pair [OF feature_start [of clock mem] s1, of junk] obtain e1 r1 where
    1: "submit_both junk (?o 1 Buy 10000 100 Limit) (?o 2 Sell 10000 50 Limit) (feature_engine clock mem) = Some (e1, r1)"
      "r_filled_qty r1 = 50" "feature_view e1 [(10000, 1, 50)] [] 2 1" by auto
  from feature_pair [OF 1(3) s2, of junk] obtain e2 r2 where
    2: "submit_both junk (?o 3 Sell 10100 100 Limit) (?o 4 Buy 0 50 Market) e1 = Some (e2, r2)"
      "r_filled_qty r2 = 50" "feature_view e2 [(10000, 1, 50)] [(10100, 3, 50)] 4 2" by auto
  from feature_submit [OF 2(3) _ p3(2), of junk] p3 obtain e3 r3 where
    3: "submit_order junk (?o 5 Buy 10000 100 Limit) e2 = Some (e3, r3)" "feature_view e3 ?bids [(10100, 3, 50)] 5 2"
    by (auto simp: accepted_def filled_by_def)
  have po: "order_wf (?o 6 Sell 9900 50 PostOnly)" by code_simp
  from feature_postonly [OF 3(2), of "?o 6 Sell 9900 50 PostOnly" junk] po obtain e4 r4 where
    4: "submit_order junk (?o 6 Sell 9900 50 PostOnly) e3 = Some (e4, r4)" "\<not> r_success r4" "r_reject_reason r4 = WouldCross"
      "feature_view e4 ?bids [(10100, 3, 50)] 6 2"
    by (auto simp: feature_order_def mk_order_def)
  from feature_pair [OF 4(4) s4, of junk] obtain e5 r5 where
    5: "submit_both junk (?o 7 Sell 10200 30 Limit) (?o 8 Buy 10200 100 ImmediateOrCancel) e4 = Some (e5, r5)"
      "r_filled_qty r5 = 80" "feature_view e5 ?bids [] 8 3" by auto
  from feature_pair [OF 5(3) s5, of junk] obtain e6 r6 where
    6: "submit_both junk (?o 9 Buy 9800 20 Limit) (?o 10 Sell 9800 100 FillOrKill) e5 = Some (e6, r6)"
      "r_success r6" "feature_view e6 [(10000, 5, 50), (9800, 9, 20)] [] 10 4" by auto
  from feature_pair [OF 6(3) s6, of junk] obtain e7 r7 where
    7: "submit_both junk (?o 11 Buy 10000 100 Limit) (?o 22 Sell 10000 50 Limit) e6 = Some (e7, r7)"
      "r_filled_qty r7 = 50" "feature_view e7 [(10000, 11, 100), (9800, 9, 20)] [] 12 5" by auto
  have st: "feature_stats e7 = FeatureStats 12 5 0" using 7(3) by (simp add: feature_stats_def feature_view_def)
  show ?thesis
    by (simp add: feature_main_def feature_test1_def feature_test2_def feature_test3_def feature_test4_def feature_test5_def
        feature_test6_def 1 2 3 4 5 6 7 st submit_both_def [of junk _ "?o 6 Sell 9900 50 PostOnly"])
qed

end
