(* ===== verification/Spec2Isabelle.thy ===== *)
theory Spec2Isabelle
  imports Book_Views Output_Properties Level_Properties Spsc_Concurrent Engine_Properties Histogram_Properties Journal_Properties
    Agent_Properties Replay_Properties Timing_Properties Main_Properties Feature_Properties
begin

text \<open>
  A model of the exchange simulator eXSimulator (C++): limit order books with price-time matching,
  the engine that serves one book per symbol from a single-producer single-consumer queue, the
  event journal that records and replays orders and trades, and the latency histograms.

  Orders reach a book either directly (\<open>submit_order\<close> and its siblings) or as messages that
  \<open>enqueue_order\<close> puts into the ring buffer and \<open>process_queue\<close> takes out and dispatches by symbol.
  A book matches an order against the levels of the other side and rests what is left; its
  callbacks see trades, execution reports and best prices. The journal is independent of the engine:
  a client logs what it likes and a harness replays it.

  Parts of the program and the theories that model them.

  \<^item> \<^verbatim>\<open>include/core/types.hpp\<close>, \<^verbatim>\<open>order.hpp\<close>, \<^verbatim>\<open>trade.hpp\<close>: theory \<open>Core_Types\<close>. Quantities,
    ids, sequence numbers and timestamps are words of their C++ width and wrap; a price is an
    integer whose signed 64-bit overflow (undefined in C++) is \<^const>\<open>None\<close>.
  \<^item> \<^verbatim>\<open>price_level.hpp\<close>, \<^verbatim>\<open>price_level.cpp\<close>: theory \<open>Price_Level\<close>, the doubly-linked queue with
    its nodes, pointers and hash index on an explicit heap, and the interface \<open>fifo_level\<close> that the
    book relies on, interpreted on that code; \<open>Level_Properties\<close> has what a client may expect.
  \<^item> \<^verbatim>\<open>order_book.hpp\<close>, \<^verbatim>\<open>order_book.cpp\<close>: theory \<open>Order_Book\<close> has every operation;
    \<open>Book_Invariant\<close> the abstract view (\<open>entries\<close>: the resting orders of a side in priority
    order) and the invariant \<open>book_inv\<close>; \<open>Matching\<close>, \<open>Resting\<close>, \<open>Adding\<close> and \<open>Replacing\<close> prove
    each operation against a specification on those lists; \<open>Book_Reach\<close> has the books of any history of
    public calls (\<open>built\<close>) and of histories that respect the contract (\<open>reachable\<close>); \<open>Level_Safety\<close> and
    \<open>Book_Safety\<close> have what holds for the former, where table and queues may disagree: every call
    returns, no level touches freed memory, trades have a real price and two orders; \<open>Book_Output\<close> carries any invariant of what a book sends (interface \<open>output_invariant\<close>)
    through all operations, and \<open>Output_Properties\<close> has trades, sequence numbers and batching;
    \<open>Market_Depth\<close> the snapshots and counts; \<open>Book_Properties\<close> and \<open>Book_Views\<close> the
    properties, with witnesses at the book of \<open>Demo_Book\<close>.
  \<^item> \<^verbatim>\<open>spsc_queue.hpp\<close>: theory \<open>Spsc_Queue\<close> has every operation and the interface \<open>bounded_queue\<close>
    the engine relies on, interpreted on the ring buffer; \<open>Spsc_Concurrent\<close> runs one producer and one
    consumer with their atomic accesses interleaved in every possible way.
  \<^item> \<^verbatim>\<open>matching_engine.hpp\<close>, \<^verbatim>\<open>matching_engine.cpp\<close>: theory \<open>Matching_Engine\<close>, with the books on a
    heap reached by raw pointers; \<open>Engine_Invariant\<close> describes every operation by the books it
    serves (\<open>served\<close>), without pointers; \<open>Engine_Runs\<close> has the loop over the queue, symbol by
    symbol, and the engines clients can build; \<open>Engine_Properties\<close> the properties.
  \<^item> \<^verbatim>\<open>histogram.hpp\<close>: theory \<open>Histogram\<close> has both histograms, \<open>Histogram_Properties\<close> the accuracy
    of the buckets, the multiset a histogram summarises and percentiles as order statistics.
  \<^item> \<^verbatim>\<open>event_journal.hpp\<close>, \<^verbatim>\<open>event_journal.cpp\<close>: theory \<open>Crc32\<close> has the checksum table and loop with
    the bit-wise reference, \<open>Journal_Format\<close> the bytes of the three structures, \<open>Event_Journal\<close> the
    writer, the reader with its stream flags and the replay harness; \<open>Journal_Entries\<close> reads a file as
    a list of entries (\<open>entries_in\<close>), states the interface \<open>event_source\<close>, interpreted on the reader,
    and what the writer appends; \<open>Journal_Properties\<close> has the properties.
  \<^item> \<^verbatim>\<open>agents.hpp\<close>, \<^verbatim>\<open>agents/*.cpp\<close> and the simulation of \<^verbatim>\<open>main.cpp\<close>: theory \<open>Agents\<close>;
    \<open>Simulation\<close> states what the agents rely on (interface \<open>exchange_service\<close>) and proves from it
    that the tick loop keeps every invariant of the engine; \<open>Agent_Properties\<close> has the properties.
  \<^item> \<^verbatim>\<open>timing.hpp\<close>: theory \<open>Timing\<close>, with \<open>Timing_Properties\<close>.
  \<^item> \<^verbatim>\<open>main.cpp\<close>, the program: theory \<open>Main_Program\<close> has the arguments, the measured loop and the
    report with its duration and rates; \<open>Trade_Counting\<close> is a second interpretation of \<open>exchange_service\<close>, which relates what the
    trade callback counts to the statistics of the engine; \<open>Main_Properties\<close> has the properties.
  \<^item> \<^verbatim>\<open>feature_test.cpp\<close>: theory \<open>Feature_Test\<close>; \<open>Feature_Properties\<close> computes what it prints.
  \<^item> \<^verbatim>\<open>tools/replay_kraken.cpp\<close>: theory \<open>Replay_Kraken\<close> has the command file, the two passes and the
    report; \<open>Replay_Properties\<close> compares the whole program with a replay on a bare book.

  Conventions. State is a record that operations return updated; a callback is a handle and its
  invocation an event appended to \<open>b_out\<close>; clock readings are a stream in the state. Loops whose end
  is not evident are partial functions into \<^typ>\<open>'a option\<close>, and the properties prove that they
  return. Values C++ leaves unspecified (uninitialised results, a moved-from container, padding bytes)
  are arguments. So is the value of the one read of freed memory, \<^verbatim>\<open>order.side\<close> after the erase in
  \<^verbatim>\<open>OrderBook::cancel_order\<close>, in \<open>cancel_order_with\<close> and \<open>replace_order_with\<close>, and \<open>built\<close> ranges over it;
  \<open>cancel_order\<close> and \<open>replace_order\<close>, which \<open>reachable\<close>, the engine, the simulation and the replay tool
  use, are the runs in which the freed element still holds its side. What a wrong side does is
  \<open>cancel_stale_side\<close>. Signed overflow is \<^const>\<open>None\<close>, and it ends the run where the code goes on with the value.
  The average price of a result and of an execution report (\<open>avg_fill_price\<close>, \<^verbatim>\<open>order_book.cpp:95\<close>) is a value
  nothing goes on with: \<^const>\<open>None\<close> is stored in the field and the run continues, as in a build in which
  the product wraps. No property says that it is defined; \<open>avg_fill_price_cases\<close> says when it is. Sizes (\<^verbatim>\<open>size_t\<close>) are natural numbers, except where the
  code relies on their wrap-around. Arithmetic on \<^verbatim>\<open>double\<close> is real arithmetic under a rounding
  function that is an argument; an infinity or a number that is none, the result of a division by
  zero, is \<^const>\<open>None\<close>; the most that a property assumes of it is that it keeps 0, or that it
  does not turn a number of one or more into 0. Random
  draws come from an abstract generator that respects the range asked for. There is no fuel: every loop is
  structural, has a measure (the unread bytes of a file), or is a partial function.

  The contract. The code checks little of what it is given. Properties about \<open>built\<close> books (termination of
  \<^verbatim>\<open>add_order\<close>, sequence numbers, the shape of trades) and the one about the replay tool need nothing of the
  calls. The others are about consistent books, or about \<open>reachable\<close> ones: orders come without fills, prices
  at which orders rest are positive and below the sentinel, a replace at the same price is for an unfilled
  order and a positive quantity. \<open>Book_Reach\<close> names the theorem that shows, for each clause, what
  happens without it.

  Bounds. The queue of the engine has 65536 slots and holds 65535 messages; a level's total and every
  quantity are 32-bit words, and the properties that add quantities say where the sum fits.

  Not modelled. \<^verbatim>\<open>memory_pool.hpp\<close> and \<^verbatim>\<open>memory_pool.cpp\<close> are empty. Of \<^verbatim>\<open>main.cpp\<close> what is
  printed before the run, and of both programs the layout of the printed text, are left out; so are
  the names of the agents and getters that only return a member which is a field of the record. The tests, the benchmarks and the scripts are drivers of the modelled parts.
  The memory model of C++ is not modelled either: the atomics of the ring
  buffer and of the stop flag are taken as interleaved sequentially, which their acquire and release
  orderings justify for the ring buffer's two indices.
\<close>

end
